(* ===== verification/Moria_Prelude.thy ===== *)
theory Moria_Prelude
  imports Main "HOL-Library.Word"
begin

unbundle bit_operations_syntax

section \<open>Shared vocabulary of the Moria development\<close>

text \<open>
  Types, results and generic lemmas that every component theory uses.

  \<^item> Machine types: \<open>byte\<close> is C++ \<^verbatim>\<open>uint8_t\<close>, \<open>u16\<close>, \<open>u32\<close>, \<open>u64\<close> the wider unsigned
    types. Arithmetic on them wraps, as it does in C++. \<open>Bytes\<close> is \<^verbatim>\<open>zen::Bytes\<close> and the
    contents of a \<^verbatim>\<open>ByteView\<close>. A \<^verbatim>\<open>size_t\<close> that only ever counts elements of an existing buffer
    is a \<open>nat\<close>; where the code adds to it without a check the wrap-around is written out
    with \<open>wrap64\<close>.
  \<^item> Results: a function that returns \<^verbatim>\<open>tl::expected<T, E>\<close> is modelled as \<open>E + T\<close>. A
    function that may throw, hit a failed \<^verbatim>\<open>ZEN_ASSERT\<close> or run into undefined behaviour returns
    \<open>'a run\<close>.
  \<^item> Object representation: \<open>le_nat\<close>/\<open>nat_le\<close> convert between a number and its bytes, least
    significant byte first; this is what \<^verbatim>\<open>memcpy\<close> from and to an integer does on the
    little-endian hosts the node is built for.
  \<^item> Blocks: \<open>chunks\<close> and \<open>leftover\<close> cut a message in full blocks and a rest.
\<close>

named_theorems moria_simps \<open>rewrite rules of the components' operations\<close>
named_theorems bytes_simps \<open>conversions between words and byte lists\<close>

type_synonym byte = "8 word"
type_synonym u16 = "16 word"
type_synonym u32 = "32 word"
type_synonym u64 = "64 word"
type_synonym Bytes = "byte list"

subsection \<open>Outcomes of C++ code that may not return normally\<close>

datatype cpp_exception =
    Invalid_argument string
  | Runtime_error string
  | Length_error string
  | Bad_lexical_cast
  | Ios_failure string
  | Mdbx_exception string
  | Os_signal_exception int string
  | Stage_error int string
  | Filesystem_error string

text \<open>
  \<open>Throw\<close> is a C++ exception, \<open>Abort\<close> a failed \<^verbatim>\<open>ZEN_ASSERT\<close> (which calls \<^verbatim>\<open>std::abort\<close>),
  \<open>Undef\<close> behaviour the C++ standard leaves undefined (signed overflow, access out of bounds).
\<close>

datatype 'a run = Ret 'a | Throw cpp_exception | Abort | Undef

fun run_bind :: "'a run \<Rightarrow> ('a \<Rightarrow> 'b run) \<Rightarrow> 'b run" where
  "run_bind (Ret a) f = f a"
| "run_bind (Throw e) f = Throw e"
| "run_bind Abort f = Abort"
| "run_bind Undef f = Undef"

fun map_ret :: "('a \<Rightarrow> 'b) \<Rightarrow> 'a run \<Rightarrow> 'b run" where
  "map_ret f (Ret a) = Ret (f a)"
| "map_ret f (Throw e) = Throw e"
| "map_ret f Abort = Abort"
| "map_ret f Undef = Undef"

lemma run_bind_Ret_iff [simp]:
  "run_bind m f = Ret b \<longleftrightarrow> (\<exists>a. m = Ret a \<and> f a = Ret b)"
  by (cases m) auto

lemma run_bind_assoc: "run_bind (run_bind m f) g = run_bind m (\<lambda>a. run_bind (f a) g)"
  by (cases m) auto

lemma map_ret_Ret_iff [simp]: "map_ret f m = Ret b \<longleftrightarrow> (\<exists>a. m = Ret a \<and> f a = b)"
  by (cases m) auto

text \<open>The macro of \<^verbatim>\<open>zen/core/common/assert.hpp\<close>, in front of the rest of the function.\<close>

definition ZEN_ASSERT :: "bool \<Rightarrow> 'a run \<Rightarrow> 'a run" where
  [simp]: "ZEN_ASSERT expr rest = (if expr then rest else Abort)"

text \<open>
  Sequencing of operations that change a state and may fail: the state an operation leaves behind is kept when it does
  not return.
\<close>

fun sys_bind :: "'a run \<times> 's \<Rightarrow> ('a \<Rightarrow> 's \<Rightarrow> 'b run \<times> 's) \<Rightarrow> 'b run \<times> 's" where
  "sys_bind (Ret a, s) f = f a s"
| "sys_bind (Throw e, s) f = (Throw e, s)"
| "sys_bind (Abort, s) f = (Abort, s)"
| "sys_bind (Undef, s) f = (Undef, s)"

lemma sys_bind_Ret: "sys_bind m f = (Ret b, s') \<longleftrightarrow> (\<exists>a s. m = (Ret a, s) \<and> f a s = (Ret b, s'))"
  by (cases "(m, f)" rule: sys_bind.cases) auto

text \<open>A sequence of calls of one operation; the first that does not return ends it.\<close>

abbreviation each :: "('d \<Rightarrow> 'a \<Rightarrow> 'a run) \<Rightarrow> 'd list \<Rightarrow> 'a run \<Rightarrow> 'a run" where
  "each f ds r \<equiv> fold (\<lambda>d r. run_bind r (f d)) ds r"

lemma fold_run_bind_fail [simp]:
  "fold (\<lambda>d r. run_bind r (f d)) ds (Throw e) = Throw e"
  "fold (\<lambda>d r. run_bind r (f d)) ds Abort = Abort"
  "fold (\<lambda>d r. run_bind r (f d)) ds Undef = Undef"
  by (induction ds) simp_all

text \<open>Calls of an operation that only forwards to a member of the object.\<close>

lemma each_member:
  assumes "\<And>d y. op d y = map_ret (\<lambda>h. put h y) (f d (get y))"
    and "\<And>h y. get (put h y) = h" "\<And>h h' y. put h (put h' y) = put h y" "\<And>y. put (get y) y = y"
  shows "each op ds (Ret y) = map_ret (\<lambda>h. put h y) (each f ds (Ret (get y)))"
proof (induction ds arbitrary: y)
  case (Cons d ds)
  then show ?case by (cases "f d (get y)") (simp_all add: assms)
qed (simp add: assms)

subsection \<open>Unsigned 64-bit arithmetic on sizes\<close>

definition wrap64 :: "nat \<Rightarrow> nat" where
  "wrap64 n = n mod 2 ^ 64"

definition sub64 :: "nat \<Rightarrow> nat \<Rightarrow> nat" where
  "sub64 a b = (a + 2 ^ 64 - b) mod 2 ^ 64"

lemma wrap64_id [simp]: "n < 2 ^ 64 \<Longrightarrow> wrap64 n = n"
  by (simp add: wrap64_def)

lemma wrap64_less: "wrap64 n < 2 ^ 64"
  by (simp add: wrap64_def)

lemma wrap64_le: "wrap64 n \<le> n"
  by (simp add: wrap64_def)

lemma sub64_le: "b \<le> a \<Longrightarrow> a < 2 ^ 64 \<Longrightarrow> sub64 a b = a - b"
proof -
  assume "b \<le> a" and "a < 2 ^ 64"
  then have "a + 2 ^ 64 - b = (a - b) + 2 ^ 64" and "a - b < 2 ^ 64"
    by simp_all
  then show ?thesis by (simp only: sub64_def mod_add_self2 mod_less)
qed

subsection \<open>Numbers and their bytes\<close>

primrec le_nat :: "nat \<Rightarrow> nat \<Rightarrow> Bytes" where
  "le_nat 0 v = []"
| "le_nat (Suc n) v = word_of_nat v # le_nat n (v div 256)"

primrec nat_le :: "Bytes \<Rightarrow> nat" where
  "nat_le [] = 0"
| "nat_le (b # bs) = unat b + 256 * nat_le bs"

lemma length_le_nat [simp, bytes_simps]: "length (le_nat n v) = n"
  by (induction n arbitrary: v) auto

lemma nat_le_less: "nat_le bs < 256 ^ length bs"
proof (induction bs)
  case (Cons b bs)
  have "unat b < 256" using unsigned_less [where w = b] by simp
  with Cons show ?case by simp
qed simp

lemma nat_le_le_nat [bytes_simps]: "nat_le (le_nat n v) = v mod 256 ^ n"
proof (induction n arbitrary: v)
  case (Suc n)
  have "v mod 256 + 256 * (v div 256 mod 256 ^ n) = v mod 256 ^ Suc n"
    by (metis add.commute mod_mult2_eq power_Suc)
  with Suc show ?case by (simp add: unat_of_nat)
qed simp

lemma le_nat_nat_le [bytes_simps]: "le_nat (length bs) (nat_le bs) = bs"
proof (induction bs)
  case (Cons b bs)
  have "unat b < 256" using unsigned_less [where w = b] by simp
  then have "(unat b + 256 * nat_le bs) div 256 = nat_le bs" by simp
  moreover have "(word_of_nat (unat b + 256 * nat_le bs) :: byte) = b"
  proof -
    have "(256 :: byte) = 0" by simp
    then have "(word_of_nat (256 * nat_le bs) :: byte) = 0"
      by (metis mult_zero_left of_nat_mult of_nat_numeral)
    then show ?thesis by simp
  qed
  ultimately show ?case using Cons by simp
qed simp

lemma nat_le_inject: "length as = length bs \<Longrightarrow> nat_le as = nat_le bs \<Longrightarrow> as = bs"
  by (metis le_nat_nat_le)

lemma le_nat_mod: "le_nat n (v mod 256 ^ n) = le_nat n v"
  by (rule nat_le_inject) (simp_all add: nat_le_le_nat)

text \<open>The bytes of a word, least significant first: its object representation.\<close>

definition sizeof_word :: "'a::len word \<Rightarrow> nat" where
  "sizeof_word w = LENGTH('a) div 8"

definition to_le :: "'a::len word \<Rightarrow> Bytes" where
  "to_le w = le_nat (sizeof_word w) (unat w)"

definition of_le :: "Bytes \<Rightarrow> 'a::len word" where
  "of_le bs = word_of_nat (nat_le bs)"

lemma length_to_le [simp, bytes_simps]: "length (to_le (w::'a::len word)) = LENGTH('a) div 8"
  by (simp add: to_le_def sizeof_word_def)

lemma power_256_sizeof: "8 dvd n \<Longrightarrow> (256::nat) ^ (n div 8) = 2 ^ n"
proof -
  assume "8 dvd n"
  then obtain k where "n = 8 * k" by blast
  moreover have "(2::nat) ^ (8 * k) = (2 ^ 8) ^ k" by (rule power_mult)
  ultimately show ?thesis by simp
qed

lemma nat_le_to_le: "8 dvd LENGTH('a) \<Longrightarrow> nat_le (to_le (w::'a::len word)) = unat w"
  using unsigned_less [where w = w]
  by (simp add: to_le_def sizeof_word_def nat_le_le_nat power_256_sizeof)

lemma of_le_to_le [bytes_simps]: "8 dvd LENGTH('a) \<Longrightarrow> of_le (to_le (w::'a::len word)) = w"
  by (simp add: of_le_def nat_le_to_le)

lemma unat_of_le:
  assumes "8 dvd LENGTH('a)" and "length bs = LENGTH('a) div 8"
  shows "unat (of_le bs :: 'a::len word) = nat_le bs"
proof -
  have "nat_le bs < 2 ^ LENGTH('a)"
    using nat_le_less [of bs] assms by (simp add: power_256_sizeof)
  then show ?thesis by (simp add: of_le_def unat_of_nat)
qed

lemma to_le_of_le [bytes_simps]:
  assumes "8 dvd LENGTH('a)" and "length bs = LENGTH('a) div 8"
  shows "to_le (of_le bs :: 'a::len word) = bs"
  using assms unat_of_le [OF assms]
  by (metis le_nat_nat_le sizeof_word_def to_le_def)

subsection \<open>Pieces of a message\<close>

lemma length_le_concat: "d \<in> set ds \<Longrightarrow> length d \<le> length (concat ds)"
  by (induction ds) auto

subsection \<open>Copying into a buffer\<close>

definition memcpy_at :: "'a list \<Rightarrow> nat \<Rightarrow> 'a list \<Rightarrow> 'a list" where
  "memcpy_at dst i src = take i dst @ src @ drop (i + length src) dst"

lemma length_memcpy_at [simp]:
  "i + length src \<le> length dst \<Longrightarrow> length (memcpy_at dst i src) = length dst"
  by (simp add: memcpy_at_def)

lemma take_memcpy_at [simp]:
  "i + length src \<le> length dst \<Longrightarrow> take (i + length src) (memcpy_at dst i src) = take i dst @ src"
  by (simp add: memcpy_at_def)

lemma foldl_memcpy_at:
  assumes "\<And>i. length (f i) = w"
  shows "foldl (\<lambda>ret i. memcpy_at ret (w * i) (f i)) (replicate (w * k) z) [0..<k] =
    concat (map f [0..<k])"
proof -
  have "j \<le> k \<Longrightarrow> foldl (\<lambda>ret i. memcpy_at ret (w * i) (f i)) (replicate (w * k) z) [0..<j] =
      concat (map f [0..<j]) @ replicate (w * (k - j)) z" for j
  proof (induction j)
    case (Suc j)
    have len: "length (concat (map f [0..<j])) = w * j"
      using assms by (induction j) (simp_all add: algebra_simps)
    have "w * (k - j) - w = w * (k - Suc j)" by (simp add: diff_mult_distrib2 algebra_simps)
    with Suc len show ?case by (simp add: memcpy_at_def assms)
  qed simp
  from this [of k] show ?thesis by simp
qed

lemma memcpy_at_0: "length src = length dst \<Longrightarrow> memcpy_at dst 0 src = src"
  by (simp add: memcpy_at_def)

subsection \<open>Full blocks of a message and the bytes left over\<close>

function chunks :: "nat \<Rightarrow> 'a list \<Rightarrow> 'a list list" where
  "chunks n xs = (if n = 0 \<or> length xs < n then [] else take n xs # chunks n (drop n xs))"
  by pat_completeness auto
termination
  by (relation "measure (\<lambda>(n, xs). length xs)") auto

declare chunks.simps [simp del]

definition leftover :: "nat \<Rightarrow> 'a list \<Rightarrow> 'a list" where
  "leftover n xs = drop (n * (length xs div n)) xs"

lemma chunks_short [simp]: "length xs < n \<Longrightarrow> chunks n xs = []"
  by (subst chunks.simps) simp

lemma chunks_full:
  "n > 0 \<Longrightarrow> n \<le> length xs \<Longrightarrow> chunks n xs = take n xs # chunks n (drop n xs)"
  by (subst chunks.simps) simp

lemma leftover_short [simp]: "length xs < n \<Longrightarrow> leftover n xs = xs"
  by (simp add: leftover_def)

lemma chunks_one:
  assumes "n > 0" and "length xs = n"
  shows "chunks n xs = [xs]" and "leftover n xs = []"
  using assms chunks_full [of n xs] by (simp_all add: leftover_def)

lemma leftover_drop: "n > 0 \<Longrightarrow> n \<le> length xs \<Longrightarrow> leftover n (drop n xs) = leftover n xs"
proof -
  assume "n > 0" and "n \<le> length xs"
  then have "length xs div n = Suc ((length xs - n) div n)"
    by (simp add: le_div_geq)
  then show ?thesis by (simp add: leftover_def add.commute)
qed

lemma length_leftover: "n > 0 \<Longrightarrow> length (leftover n xs) = length xs mod n"
  by (simp add: leftover_def minus_mult_div_eq_mod)

lemma chunks_lengths: "c \<in> set (chunks n xs) \<Longrightarrow> length c = n"
proof (induction n xs rule: chunks.induct)
  case (1 n xs)
  then show ?case by (subst (asm) chunks.simps) (auto split: if_splits)
qed

lemma chunks_append:
  "n > 0 \<Longrightarrow> n dvd length xs \<Longrightarrow> chunks n (xs @ ys) = chunks n xs @ chunks n ys"
proof (induction n xs rule: chunks.induct)
  case (1 n xs)
  show ?case
  proof (cases "xs = []")
    case True
    with "1.prems" show ?thesis by simp
  next
    case False
    with "1.prems" have le: "n \<le> length xs"
      by (simp add: dvd_imp_le)
    with "1.prems" have "chunks n (drop n xs @ ys) = chunks n (drop n xs) @ chunks n ys"
      by (intro "1.IH") (auto simp: dvd_minus_self)
    with le "1.prems"(1) show ?thesis
      by (simp add: chunks_full [of n "xs @ ys"] chunks_full [of n xs])
  qed
qed

lemma leftover_append:
  "n > 0 \<Longrightarrow> n dvd length xs \<Longrightarrow> leftover n (xs @ ys) = leftover n ys"
  by (auto simp: leftover_def distrib_left elim!: dvdE)

lemma chunks_leftover_append:
  assumes "n > 0"
  shows "chunks n (xs @ ys) = chunks n xs @ chunks n (leftover n xs @ ys)"
    and "leftover n (xs @ ys) = leftover n (leftover n xs @ ys)"
proof -
  let ?p = "take (n * (length xs div n)) xs"
  have "length ?p = n * (length xs div n)"
    by (simp add: times_div_less_eq_dividend)
  then have d: "n dvd length ?p"
    by simp
  have eq: "xs = ?p @ leftover n xs"
    by (simp add: leftover_def)
  have short: "chunks n (leftover n xs) = []"
    using assms by (simp add: length_leftover)
  have "chunks n xs = chunks n ?p"
    by (subst eq) (simp add: chunks_append [OF assms d] short)
  then show "chunks n (xs @ ys) = chunks n xs @ chunks n (leftover n xs @ ys)"
    by (subst eq) (simp add: chunks_append [OF assms d])
  show "leftover n (xs @ ys) = leftover n (leftover n xs @ ys)"
    by (subst eq) (simp add: leftover_append [OF assms d])
qed

lemma chunks_leftover_concat: "n > 0 \<Longrightarrow> concat (chunks n xs) @ leftover n xs = xs"
proof (induction n xs rule: chunks.induct)
  case (1 n xs)
  show ?case
  proof (cases "length xs < n")
    case False
    with 1 show ?thesis
      by (simp add: chunks_full leftover_drop [symmetric])
  qed simp
qed

end
