(* ===== verification/Endian.thy ===== *)
theory Endian
  imports Moria_Prelude
begin

section \<open>Byte order\<close>

text \<open>
  \<^verbatim>\<open>zen/core/common/endian.hpp\<close>. The header defines \<open>byte_swap\<close> itself and takes its load and store
  functions from the intx library. Those are parameters of the model: whoever uses
  \<^verbatim>\<open>endian::store_big_u32\<close> takes a function \<open>store\<close>, and relies on the documented contract of the
  pair, which is the locale \<open>be_codec\<close> (big endian) or \<open>le_codec\<close> (little endian). Both contracts are
  met by the functions \<open>be_store\<close>, \<open>be_load\<close>, \<open>to_le\<close> and \<open>of_le\<close>, on every width the header instantiates.
\<close>

definition nat_be :: "Bytes \<Rightarrow> nat" where
  "nat_be bs = nat_le (rev bs)"

text \<open>\<^verbatim>\<open>endian::byte_swap\<close>: copy the value to a buffer, reverse the buffer, copy it back.\<close>

definition byte_swap :: "'a::len word \<Rightarrow> 'a word" where
  "byte_swap value =
     (let buffer = replicate (sizeof_word value) 0;
          buffer = memcpy_at buffer 0 (to_le value);
          buffer = rev buffer
      in of_le buffer)"

definition be_store :: "'a::len word \<Rightarrow> Bytes" where
  "be_store w = rev (to_le w)"

definition be_load :: "Bytes \<Rightarrow> 'a::len word" where
  "be_load bs = of_le (rev bs)"

lemma nat_be_less: "nat_be bs < 256 ^ length bs"
  unfolding nat_be_def using nat_le_less [of "rev bs"] by simp

lemma nat_be_inject: "length as = length bs \<Longrightarrow> nat_be as = nat_be bs \<Longrightarrow> as = bs"
  by (metis length_rev nat_be_def nat_le_inject rev_rev_ident)

lemma nat_le_append: "nat_le (as @ bs) = nat_le as + 256 ^ length as * nat_le bs"
  by (induction as) (auto simp: algebra_simps)

lemma nat_be_Cons: "nat_be (b # bs) = unat b * 256 ^ length bs + nat_be bs"
  by (simp add: nat_be_def nat_le_append)

lemma nat_be_append: "nat_be (as @ bs) = nat_be as * 256 ^ length bs + nat_be bs"
  by (simp add: nat_be_def nat_le_append algebra_simps)

lemma nat_be_zeroes: "nat_be (replicate n 0 @ bs) = nat_be bs"
  by (induction n) (auto simp: nat_be_Cons)

lemma byte_swap_eq: "byte_swap w = of_le (rev (to_le w))"
  by (simp add: byte_swap_def sizeof_word_def memcpy_at_0)

locale be_codec =
  fixes store :: "'a::len word \<Rightarrow> Bytes" and load :: "Bytes \<Rightarrow> 'a word"
  assumes width: "8 dvd LENGTH('a)"
    and length_store: "length (store w) = LENGTH('a) div 8"
    and store_value: "nat_be (store w) = unat w"
    and load_value: "length bs = LENGTH('a) div 8 \<Longrightarrow> unat (load bs) = nat_be bs"
begin

lemma load_store: "load (store w) = w"
proof -
  have "unat (load (store w)) = unat w"
    by (simp add: load_value length_store store_value)
  then show ?thesis by (rule word_unat_eq_iff [THEN iffD2])
qed

lemma store_load: "length bs = LENGTH('a) div 8 \<Longrightarrow> store (load bs) = bs"
  by (rule nat_be_inject) (simp_all add: length_store store_value load_value)

lemma store_eq: "store w = rev (to_le w)"
proof (rule nat_be_inject)
  show "nat_be (store w) = nat_be (rev (to_le w))"
    using width store_value [of w] by (simp add: nat_be_def nat_le_to_le)
qed (simp add: length_store)

lemma store_inject: "store v = store w \<longleftrightarrow> v = w"
  by (metis load_store)

end

locale le_codec =
  fixes store :: "'a::len word \<Rightarrow> Bytes" and load :: "Bytes \<Rightarrow> 'a word"
  assumes width: "8 dvd LENGTH('a)"
    and length_store: "length (store w) = LENGTH('a) div 8"
    and store_value: "nat_le (store w) = unat w"
    and load_value: "length bs = LENGTH('a) div 8 \<Longrightarrow> unat (load bs) = nat_le bs"
begin

lemma store_eq: "store w = to_le w"
proof (rule nat_le_inject)
  show "nat_le (store w) = nat_le (to_le w)"
    using width by (simp add: store_value nat_le_to_le)
qed (simp add: length_store)

lemma load_store: "load (store w) = w"
proof -
  have "unat (load (store w)) = unat w"
    by (simp add: load_value length_store store_value)
  then show ?thesis by (rule word_unat_eq_iff [THEN iffD2])
qed

end

lemma be_codec_be:
  assumes "8 dvd LENGTH('a::len)"
  shows "be_codec (be_store :: 'a word \<Rightarrow> Bytes) be_load"
  using assms
  by unfold_locales
    (simp_all add: be_store_def be_load_def nat_be_def nat_le_to_le unat_of_le)

lemma le_codec_le:
  assumes "8 dvd LENGTH('a::len)"
  shows "le_codec (to_le :: 'a word \<Rightarrow> Bytes) of_le"
  using assms by unfold_locales (simp_all add: nat_le_to_le unat_of_le)

interpretation be16: be_codec "be_store :: u16 \<Rightarrow> Bytes" be_load
  by (rule be_codec_be) simp

interpretation be32: be_codec "be_store :: u32 \<Rightarrow> Bytes" be_load
  by (rule be_codec_be) simp

interpretation be64: be_codec "be_store :: u64 \<Rightarrow> Bytes" be_load
  by (rule be_codec_be) simp

interpretation le16: le_codec "to_le :: u16 \<Rightarrow> Bytes" of_le
  by (rule le_codec_le) simp

interpretation le32: le_codec "to_le :: u32 \<Rightarrow> Bytes" of_le
  by (rule le_codec_le) simp

interpretation le64: le_codec "to_le :: u64 \<Rightarrow> Bytes" of_le
  by (rule le_codec_le) simp

lemma to_le_byte_swap:
  "8 dvd LENGTH('a) \<Longrightarrow> to_le (byte_swap (w::'a::len word)) = rev (to_le w)"
  by (simp add: byte_swap_eq to_le_of_le)

lemma byte_swap_byte_swap: "8 dvd LENGTH('a) \<Longrightarrow> byte_swap (byte_swap (w::'a::len word)) = w"
  by (simp add: byte_swap_eq [of "byte_swap w"] to_le_byte_swap of_le_to_le)

subsection \<open>The functions the header takes from intx\<close>

text \<open>
  \<open>Endian_ops\<close> collects the functions the code calls by the names the header gives them; the
  locale \<open>intx_endian\<close> states that each pair is a codec of its byte order.
\<close>

record Endian_ops =
  load_big_u32 :: "Bytes \<Rightarrow> u32"
  store_big_u32 :: "u32 \<Rightarrow> Bytes"
  load_big_u64 :: "Bytes \<Rightarrow> u64"
  store_big_u64 :: "u64 \<Rightarrow> Bytes"
  load_little_u32 :: "Bytes \<Rightarrow> u32"
  store_little_u32 :: "u32 \<Rightarrow> Bytes"
  load_little_u64 :: "Bytes \<Rightarrow> u64"
  store_little_u64 :: "u64 \<Rightarrow> Bytes"

locale intx_endian =
  fixes E :: Endian_ops
  assumes big32: "be_codec (store_big_u32 E) (load_big_u32 E)"
    and big64: "be_codec (store_big_u64 E) (load_big_u64 E)"
    and little32: "le_codec (store_little_u32 E) (load_little_u32 E)"
    and little64: "le_codec (store_little_u64 E) (load_little_u64 E)"
begin

lemma store_big_eq:
  "store_big_u32 E v = be_store v" "store_big_u64 E w = be_store w"
  by (simp_all add: be_store_def be_codec.store_eq [OF big32] be_codec.store_eq [OF big64])

lemma store_little_eq:
  "store_little_u32 E v = to_le v" "store_little_u64 E w = to_le w"
  by (simp_all add: le_codec.store_eq [OF little32] le_codec.store_eq [OF little64])

lemma load_store_big32: "load_big_u32 E (store_big_u32 E v) = v"
  by (rule be_codec.load_store [OF big32])

lemma length_store_big32: "length (store_big_u32 E v) = 4"
  using be_codec.length_store [OF big32] by simp

end

definition reference_endian :: Endian_ops where
  "reference_endian =
     \<lparr>load_big_u32 = be_load, store_big_u32 = be_store, load_big_u64 = be_load,
      store_big_u64 = be_store, load_little_u32 = of_le, store_little_u32 = to_le,
      load_little_u64 = of_le, store_little_u64 = to_le\<rparr>"

interpretation ref_endian: intx_endian reference_endian
  by (rule intx_endian.intro)
    (simp_all add: reference_endian_def be32.be_codec_axioms be64.be_codec_axioms
      le32.le_codec_axioms le64.le_codec_axioms)

end
