(* ===== verification/Common_Base.thy ===== *)
theory Common_Base
  imports Moria_Prelude
begin

section \<open>Constants and error enumerations\<close>

text \<open>
  \<^verbatim>\<open>zen/core/common/base.hpp\<close> (sizes, size literals, coin constants) and
  \<^verbatim>\<open>zen/core/encoding/errors.hpp\<close> (the error enumerations of the codecs). The literal operators
  multiply \<^verbatim>\<open>uint64_t\<close> values, so they wrap; \<open>size_literal_no_wrap\<close> says for which arguments
  they do not.
\<close>

subsection \<open>Errors of the encoders and decoders\<close>

datatype DecodingError =
    kSuccess_dec
  | kInvalidHexDigit
  | kInvalidInput
  | kInvalidBase64Input
  | kInvalidAmountRange

datatype EncodingError =
    kSuccess_enc
  | kInputTooLong
  | kUnexpectedError

subsection \<open>Sizes\<close>

definition kKB :: u64 where "kKB = 1000"
definition kMB :: u64 where "kMB = kKB * 1000"
definition kGB :: u64 where "kGB = kMB * 1000"
definition kTB :: u64 where "kTB = kGB * 1000"

definition kKiB :: u64 where "kKiB = 1024"
definition kMiB :: u64 where "kMiB = push_bit 10 kKiB"
definition kGiB :: u64 where "kGiB = push_bit 10 kMiB"
definition kTiB :: u64 where "kTiB = push_bit 10 kGiB"

lemmas size_constants_defs =
  kKB_def kMB_def kGB_def kTB_def kKiB_def kMiB_def kGiB_def kTiB_def

definition lit_KB :: "u64 \<Rightarrow> u64" where "lit_KB x = x * kKB"
definition lit_MB :: "u64 \<Rightarrow> u64" where "lit_MB x = x * kMB"
definition lit_GB :: "u64 \<Rightarrow> u64" where "lit_GB x = x * kGB"
definition lit_TB :: "u64 \<Rightarrow> u64" where "lit_TB x = x * kTB"
definition lit_KiB :: "u64 \<Rightarrow> u64" where "lit_KiB x = x * kKiB"
definition lit_MiB :: "u64 \<Rightarrow> u64" where "lit_MiB x = x * kMiB"
definition lit_GiB :: "u64 \<Rightarrow> u64" where "lit_GiB x = x * kGiB"
definition lit_TiB :: "u64 \<Rightarrow> u64" where "lit_TiB x = x * kTiB"

lemma size_constants_values:
  "unat kKB = 10 ^ 3" "unat kMB = 10 ^ 6" "unat kGB = 10 ^ 9" "unat kTB = 10 ^ 12"
  "unat kKiB = 2 ^ 10" "unat kMiB = 2 ^ 20" "unat kGiB = 2 ^ 30" "unat kTiB = 2 ^ 40"
  by (simp_all add: size_constants_defs)

lemma unat_mult_no_wrap:
  "unat x * unat y < 2 ^ 64 \<Longrightarrow> unat (x * y :: u64) = unat x * unat y"
  by (simp add: unat_word_ariths)

lemma size_literal_no_wrap:
  "unat x < 2 ^ 24 \<Longrightarrow> unat (lit_TiB x) = unat x * 2 ^ 40"
  "unat x < 2 ^ 24 \<Longrightarrow> unat (lit_TB x) = unat x * 10 ^ 12"
  unfolding lit_TiB_def lit_TB_def
  by (subst unat_mult_no_wrap; simp add: size_constants_values)+

subsection \<open>Coin constants\<close>

definition kCoinMaxDecimals :: int where "kCoinMaxDecimals = 8"
definition kCoin :: int where "kCoin = 100000000"
definition kCoinCent :: int where "kCoinCent = kCoin div 100"
definition kCoinMaxSupply :: int where "kCoinMaxSupply = 21000000"
definition kCurrency :: string where "kCurrency = ''ZEN''"

lemma kCoin_decimals: "kCoin = 10 ^ nat kCoinMaxDecimals"
  by (simp add: kCoin_def kCoinMaxDecimals_def)

end
