(* ===== verification/Hex.thy ===== *)
theory Hex
  imports Endian Common_Base
begin

unbundle bit_operations_syntax

section \<open>Hexadecimal encoding\<close>

text \<open>
  \<^verbatim>\<open>zen/core/encoding/hex.hpp\<close> and \<^verbatim>\<open>hex.cpp\<close>. A \<^verbatim>\<open>std::string_view\<close> is a HOL string, whose characters are
  bytes. The two look-up tables are the source's tables, entry by entry. \<open>decode\<close> keeps the
  source's three phases: the odd leading digit, the loop unrolled to eight digits, and the loop
  over the remaining pairs; a read past the end of the input is \<open>Undef\<close>.

  The lemmas show that \<open>decode\<close> computes the plain reference decoder \<open>decode_ref\<close> on every input,
  that \<open>encode\<close> and \<open>decode\<close> are inverse to each other (up to the case of the digits, the prefix and
  the padding of odd inputs) and that \<open>reverse_hex\<close> reverses the decoded bytes.
\<close>

subsection \<open>Model\<close>

definition kUnhexTable :: "byte list" where
  "kUnhexTable =
     [0xff, 0xff, 0xff, 0xff, 0xff, 0xff, 0xff, 0xff, 0xff, 0xff, 0xff, 0xff, 0xff, 0xff, 0xff, 0xff,
      0xff, 0xff, 0xff, 0xff, 0xff, 0xff, 0xff, 0xff, 0xff, 0xff, 0xff, 0xff, 0xff, 0xff, 0xff, 0xff,
      0xff, 0xff, 0xff, 0xff, 0xff, 0xff, 0xff, 0xff, 0xff, 0xff, 0xff, 0xff, 0xff, 0xff, 0xff, 0xff,
      0x00, 0x01, 0x02, 0x03, 0x04, 0x05, 0x06, 0x07, 0x08, 0x09, 0xff, 0xff, 0xff, 0xff, 0xff, 0xff,
      0xff, 0x0a, 0x0b, 0x0c, 0x0d, 0x0e, 0x0f, 0xff, 0xff, 0xff, 0xff, 0xff, 0xff, 0xff, 0xff, 0xff,
      0xff, 0xff, 0xff, 0xff, 0xff, 0xff, 0xff, 0xff, 0xff, 0xff, 0xff, 0xff, 0xff, 0xff, 0xff, 0xff,
      0xff, 0x0a, 0x0b, 0x0c, 0x0d, 0x0e, 0x0f, 0xff, 0xff, 0xff, 0xff, 0xff, 0xff, 0xff, 0xff, 0xff,
      0xff, 0xff, 0xff, 0xff, 0xff, 0xff, 0xff, 0xff, 0xff, 0xff, 0xff, 0xff, 0xff, 0xff, 0xff, 0xff,
      0xff, 0xff, 0xff, 0xff, 0xff, 0xff, 0xff, 0xff, 0xff, 0xff, 0xff, 0xff, 0xff, 0xff, 0xff, 0xff,
      0xff, 0xff, 0xff, 0xff, 0xff, 0xff, 0xff, 0xff, 0xff, 0xff, 0xff, 0xff, 0xff, 0xff, 0xff, 0xff,
      0xff, 0xff, 0xff, 0xff, 0xff, 0xff, 0xff, 0xff, 0xff, 0xff, 0xff, 0xff, 0xff, 0xff, 0xff, 0xff,
      0xff, 0xff, 0xff, 0xff, 0xff, 0xff, 0xff, 0xff, 0xff, 0xff, 0xff, 0xff, 0xff, 0xff, 0xff, 0xff,
      0xff, 0xff, 0xff, 0xff, 0xff, 0xff, 0xff, 0xff, 0xff, 0xff, 0xff, 0xff, 0xff, 0xff, 0xff, 0xff,
      0xff, 0xff, 0xff, 0xff, 0xff, 0xff, 0xff, 0xff, 0xff, 0xff, 0xff, 0xff, 0xff, 0xff, 0xff, 0xff,
      0xff, 0xff, 0xff, 0xff, 0xff, 0xff, 0xff, 0xff, 0xff, 0xff, 0xff, 0xff, 0xff, 0xff, 0xff, 0xff,
      0xff, 0xff, 0xff, 0xff, 0xff, 0xff, 0xff, 0xff, 0xff, 0xff, 0xff, 0xff, 0xff, 0xff, 0xff, 0xff]"

definition kUnhexTable4 :: "byte list" where
  "kUnhexTable4 =
     [0xff, 0xff, 0xff, 0xff, 0xff, 0xff, 0xff, 0xff, 0xff, 0xff, 0xff, 0xff, 0xff, 0xff, 0xff, 0xff,
      0xff, 0xff, 0xff, 0xff, 0xff, 0xff, 0xff, 0xff, 0xff, 0xff, 0xff, 0xff, 0xff, 0xff, 0xff, 0xff,
      0xff, 0xff, 0xff, 0xff, 0xff, 0xff, 0xff, 0xff, 0xff, 0xff, 0xff, 0xff, 0xff, 0xff, 0xff, 0xff,
      0x00, 0x10, 0x20, 0x30, 0x40, 0x50, 0x60, 0x70, 0x80, 0x90, 0xff, 0xff, 0xff, 0xff, 0xff, 0xff,
      0xff, 0xa0, 0xb0, 0xc0, 0xd0, 0xe0, 0xf0, 0xff, 0xff, 0xff, 0xff, 0xff, 0xff, 0xff, 0xff, 0xff,
      0xff, 0xff, 0xff, 0xff, 0xff, 0xff, 0xff, 0xff, 0xff, 0xff, 0xff, 0xff, 0xff, 0xff, 0xff, 0xff,
      0xff, 0xa0, 0xb0, 0xc0, 0xd0, 0xe0, 0xf0, 0xff, 0xff, 0xff, 0xff, 0xff, 0xff, 0xff, 0xff, 0xff,
      0xff, 0xff, 0xff, 0xff, 0xff, 0xff, 0xff, 0xff, 0xff, 0xff, 0xff, 0xff, 0xff, 0xff, 0xff, 0xff,
      0xff, 0xff, 0xff, 0xff, 0xff, 0xff, 0xff, 0xff, 0xff, 0xff, 0xff, 0xff, 0xff, 0xff, 0xff, 0xff,
      0xff, 0xff, 0xff, 0xff, 0xff, 0xff, 0xff, 0xff, 0xff, 0xff, 0xff, 0xff, 0xff, 0xff, 0xff, 0xff,
      0xff, 0xff, 0xff, 0xff, 0xff, 0xff, 0xff, 0xff, 0xff, 0xff, 0xff, 0xff, 0xff, 0xff, 0xff, 0xff,
      0xff, 0xff, 0xff, 0xff, 0xff, 0xff, 0xff, 0xff, 0xff, 0xff, 0xff, 0xff, 0xff, 0xff, 0xff, 0xff,
      0xff, 0xff, 0xff, 0xff, 0xff, 0xff, 0xff, 0xff, 0xff, 0xff, 0xff, 0xff, 0xff, 0xff, 0xff, 0xff,
      0xff, 0xff, 0xff, 0xff, 0xff, 0xff, 0xff, 0xff, 0xff, 0xff, 0xff, 0xff, 0xff, 0xff, 0xff, 0xff,
      0xff, 0xff, 0xff, 0xff, 0xff, 0xff, 0xff, 0xff, 0xff, 0xff, 0xff, 0xff, 0xff, 0xff, 0xff, 0xff,
      0xff, 0xff, 0xff, 0xff, 0xff, 0xff, 0xff, 0xff, 0xff, 0xff, 0xff, 0xff, 0xff, 0xff, 0xff, 0xff]"

definition has_prefix :: "string \<Rightarrow> bool" where
  "has_prefix source \<longleftrightarrow>
     length source \<ge> 2 \<and> source ! 0 = CHR ''0'' \<and>
     (source ! 1 = CHR ''x'' \<or> source ! 1 = CHR ''X'')"

text \<open>The loop of \<^verbatim>\<open>reverse_hex\<close>: move the last two characters of the input to the output.\<close>

function reverse_hex_loop :: "string \<Rightarrow> string \<Rightarrow> string" where
  "reverse_hex_loop input output =
     (if length input \<ge> 2 then
        reverse_hex_loop (take (length input - 2) input)
          (output @ drop (length input - 2) input)
      else if input \<noteq> [] then output @ [CHR ''0''] @ [last input]
      else output)"
  by pat_completeness auto
termination
  by (relation "measure (\<lambda>(input, output). length input)") auto

declare reverse_hex_loop.simps [simp del]

definition reverse_hex :: "string \<Rightarrow> string" where
  "reverse_hex input =
     (if input = [] then []
      else if has_prefix input then reverse_hex_loop (drop 2 input) ''0x''
      else reverse_hex_loop input [])"

definition zeroless_view :: "Bytes \<Rightarrow> Bytes" where
  "zeroless_view data =
     (case find (\<lambda>i. data ! i \<noteq> 0) [0..<length data] of
        None \<Rightarrow> []
      | Some substr_offset \<Rightarrow> drop substr_offset data)"

definition kHexDigits :: string where
  "kHexDigits = ''0123456789abcdef''"

fun encode_loop :: "Bytes \<Rightarrow> string" where
  "encode_loop [] = []"
| "encode_loop (b # bytes) =
     kHexDigits ! unat (drop_bit 4 b) # kHexDigits ! unat (b AND 0x0f) # encode_loop bytes"

definition encode :: "Bytes \<Rightarrow> bool \<Rightarrow> string" where
  "encode bytes with_prefix = (if with_prefix then ''0x'' else []) @ encode_loop bytes"

text \<open>
  The overload for unsigned integers; \<open>store\<close> stands for \<^verbatim>\<open>intx::be::store\<close>.
\<close>

definition encode_value :: "('a::len word \<Rightarrow> Bytes) \<Rightarrow> 'a word \<Rightarrow> bool \<Rightarrow> string" where
  "encode_value store value with_prefix =
     (let bytes = store value;
          hexed = encode (zeroless_view bytes) with_prefix
      in if length hexed = (if with_prefix then 2 else 0) then hexed @ ''00'' else hexed)"

definition unhex :: "char \<Rightarrow> byte" where
  "unhex c = kUnhexTable ! of_char c"

definition unhex4 :: "char \<Rightarrow> byte" where
  "unhex4 c = kUnhexTable4 ! of_char c"

text \<open>The unrolled loop: eight digits, four bytes at a time.\<close>

fun decode_unrolled :: "string \<Rightarrow> Bytes \<Rightarrow> DecodingError + string \<times> Bytes" where
  "decode_unrolled (c0 # c1 # c2 # c3 # c4 # c5 # c6 # c7 # src) dst =
     (let a = unhex4 c0; b = unhex c1; c = unhex4 c2; d = unhex c3;
          e = unhex4 c4; f = unhex c5; g = unhex4 c6; h = unhex c7
      in if (b OR d OR f OR h) = 0xff \<or> (a OR c OR e OR g) = 0xff then Inl kInvalidHexDigit
         else decode_unrolled src (dst @ [a OR b, c OR d, e OR f, g OR h]))"
| "decode_unrolled src dst = Inr (src, dst)"

text \<open>The second loop: two digits, one byte at a time.\<close>

fun decode_pairs :: "string \<Rightarrow> Bytes \<Rightarrow> (DecodingError + Bytes) run" where
  "decode_pairs [] dst = Ret (Inr dst)"
| "decode_pairs [c] dst = Undef"
| "decode_pairs (c0 # c1 # src) dst =
     (let a = unhex4 c0; b = unhex c1
      in if a = 0xff \<or> b = 0xff then Ret (Inl kInvalidHexDigit)
         else decode_pairs src (dst @ [a OR b]))"

definition decode_even :: "string \<Rightarrow> Bytes \<Rightarrow> (DecodingError + Bytes) run" where
  "decode_even src dst =
     (case decode_unrolled src dst of
        Inl e \<Rightarrow> Ret (Inl e)
      | Inr (src', dst') \<Rightarrow> decode_pairs src' dst')"

definition decode :: "string \<Rightarrow> (DecodingError + Bytes) run" where
  "decode source0 =
     (let source = (if has_prefix source0 then drop 2 source0 else source0)
      in if source = [] then Ret (Inr [])
         else if length source mod 2 = 1 then
           (let b = unhex (hd source)
            in if b = 0xff then Ret (Inl kInvalidHexDigit)
               else decode_even (tl source) [b])
         else decode_even source [])"

definition decode_digit :: "char \<Rightarrow> DecodingError + nat" where
  "decode_digit input =
     (let value = unhex input
      in if value = 0xff then Inl kInvalidHexDigit else Inr (unat value))"

subsection \<open>Reference decoder\<close>

definition hex_code_val :: "nat \<Rightarrow> nat option" where
  "hex_code_val n =
     (if 48 \<le> n \<and> n \<le> 57 then Some (n - 48)
      else if 65 \<le> n \<and> n \<le> 70 then Some (n - 55)
      else if 97 \<le> n \<and> n \<le> 102 then Some (n - 87)
      else None)"

definition hex_digit_val :: "char \<Rightarrow> nat option" where
  "hex_digit_val c = hex_code_val (of_char c)"

fun unhex_pairs :: "string \<Rightarrow> Bytes option" where
  "unhex_pairs [] = Some []"
| "unhex_pairs [c] = None"
| "unhex_pairs (c0 # c1 # cs) =
     (case (hex_digit_val c0, hex_digit_val c1, unhex_pairs cs) of
        (Some hi, Some lo, Some bs) \<Rightarrow> Some (word_of_nat (16 * hi + lo) # bs)
      | _ \<Rightarrow> None)"

definition strip_prefix :: "string \<Rightarrow> string" where
  "strip_prefix s = (if has_prefix s then drop 2 s else s)"

definition pad_even :: "string \<Rightarrow> string" where
  "pad_even s = (if even (length s) then s else CHR ''0'' # s)"

definition decode_ref :: "string \<Rightarrow> DecodingError + Bytes" where
  "decode_ref s =
     (case unhex_pairs (pad_even (strip_prefix s)) of
        None \<Rightarrow> Inl kInvalidHexDigit
      | Some bs \<Rightarrow> Inr bs)"

subsection \<open>The tables\<close>

lemmas upt_eval = upt_rec [of 0] upt_rec [of "Suc 0"] upt_rec_numeral numeral_2_eq_2 [symmetric]

lemma kUnhexTable_eq:
  "kUnhexTable = map (\<lambda>n. case hex_code_val n of None \<Rightarrow> 0xff | Some d \<Rightarrow> word_of_nat d) [0..<256]"
  by (simp add: kUnhexTable_def hex_code_val_def upt_eval)

lemma kUnhexTable4_eq:
  "kUnhexTable4 =
     map (\<lambda>n. case hex_code_val n of None \<Rightarrow> 0xff | Some d \<Rightarrow> 16 * word_of_nat d) [0..<256]"
  by (simp add: kUnhexTable4_def hex_code_val_def upt_eval)

lemma of_char_less: "(of_char c :: nat) < 256"
  by simp

lemma unhex_eq: "unhex c = (case hex_digit_val c of None \<Rightarrow> 0xff | Some d \<Rightarrow> word_of_nat d)"
  unfolding unhex_def kUnhexTable_eq hex_digit_val_def by (subst nth_map) simp_all

lemma unhex4_eq: "unhex4 c = (case hex_digit_val c of None \<Rightarrow> 0xff | Some d \<Rightarrow> 16 * word_of_nat d)"
  unfolding unhex4_def kUnhexTable4_eq hex_digit_val_def by (subst nth_map) simp_all

lemma hex_digit_val_less: "hex_digit_val c = Some d \<Longrightarrow> d < 16"
  by (auto simp: hex_digit_val_def hex_code_val_def split: if_splits)

lemma nibble_table:
  "list_all (\<lambda>d. (word_of_nat d :: byte) \<noteq> 0xff \<and> \<not> bit (word_of_nat d :: byte) 4 \<and>
     (16 * word_of_nat d :: byte) \<noteq> 0xff \<and> \<not> bit (16 * word_of_nat d :: byte) 0 \<and>
     list_all (\<lambda>e. (16 * word_of_nat d :: byte) OR word_of_nat e = 16 * word_of_nat d + word_of_nat e) [0..<16])
     [0..<16]"
  by (simp add: upt_eval)

lemma nibble:
  assumes "d < 16"
  shows "(word_of_nat d :: byte) \<noteq> 0xff \<and> \<not> bit (word_of_nat d :: byte) 4 \<and>
    (16 * word_of_nat d :: byte) \<noteq> 0xff \<and> \<not> bit (16 * word_of_nat d :: byte) 0"
proof -
  from assms have "d \<in> set [0..<16]" by simp
  with nibble_table show ?thesis unfolding list_all_iff by blast
qed

lemma nibble_or:
  assumes "d < 16" and "e < 16"
  shows "(16 * word_of_nat d :: byte) OR word_of_nat e = 16 * word_of_nat d + word_of_nat e"
proof -
  from assms have "d \<in> set [0..<16]" and "e \<in> set [0..<16]" by simp_all
  with nibble_table show ?thesis unfolding list_all_iff by blast
qed

lemma unhex_bad [simp]: "unhex c = 0xff \<longleftrightarrow> hex_digit_val c = None"
  by (auto simp: unhex_eq dest!: hex_digit_val_less nibble split: option.splits)

lemma unhex4_bad [simp]: "unhex4 c = 0xff \<longleftrightarrow> hex_digit_val c = None"
  by (auto simp: unhex4_eq dest!: hex_digit_val_less nibble split: option.splits)

lemma unhex_or:
  "hex_digit_val c0 = Some hi \<Longrightarrow> hex_digit_val c1 = Some lo \<Longrightarrow>
   unhex4 c0 OR unhex c1 = word_of_nat (16 * hi + lo)"
  by (simp add: unhex_eq unhex4_eq nibble_or hex_digit_val_less)

text \<open>A disjunction of table entries is \<^verbatim>\<open>0xff\<close> exactly when one of them is.\<close>

lemma or_is_ff:
  fixes a b :: byte
  assumes "a = 0xff \<or> \<not> bit a n" and "b = 0xff \<or> \<not> bit b n" and "n < 8"
  shows "a OR b = 0xff \<longleftrightarrow> a = 0xff \<or> b = 0xff"
    and "a OR b = 0xff \<or> \<not> bit (a OR b) n"
proof -
  have ff: "(0xff :: byte) = - 1" by simp
  have bit_ff: "bit (0xff :: byte) n" using assms(3) by (simp add: ff)
  have absorb: "a = 0xff \<or> b = 0xff \<Longrightarrow> a OR b = 0xff"
    unfolding ff by auto
  then show "a OR b = 0xff \<longleftrightarrow> a = 0xff \<or> b = 0xff"
    using assms bit_ff by (metis bit_or_iff)
  show "a OR b = 0xff \<or> \<not> bit (a OR b) n"
    using assms absorb by (metis bit_or_iff)
qed

lemma unhex_bit: "unhex c = 0xff \<or> \<not> bit (unhex c) 4"
  by (auto simp: unhex_eq dest!: hex_digit_val_less nibble split: option.splits)

lemma unhex4_bit: "unhex4 c = 0xff \<or> \<not> bit (unhex4 c) 0"
  by (auto simp: unhex4_eq dest!: hex_digit_val_less nibble split: option.splits)

lemma low_digits_bad:
  "(unhex b OR unhex d OR unhex f OR unhex h) = 0xff \<longleftrightarrow>
   unhex b = 0xff \<or> unhex d = 0xff \<or> unhex f = 0xff \<or> unhex h = 0xff"
proof -
  note fh = or_is_ff [OF unhex_bit [of f] unhex_bit [of h]]
  note dfh = or_is_ff [OF unhex_bit [of d] fh(2)]
  show ?thesis
    using or_is_ff(1) [OF unhex_bit [of b] dfh(2)] dfh(1) fh(1) by (simp add: or.assoc)
qed

lemma high_digits_bad:
  "(unhex4 a OR unhex4 c OR unhex4 e OR unhex4 g) = 0xff \<longleftrightarrow>
   unhex4 a = 0xff \<or> unhex4 c = 0xff \<or> unhex4 e = 0xff \<or> unhex4 g = 0xff"
proof -
  note eg = or_is_ff [OF unhex4_bit [of e] unhex4_bit [of g]]
  note ceg = or_is_ff [OF unhex4_bit [of c] eg(2)]
  show ?thesis
    using or_is_ff(1) [OF unhex4_bit [of a] ceg(2)] ceg(1) eg(1) by (simp add: or.assoc)
qed

subsection \<open>The optimised decoder computes the reference\<close>

text \<open>The unrolled loop is the plain loop run on the same input.\<close>

lemma decode_even_pairs: "decode_even src dst = decode_pairs src dst"
proof (induction src dst rule: decode_unrolled.induct)
  case (1 c0 c1 c2 c3 c4 c5 c6 c7 src dst)
  let ?bad = "(unhex c1 OR unhex c3 OR unhex c5 OR unhex c7) = 0xff \<or>
    (unhex4 c0 OR unhex4 c2 OR unhex4 c4 OR unhex4 c6) = 0xff"
  show ?case
  proof (cases ?bad)
    case True
    then have "hex_digit_val c0 = None \<or> hex_digit_val c1 = None \<or> hex_digit_val c2 = None \<or>
      hex_digit_val c3 = None \<or> hex_digit_val c4 = None \<or> hex_digit_val c5 = None \<or>
      hex_digit_val c6 = None \<or> hex_digit_val c7 = None"
      unfolding low_digits_bad high_digits_bad by auto
    with True show ?thesis
      by (auto simp: decode_even_def)
  next
    case False
    then obtain d0 d1 d2 d3 d4 d5 d6 d7 where
      "hex_digit_val c0 = Some d0" "hex_digit_val c1 = Some d1" "hex_digit_val c2 = Some d2"
      "hex_digit_val c3 = Some d3" "hex_digit_val c4 = Some d4" "hex_digit_val c5 = Some d5"
      "hex_digit_val c6 = Some d6" "hex_digit_val c7 = Some d7"
      unfolding low_digits_bad high_digits_bad by auto
    with False "1.IH" show ?thesis
      by (simp add: decode_even_def)
  qed
qed (simp_all add: decode_even_def)

lemma decode_pairs_ref:
  "even (length src) \<Longrightarrow>
   decode_pairs src dst =
     Ret (case unhex_pairs src of None \<Rightarrow> Inl kInvalidHexDigit | Some bs \<Rightarrow> Inr (dst @ bs))"
  by (induction src dst rule: decode_pairs.induct) (auto simp: unhex_or split: option.splits)

lemma hex_digit_val_0 [simp]: "hex_digit_val (CHR ''0'') = Some 0"
  by (simp add: hex_digit_val_def hex_code_val_def)

lemma decode_unfold:
  "decode s =
     (let t = strip_prefix s
      in if odd (length t) then
           (if hex_digit_val (hd t) = None then Ret (Inl kInvalidHexDigit)
            else decode_pairs (tl t) [unhex (hd t)])
         else decode_pairs t [])"
  unfolding decode_def Let_def strip_prefix_def decode_even_pairs unhex_bad
  by (cases "has_prefix s") (auto simp: odd_iff_mod_2_eq_one)

lemma decode_eq_ref: "decode s = Ret (decode_ref s)"
proof (cases "odd (length (strip_prefix s))")
  case True
  then obtain c cs where t: "strip_prefix s = c # cs" and e: "even (length cs)"
    by (cases "strip_prefix s") auto
  then show ?thesis
    by (auto simp: decode_unfold decode_pairs_ref decode_ref_def pad_even_def unhex_eq
      split: option.splits)
next
  case False
  then show ?thesis
    by (simp add: decode_unfold decode_pairs_ref decode_ref_def pad_even_def split: option.splits)
qed

subsection \<open>Decoded strings consist of digits\<close>

lemma unhex_pairs_digits: "unhex_pairs t = Some bs \<Longrightarrow> c \<in> set t \<Longrightarrow> hex_digit_val c \<noteq> None"
  by (induction t arbitrary: bs rule: unhex_pairs.induct) (auto split: option.splits)

lemma unhex_pairs_length: "unhex_pairs t = Some bs \<Longrightarrow> length t = 2 * length bs"
  by (induction t arbitrary: bs rule: unhex_pairs.induct) (auto split: option.splits)

lemma hex_digit_val_x [simp]: "hex_digit_val (CHR ''x'') = None" "hex_digit_val (CHR ''X'') = None"
  by (simp_all add: hex_digit_val_def hex_code_val_def)

lemma digits_no_prefix: "unhex_pairs t = Some bs \<Longrightarrow> \<not> has_prefix t"
proof
  assume t: "unhex_pairs t = Some bs" and "has_prefix t"
  then have "t ! 1 \<in> set t" and "hex_digit_val (t ! 1) = None"
    by (auto simp: has_prefix_def)
  with unhex_pairs_digits [OF t] show False by blast
qed

lemma strip_digits [simp]: "unhex_pairs t = Some bs \<Longrightarrow> strip_prefix t = t"
  by (simp add: strip_prefix_def digits_no_prefix)

lemma strip_0x [simp]: "strip_prefix (CHR ''0'' # CHR ''x'' # t) = t"
  by (simp add: strip_prefix_def has_prefix_def)

lemma pad_digits [simp]: "unhex_pairs t = Some bs \<Longrightarrow> pad_even t = t"
  by (simp add: pad_even_def unhex_pairs_length)

lemma decode_digits:
  "unhex_pairs t = Some bs \<Longrightarrow> decode t = Ret (Inr bs)"
  "unhex_pairs t = Some bs \<Longrightarrow> decode (CHR ''0'' # CHR ''x'' # t) = Ret (Inr bs)"
  by (simp_all add: decode_eq_ref decode_ref_def)

lemma decode_okD:
  "decode s = Ret (Inr bs) \<Longrightarrow> unhex_pairs (pad_even (strip_prefix s)) = Some bs"
  by (simp add: decode_eq_ref decode_ref_def split: option.splits)

subsection \<open>Encoding\<close>

lemma kHexDigits_table: "list_all (\<lambda>n. hex_digit_val (kHexDigits ! n) = Some n) [0..<16]"
  by (simp add: upt_eval kHexDigits_def hex_digit_val_def hex_code_val_def)

lemma kHexDigits_val: "n < 16 \<Longrightarrow> hex_digit_val (kHexDigits ! n) = Some n"
  using kHexDigits_table by (simp add: list_all_iff)

lemma nibbles:
  fixes b :: byte
  shows "unat (drop_bit 4 b) = unat b div 16" and "unat (b AND 0x0f) = unat b mod 16"
proof -
  show "unat (drop_bit 4 b) = unat b div 16"
    by (simp only: unat_drop_bit_eq) (simp add: drop_bit_eq_div)
  have "b AND 0x0f = take_bit 4 b"
    by (simp add: take_bit_eq_mask mask_eq_exp_minus_1)
  then show "unat (b AND 0x0f) = unat b mod 16"
    by (simp only: unsigned_take_bit_eq) (simp add: take_bit_eq_mod)
qed

lemma nibble_bounds: "unat (drop_bit 4 (b::byte)) < 16" "unat ((b::byte) AND 0x0f) < 16"
  using unsigned_less [where w = b and 'a = nat] by (auto simp: nibbles less_mult_imp_div_less)

lemma nibbles_join: "(word_of_nat (16 * unat (drop_bit 4 b) + unat (b AND 0x0f)) :: byte) = b"
  unfolding nibbles by (simp only: mult_div_mod_eq) simp

lemma unhex_encode_loop: "unhex_pairs (encode_loop bs) = Some bs"
proof (induction bs)
  case (Cons b bs)
  then show ?case
    using nibbles_join [of b] by (simp add: kHexDigits_val nibble_bounds)
qed simp

lemma decode_encode_run: "decode (encode bytes with_prefix) = Ret (Inr bytes)"
  by (simp add: encode_def decode_digits unhex_encode_loop)

text \<open>
  encoding a byte string, with or without the prefix, and decoding the text gives the bytes
  back; so two byte strings with the same text are equal.
\<close>

theorem decode_encode:
  "decode (encode bytes with_prefix) = Ret (Inr bytes) \<and>
   (encode bytes with_prefix = encode bytes' with_prefix \<longleftrightarrow> bytes = bytes')"
  by (metis decode_encode_run run.inject(1) sum.inject(2))

subsection \<open>Decoding then encoding gives the canonical text\<close>

definition lower_digit :: "char \<Rightarrow> char" where
  "lower_digit c = (if 65 \<le> (of_char c :: nat) \<and> of_char c \<le> (70::nat)
     then char_of (of_char c + 32 :: nat) else c)"

lemma lower_digit_table:
  "list_all (\<lambda>n. map_option (\<lambda>d. kHexDigits ! d) (hex_code_val n) = Some (lower_digit (char_of n)))
     ([48..<58] @ [65..<71] @ [97..<103])"
  by (simp add: upt_eval kHexDigits_def hex_code_val_def lower_digit_def char_of_def bit_0)

lemma kHexDigits_lower: "hex_digit_val c = Some d \<Longrightarrow> kHexDigits ! d = lower_digit c"
proof -
  assume d: "hex_digit_val c = Some d"
  then have "of_char c \<in> set ([48..<58] @ [65..<71] @ [97..<103])"
    unfolding set_append set_upt Un_iff atLeastLessThan_iff hex_digit_val_def hex_code_val_def
    by (auto split: if_splits)
  with lower_digit_table
  have "map_option (\<lambda>d. kHexDigits ! d) (hex_code_val (of_char c)) =
      Some (lower_digit (char_of (of_char c :: nat)))"
    unfolding list_all_iff by blast
  with d show ?thesis by (simp add: hex_digit_val_def)
qed

lemma encode_unhex: "unhex_pairs t = Some bs \<Longrightarrow> encode_loop bs = map lower_digit t"
proof (induction t arbitrary: bs rule: unhex_pairs.induct)
  case (3 c0 c1 cs)
  then obtain hi lo bs' where d: "hex_digit_val c0 = Some hi" "hex_digit_val c1 = Some lo"
    and r: "unhex_pairs cs = Some bs'" and bs: "bs = word_of_nat (16 * hi + lo) # bs'"
    by (auto split: option.splits)
  let ?b = "word_of_nat (16 * hi + lo) :: byte"
  have hl: "hi < 16" "lo < 16" using d by (simp_all add: hex_digit_val_less)
  then have "unat ?b = 16 * hi + lo"
    by (simp only: unat_of_nat) simp
  with hl have "unat (drop_bit 4 ?b) = hi" and "unat (?b AND 0x0f) = lo"
    by (simp_all only: nibbles) simp_all
  with "3.IH" [OF r] d bs show ?case
    by (simp add: kHexDigits_lower del: of_nat_add of_nat_mult)
qed auto

subsection \<open>Reversing\<close>

fun reverse_pairs :: "string \<Rightarrow> string" where
  "reverse_pairs [] = []"
| "reverse_pairs [c] = [c]"
| "reverse_pairs (a # b # cs) = reverse_pairs cs @ [a, b]"

lemma reverse_pairs_snoc:
  "even (length cs) \<Longrightarrow> reverse_pairs (cs @ [a, b]) = a # b # reverse_pairs cs"
  by (induction cs rule: reverse_pairs.induct) auto

lemma reverse_hex_loop_eq:
  "reverse_hex_loop inp out = out @ reverse_pairs (pad_even inp)"
proof (induction inp out rule: reverse_hex_loop.induct)
  case (1 inp out)
  let ?n = "length inp - 2"
  show ?case
  proof (cases "length inp \<ge> 2")
    case True
    then have "length (drop ?n inp) = 2" by simp
    then obtain a b where ab: "drop ?n inp = [a, b]"
      by (metis (no_types) One_nat_def Suc_1 length_0_conv length_Suc_conv)
    have "pad_even inp = pad_even (take ?n inp) @ [a, b]"
      using True ab by (auto simp: pad_even_def simp flip: ab)
    moreover have "even (length (pad_even (take ?n inp)))"
      by (simp add: pad_even_def)
    ultimately show ?thesis
      using 1 True ab by (subst reverse_hex_loop.simps) (simp add: reverse_pairs_snoc)
  next
    case False
    then have "length inp = 0 \<or> length inp = 1" by linarith
    then show ?thesis
      by (subst reverse_hex_loop.simps) (auto simp: pad_even_def length_Suc_conv)
  qed
qed

lemma unhex_pairs_append:
  "even (length as) \<Longrightarrow>
   unhex_pairs (as @ bs) =
     (case (unhex_pairs as, unhex_pairs bs) of (Some x, Some y) \<Rightarrow> Some (x @ y) | _ \<Rightarrow> None)"
  by (induction as rule: unhex_pairs.induct) (auto split: option.splits)

lemma length_reverse_pairs: "length (reverse_pairs t) = length t"
  by (induction t rule: reverse_pairs.induct) auto

lemma unhex_reverse_pairs: "unhex_pairs t = Some bs \<Longrightarrow> unhex_pairs (reverse_pairs t) = Some (rev bs)"
proof (induction t arbitrary: bs rule: reverse_pairs.induct)
  case (3 a b cs)
  then show ?case
    using unhex_pairs_length
    by (auto simp: unhex_pairs_append length_reverse_pairs split: option.splits)
qed auto

text \<open>
  if a text decodes to some bytes then its reversal decodes to the reversed bytes, whether
  the text has a prefix or an odd number of digits.
\<close>

theorem decode_reverse_hex:
  assumes "decode s = Ret (Inr bytes)"
  shows "decode (reverse_hex s) = Ret (Inr (rev bytes))"
proof -
  have r: "unhex_pairs (reverse_pairs (pad_even (strip_prefix s))) = Some (rev bytes)"
    by (rule unhex_reverse_pairs) (rule decode_okD [OF assms])
  show ?thesis
  proof (cases "has_prefix s")
    case True
    then have "s \<noteq> []" by (auto simp: has_prefix_def)
    with True r show ?thesis
      by (simp add: reverse_hex_def reverse_hex_loop_eq strip_prefix_def decode_digits)
  next
    case False
    with r show ?thesis
      by (cases "s = []")
        (simp_all add: reverse_hex_def reverse_hex_loop_eq strip_prefix_def decode_digits)
  qed
qed

theorem decode_reverse_hex_witness:
  "decode (reverse_hex ''0x12aBc'') = Ret (Inr (rev [0x01, 0x2a, 0xbc]))"
proof (rule decode_reverse_hex)
  show "decode ''0x12aBc'' = Ret (Inr [0x01, 0x2a, 0xbc])"
    by (simp add: decode_eq_ref decode_ref_def strip_prefix_def has_prefix_def pad_even_def
      hex_digit_val_def hex_code_val_def)
qed

subsection \<open>Integers\<close>

lemma zeroless_view_eq: "zeroless_view data = dropWhile (\<lambda>b. b = 0) data"
proof (induction data)
  case (Cons b bs)
  have upt: "[0..<Suc n] = 0 # map Suc [0..<n]" for n
    by (simp add: upt_conv_Cons map_Suc_upt)
  have find_map: "find P (map f xs) = map_option f (find (P \<circ> f) xs)" for P f and xs :: "nat list"
    by (induction xs) auto
  show ?case
    using Cons
    by (auto simp: zeroless_view_def upt find_map comp_def simp del: upt_Suc
      split: option.splits)
qed (simp add: zeroless_view_def)

lemma nat_be_dropWhile: "nat_be (dropWhile (\<lambda>b. b = 0) bs) = nat_be bs"
  by (induction bs) (auto simp: nat_be_Cons)

lemma nat_be_eq_0: "nat_be bs = 0 \<Longrightarrow> dropWhile (\<lambda>b. b = 0) bs = []"
  by (induction bs) (auto simp: nat_be_Cons unsigned_eq_0_iff)

lemma encode_loop_Nil [simp]: "encode_loop bs = [] \<longleftrightarrow> bs = []"
  by (cases bs) auto

lemma encode_value_eq:
  "encode_value store value with_prefix =
     encode (if zeroless_view (store value) = [] then [0] else zeroless_view (store value)) with_prefix"
  by (cases with_prefix) (simp_all add: encode_value_def encode_def Let_def kHexDigits_def)

text \<open>
  the text of an unsigned integer decodes to its big endian bytes: their value is the integer,
  there is at least one byte and no leading zero byte, except that zero is the one byte \<^verbatim>\<open>00\<close>.
  Stated for any width and for any big endian store function.
\<close>

theorem decode_encode_value:
  assumes "be_codec store load"
  shows "\<exists>bytes. decode (encode_value store value with_prefix) = Ret (Inr bytes) \<and>
    nat_be bytes = unat value \<and> bytes \<noteq> [] \<and> (hd bytes = 0 \<longleftrightarrow> bytes = [0])"
proof -
  let ?z = "dropWhile (\<lambda>b. b = 0) (store value)"
  have z: "nat_be ?z = unat value"
    using be_codec.store_value [OF assms] by (simp add: nat_be_dropWhile)
  have "?z \<noteq> [] \<Longrightarrow> hd ?z \<noteq> 0"
    using hd_dropWhile [of "\<lambda>b. b = 0" "store value"] by blast
  with z show ?thesis
    unfolding encode_value_eq zeroless_view_eq decode_encode_run
    by (cases "?z = []") (auto simp: nat_be_def)
qed

theorem decode_encode_value_witness:
  "\<exists>bytes. decode (encode_value be_store (0x0102 :: u64) True) = Ret (Inr bytes) \<and>
    nat_be bytes = unat (0x0102 :: u64) \<and> bytes \<noteq> [] \<and> (hd bytes = 0 \<longleftrightarrow> bytes = [0])"
  by (rule decode_encode_value) (rule be64.be_codec_axioms)

text \<open>
  C16: the table-driven decoder with its unrolled loop never reads past the input and returns, on
  every input, what the digit-by-digit reference decoder returns; re-encoding a decoded text gives
  the text in lower case, without prefix and padded to an even number of digits.
\<close>

theorem decode_correct:
  "decode s = Ret (decode_ref s) \<and>
   (case decode_ref s of
      Inl e \<Rightarrow> e = kInvalidHexDigit \<and> unhex_pairs (pad_even (strip_prefix s)) = None
    | Inr bytes \<Rightarrow> encode bytes False = map lower_digit (pad_even (strip_prefix s)))"
  by (auto simp: decode_eq_ref decode_ref_def encode_def encode_unhex split: option.splits sum.splits)

end
