(* ===== verification/Data_Stream.thy ===== *)
theory Data_Stream
  imports Hex
begin

section \<open>The serialization stream\<close>

text \<open>
  \<^verbatim>\<open>zen/core/serialization/base.hpp\<close> and \<^verbatim>\<open>stream.hpp\<close>/\<^verbatim>\<open>stream.cpp\<close>: the byte buffer with a read position
  that all (de)serialization works on. The buffer is a byte list, the read position a number below
  \<^verbatim>\<open>2^64\<close>; sums of positions and counts wrap as \<^verbatim>\<open>size_t\<close> does. An iterator is the index it points to.
  Element access, \<open>insert\<close>, \<open>erase\<close> and the view that \<open>read\<close> returns are \<open>Undef\<close> where the code leaves the
  buffer. \<open>reserve\<close> changes the capacity of the buffer only, which the model does not have; running
  out of memory is not modelled either.

  The well-formedness invariant \<open>stream_ok\<close> says that the read position is inside the buffer. The
  lemmas show which operations keep it, what each operation does to the unread data (\<open>unread\<close>), and
  that every operation refines the plain queue of unread bytes.
\<close>

subsection \<open>Model\<close>

definition kMaxSerializedCompactSize :: u32 where
  "kMaxSerializedCompactSize = 0x02000000"

datatype Scope = kNetwork | kStorage | kHash

definition Scope_value :: "Scope \<Rightarrow> u32" where
  "Scope_value s =
     (case s of kNetwork \<Rightarrow> push_bit 0 1 | kStorage \<Rightarrow> push_bit 1 1 | kHash \<Rightarrow> push_bit 2 1)"

datatype DeserializationError =
    kSuccess_deser
  | kReadBeyondData
  | kNonCanonicalCompactSize
  | kCompactSizeTooBig

record DataStream =
  buffer :: Bytes
  read_position :: nat
  scope :: Scope
  version :: int

definition new_DataStream :: "Scope \<Rightarrow> int \<Rightarrow> DataStream" where
  "new_DataStream sc v = \<lparr>buffer = [], read_position = 0, scope = sc, version = v\<rparr>"

definition resize :: "nat \<Rightarrow> byte \<Rightarrow> DataStream \<Rightarrow> DataStream" where
  "resize new_size item s =
     s\<lparr>buffer := take new_size (buffer s) @ replicate (new_size - length (buffer s)) item\<rparr>"

definition stream_write :: "Bytes \<Rightarrow> DataStream \<Rightarrow> DataStream" where
  "stream_write data s = s\<lparr>buffer := buffer s @ data\<rparr>"

definition begin_pos :: "DataStream \<Rightarrow> nat" where
  "begin_pos s = read_position s"

definition end_pos :: "DataStream \<Rightarrow> nat" where
  "end_pos s = length (buffer s)"

definition insert_at :: "nat \<Rightarrow> byte \<Rightarrow> DataStream \<Rightarrow> DataStream run" where
  "insert_at pos item s =
     (if pos \<le> length (buffer s)
      then Ret (s\<lparr>buffer := take pos (buffer s) @ item # drop pos (buffer s)\<rparr>)
      else Undef)"

definition erase_at :: "nat \<Rightarrow> DataStream \<Rightarrow> DataStream run" where
  "erase_at pos s =
     (if pos < length (buffer s)
      then Ret (s\<lparr>buffer := take pos (buffer s) @ drop (Suc pos) (buffer s)\<rparr>)
      else Undef)"

definition push_back :: "byte \<Rightarrow> DataStream \<Rightarrow> DataStream" where
  "push_back item s = s\<lparr>buffer := buffer s @ [item]\<rparr>"

definition stream_read :: "nat \<Rightarrow> DataStream \<Rightarrow> ((DeserializationError + Bytes) \<times> DataStream) run" where
  "stream_read count s =
     (let next_read_position = wrap64 (read_position s + count)
      in if next_read_position > length (buffer s) then Ret (Inl kReadBeyondData, s)
         else if read_position s + count \<le> length (buffer s) then
           Ret (Inr (take count (drop (read_position s) (buffer s))),
                s\<lparr>read_position := next_read_position\<rparr>)
         else Undef)"

definition skip :: "nat \<Rightarrow> DataStream \<Rightarrow> DataStream" where
  "skip count s =
     s\<lparr>read_position := min (wrap64 (read_position s + count)) (length (buffer s))\<rparr>"

definition eof :: "DataStream \<Rightarrow> bool" where
  "eof s \<longleftrightarrow> read_position s \<ge> length (buffer s)"

definition get_elem :: "nat \<Rightarrow> DataStream \<Rightarrow> byte run" where
  "get_elem pos s =
     (let i = wrap64 (pos + read_position s)
      in if i < length (buffer s) then Ret (buffer s ! i)
         else if i = length (buffer s) then Ret 0
         else Undef)"

definition tellp :: "DataStream \<Rightarrow> nat" where
  "tellp s = read_position s"

definition seekp :: "nat \<Rightarrow> DataStream \<Rightarrow> DataStream" where
  "seekp p s = s\<lparr>read_position := min p (length (buffer s))\<rparr>"

definition stream_to_string :: "DataStream \<Rightarrow> string" where
  "stream_to_string s = encode (buffer s) False"

text \<open>\<^verbatim>\<open>buffer_.erase(0, read_position_)\<close> erases at most the whole buffer.\<close>

definition shrink :: "DataStream \<Rightarrow> DataStream" where
  "shrink s = s\<lparr>buffer := drop (read_position s) (buffer s), read_position := 0\<rparr>"

definition stream_size :: "DataStream \<Rightarrow> nat" where
  "stream_size s = length (buffer s)"

definition avail :: "DataStream \<Rightarrow> nat" where
  "avail s = sub64 (length (buffer s)) (read_position s)"

definition clear :: "DataStream \<Rightarrow> DataStream" where
  "clear s = s\<lparr>buffer := [], read_position := 0\<rparr>"

text \<open>
  \<^verbatim>\<open>get_clear\<close>: the view of \<^verbatim>\<open>avail()\<close> bytes that is copied to the destination has to lie in the buffer.
\<close>

definition get_clear :: "DataStream \<Rightarrow> DataStream \<Rightarrow> (DataStream \<times> DataStream) run" where
  "get_clear s dst =
     (if read_position s + avail s \<le> length (buffer s)
      then Ret (clear s, stream_write (take (avail s) (drop (read_position s) (buffer s))) dst)
      else Undef)"

subsection \<open>Well-formed streams and their unread data\<close>

definition stream_ok :: "DataStream \<Rightarrow> bool" where
  "stream_ok s \<longleftrightarrow> read_position s \<le> length (buffer s) \<and> length (buffer s) < 2 ^ 63"

definition unread :: "DataStream \<Rightarrow> Bytes" where
  "unread s = drop (read_position s) (buffer s)"

lemmas stream_defs =
  resize_def stream_write_def begin_pos_def end_pos_def insert_at_def erase_at_def push_back_def
  skip_def eof_def get_elem_def tellp_def seekp_def shrink_def stream_size_def avail_def clear_def

lemma stream_ok_pos: "stream_ok s \<Longrightarrow> read_position s \<le> length (buffer s)"
  by (simp add: stream_ok_def)

lemma stream_ok_bounds: "stream_ok s \<Longrightarrow> read_position s < 2 ^ 63 \<and> length (buffer s) < 2 ^ 63"
  by (auto simp: stream_ok_def)

lemma stream_ok_new [simp]: "stream_ok (new_DataStream sc v)"
  by (simp add: stream_ok_def new_DataStream_def)

lemma avail_unread [moria_simps]: "stream_ok s \<Longrightarrow> avail s = length (unread s)"
  using stream_ok_bounds [of s]
  by (simp add: avail_def unread_def sub64_le stream_ok_pos)

lemma eof_unread [moria_simps]: "eof s \<longleftrightarrow> unread s = []"
  by (simp add: eof_def unread_def)

lemma unread_write [moria_simps]: "stream_ok s \<Longrightarrow> unread (stream_write data s) = unread s @ data"
  by (simp add: unread_def stream_write_def stream_ok_pos)

lemma unread_push_back [moria_simps]: "stream_ok s \<Longrightarrow> unread (push_back b s) = unread s @ [b]"
  by (simp add: unread_def push_back_def stream_ok_pos)

lemma unread_shrink [moria_simps]: "unread (shrink s) = unread s"
  by (simp add: unread_def shrink_def)

lemma unread_clear [moria_simps]: "unread (clear s) = []"
  by (simp add: unread_def clear_def)

lemma stream_ok_shrink [moria_simps]: "stream_ok s \<Longrightarrow> stream_ok (shrink s)"
  by (auto simp: stream_ok_def shrink_def)

lemma stream_ok_write:
  "stream_ok s \<Longrightarrow> length (buffer s) + length data < 2 ^ 63 \<Longrightarrow> stream_ok (stream_write data s)"
  by (simp add: stream_ok_def stream_write_def)

lemma stream_ok_push_back:
  "stream_ok s \<Longrightarrow> length (buffer s) + 1 < 2 ^ 63 \<Longrightarrow> stream_ok (push_back b s)"
  by (simp add: stream_ok_def push_back_def)

lemma stream_ok_skip: "stream_ok s \<Longrightarrow> stream_ok (skip count s)"
  by (simp add: stream_ok_def skip_def)

lemma stream_ok_seekp: "stream_ok s \<Longrightarrow> stream_ok (seekp p s)"
  by (simp add: stream_ok_def seekp_def)

lemma stream_ok_clear: "stream_ok (clear s)"
  by (simp add: stream_ok_def clear_def)

lemma unread_skip [moria_simps]:
  assumes "stream_ok s" and "read_position s + count < 2 ^ 64"
  shows "unread (skip count s) = drop count (unread s)"
  using assms by (simp add: unread_def skip_def min_def add.commute)

lemma read_eq:
  assumes "stream_ok s" and "count < 2 ^ 63"
  shows "stream_read count s =
    Ret (if count \<le> length (unread s)
         then (Inr (take count (unread s)), s\<lparr>read_position := read_position s + count\<rparr>)
         else (Inl kReadBeyondData, s))"
proof -
  have "read_position s + count < 2 ^ 64"
    using stream_ok_bounds [OF assms(1)] assms(2) by simp
  then show ?thesis
    using stream_ok_pos [OF assms(1)] by (auto simp: stream_read_def unread_def Let_def)
qed

lemma read_shrink:
  assumes "stream_ok s" and "count < 2 ^ 63" and "count \<le> length (unread s)"
  shows "unread (s\<lparr>read_position := read_position s + count\<rparr>) = drop count (unread s)"
    and "stream_ok (s\<lparr>read_position := read_position s + count\<rparr>)"
  using assms by (auto simp: unread_def stream_ok_def add.commute)

subsection \<open>Properties\<close>

text \<open>
  on a well-formed stream, reading \<open>count\<close> bytes returns exactly the first \<open>count\<close> unread
  bytes and consumes them, or, when fewer are left, reports \<open>kReadBeyondData\<close> and leaves the stream
  unchanged; the result is well-formed again.
\<close>

theorem read_correct:
  assumes "stream_ok s" and "count < 2 ^ 63"
  shows "\<exists>s'. stream_read count s =
      Ret (if count \<le> length (unread s) then Inr (take count (unread s)) else Inl kReadBeyondData, s')
    \<and> stream_ok s' \<and> buffer s' = buffer s
    \<and> unread s' = (if count \<le> length (unread s) then drop count (unread s) else unread s)
    \<and> avail s' = (if count \<le> length (unread s) then avail s - count else avail s)"
  using read_eq [OF assms] read_shrink [OF assms] assms(1)
  by (auto simp: avail_unread)

theorem read_correct_witness:
  "stream_ok (stream_write [1, 2, 3] (new_DataStream kNetwork 0)) \<and> (2::nat) < 2 ^ 63 \<and>
   (\<exists>s'. stream_read 2 (stream_write [1, 2, 3] (new_DataStream kNetwork 0)) = Ret (Inr [1, 2], s'))"
proof -
  let ?s = "stream_write [1, 2, 3] (new_DataStream kNetwork 0)"
  have ok: "stream_ok ?s" and u: "unread ?s = [1, 2, 3]"
    by (simp_all add: stream_ok_def stream_write_def new_DataStream_def unread_def)
  have two: "(2::nat) < 2 ^ 63" by simp
  from read_correct [OF ok two] u show ?thesis using ok two by auto
qed

text \<open>
  the stream is a first-in first-out queue of bytes: whatever is written in pieces to a
  well-formed stream comes out of one \<open>get_clear\<close> after the data that was already unread, in order,
  appended to the destination, and the source is left empty.
\<close>

theorem get_clear_fifo:
  assumes "stream_ok s" and "length (buffer s) + length (concat pieces) < 2 ^ 63"
    and "stream_ok dst"
  shows "\<exists>s' dst'. get_clear (fold stream_write pieces s) dst = Ret (s', dst')
    \<and> unread dst' = unread dst @ unread s @ concat pieces
    \<and> eof s' \<and> avail s' = 0 \<and> stream_ok s'"
proof -
  have fold_write: "fold stream_write pieces s = stream_write (concat pieces) s" for s
    by (induction pieces arbitrary: s) (simp_all add: stream_write_def)
  let ?t = "stream_write (concat pieces) s"
  have ok: "stream_ok ?t"
    using assms by (auto intro: stream_ok_write)
  have "read_position ?t + avail ?t \<le> length (buffer ?t)"
    using ok by (simp add: avail_unread unread_def stream_ok_pos)
  moreover have "take (avail ?t) (drop (read_position ?t) (buffer ?t)) = unread ?t"
    using ok by (simp add: avail_unread unread_def [symmetric])
  ultimately show ?thesis
    using assms ok unfolding fold_write
    by (simp add: get_clear_def moria_simps stream_ok_clear)
qed

theorem get_clear_fifo_witness:
  "\<exists>s' dst'. get_clear (fold stream_write [[1, 2], [3]] (new_DataStream kStorage 0)) (new_DataStream kHash 1)
      = Ret (s', dst')
    \<and> unread dst' = unread (new_DataStream kHash 1) @ unread (new_DataStream kStorage 0) @ concat [[1, 2], [3]]
    \<and> eof s' \<and> avail s' = 0 \<and> stream_ok s'"
  by (rule get_clear_fifo) (simp_all add: new_DataStream_def stream_ok_def)

text \<open>
  \<open>skip\<close> with a count that makes the 64-bit sum of position and count wrap does not move to the
  end of the data, as its contract says, but backwards: the bytes already consumed become unread
  again.
\<close>

theorem skip_wraps_backwards:
  assumes "stream_ok s" and "0 < read_position s" and "count < 2 ^ 64"
    and "2 ^ 64 - read_position s \<le> count"
  shows "read_position (skip count s) < read_position s \<and> \<not> eof (skip count s)"
proof -
  have "read_position s < 2 ^ 63"
    using stream_ok_bounds [OF assms(1)] by simp
  then have "wrap64 (read_position s + count) = read_position s + count - 2 ^ 64"
    using assms unfolding wrap64_def by (simp add: le_mod_geq)
  then have "wrap64 (read_position s + count) < read_position s"
    using assms by simp
  with stream_ok_pos [OF assms(1)] show ?thesis
    by (simp add: eof_def skip_def)
qed

theorem skip_wraps_backwards_witness:
  "read_position (skip (2 ^ 64 - 1) (seekp 2 (stream_write [7, 8] (new_DataStream kStorage 0)))) <
     read_position (seekp 2 (stream_write [7, 8] (new_DataStream kStorage 0))) \<and>
   \<not> eof (skip (2 ^ 64 - 1) (seekp 2 (stream_write [7, 8] (new_DataStream kStorage 0))))"
  by (rule skip_wraps_backwards)
    (simp_all add: new_DataStream_def stream_write_def seekp_def stream_ok_def)

end
