(* ===== verification/Serialize.thy ===== *)
theory Serialize
  imports Data_Stream
begin

section \<open>Serialization of arithmetic types\<close>

text \<open>
  \<^verbatim>\<open>zen/core/serialization/serialize.hpp\<close>. The functions there are templates over the stream class; the
  record \<open>Stream\<close> holds the four operations they call, and \<open>DataStream_ops\<close> is the instance for
  \<^verbatim>\<open>DataStream\<close>. What the functions rely on is the locale \<open>byte_stream\<close>, a queue of unread bytes; the
  lemmas are proved once inside it and it is interpreted on \<open>DataStream_ops\<close>.

  An integer is its object representation on a little-endian host. A \<^verbatim>\<open>float\<close> or \<^verbatim>\<open>double\<close> is its bit
  pattern, since \<^verbatim>\<open>std::bit_cast\<close> is all the code does with it.

  \<open>compact_bytes\<close> is the wire format of compact integers and \<open>parse_compact\<close> the parser of that format
  as a function of the bytes; \<open>write_compact\<close> and \<open>read_compact\<close> are shown to implement them.
\<close>

subsection \<open>The stream operations the templates use\<close>

record 's Stream =
  s_write :: "Bytes \<Rightarrow> 's \<Rightarrow> 's"
  s_push_back :: "byte \<Rightarrow> 's \<Rightarrow> 's"
  s_read :: "nat \<Rightarrow> 's \<Rightarrow> ((DeserializationError + Bytes) \<times> 's) run"
  s_shrink :: "'s \<Rightarrow> 's"

definition DataStream_ops :: "DataStream Stream" where
  "DataStream_ops =
     \<lparr>s_write = stream_write, s_push_back = push_back, s_read = stream_read, s_shrink = shrink\<rparr>"

subsection \<open>Model\<close>

definition ser_sizeof :: "'a::len word \<Rightarrow> nat" where
  "ser_sizeof x = sizeof_word x"

definition ser_sizeof_bool :: "bool \<Rightarrow> nat" where
  "ser_sizeof_bool b = 1"

definition ser_compact_sizeof :: "u64 \<Rightarrow> u32" where
  "ser_compact_sizeof value =
     (if value < 253 then 1
      else if value \<le> 0xffff then 3
      else if value \<le> 0xffffffff then 5
      else 9)"

definition write_data :: "'s Stream \<Rightarrow> 'a::len word \<Rightarrow> 's \<Rightarrow> 's" where
  "write_data S obj s =
     (let bytes = memcpy_at (replicate (sizeof_word obj) 0) 0 (to_le obj)
      in s_write S bytes s)"

definition write_data_bool :: "'s Stream \<Rightarrow> bool \<Rightarrow> 's \<Rightarrow> 's" where
  "write_data_bool S obj s = (let out = (if obj then 0x0 else 0x1) in s_push_back S out s)"

definition write_data_float :: "'s Stream \<Rightarrow> u32 \<Rightarrow> 's \<Rightarrow> 's" where
  "write_data_float S obj s = (let casted = obj in write_data S casted s)"

definition write_data_double :: "'s Stream \<Rightarrow> u64 \<Rightarrow> 's \<Rightarrow> 's" where
  "write_data_double S obj s = (let casted = obj in write_data S casted s)"

definition write_compact :: "'s Stream \<Rightarrow> u64 \<Rightarrow> 's \<Rightarrow> 's run" where
  "write_compact S obj s =
     (let casted = to_le obj;
          num_bytes = ser_compact_sizeof obj;
          tail = (\<lambda>prefix. Ret (s_write S (take (unat (num_bytes - 1)) casted) (s_push_back S prefix s)))
      in if num_bytes = 1 then Ret (s_push_back S (casted ! 0) s)
         else if num_bytes = 3 then tail 253
         else if num_bytes = 5 then tail 254
         else if num_bytes = 9 then tail 255
         else Abort)"

definition read_data :: "'s Stream \<Rightarrow> 's \<Rightarrow> ((DeserializationError + 'a::len word) \<times> 's) run" where
  "read_data S s =
     (let ret = (0 :: 'a word); count = ser_sizeof ret
      in run_bind (s_read S count s)
           (\<lambda>(read_result, s1).
              case read_result of
                Inl e \<Rightarrow> Ret (Inl e, s1)
              | Inr bytes \<Rightarrow> Ret (Inr (of_le (take count bytes)), s_shrink S s1)))"

text \<open>
  The \<^verbatim>\<open>bool\<close> instance of the template copies one byte into a \<^verbatim>\<open>bool\<close>; a byte other than 0 and 1 is not
  a value of that type, so that using the result is undefined.
\<close>

definition read_data_bool :: "'s Stream \<Rightarrow> 's \<Rightarrow> ((DeserializationError + bool) \<times> 's) run" where
  "read_data_bool S s =
     (let count = ser_sizeof_bool False
      in run_bind (s_read S count s)
           (\<lambda>(read_result, s1).
              case read_result of
                Inl e \<Rightarrow> Ret (Inl e, s1)
              | Inr bytes \<Rightarrow>
                  (if take count bytes = [0] then Ret (Inr False, s_shrink S s1)
                   else if take count bytes = [1] then Ret (Inr True, s_shrink S s1)
                   else Undef)))"

definition read_compact :: "'s Stream \<Rightarrow> 's \<Rightarrow> ((DeserializationError + u64) \<times> 's) run" where
  "read_compact S s =
     (let finish = (\<lambda>(ret::u64) s'.
            if ret > ucast kMaxSerializedCompactSize then Ret (Inl kCompactSizeTooBig, s')
            else Ret (Inr ret, s'))
      in run_bind (read_data S s)
           (\<lambda>(size :: DeserializationError + byte, s1).
              case size of
                Inl e \<Rightarrow> Ret (Inl e, s1)
              | Inr size' \<Rightarrow>
                  (if size' < 253 then finish (ucast size') s1
                   else if size' = 253 then
                     run_bind (read_data S s1)
                       (\<lambda>(value :: DeserializationError + u16, s2).
                          case value of
                            Inl e \<Rightarrow> Ret (Inl e, s2)
                          | Inr v \<Rightarrow> (if v < 253 then Ret (Inl kNonCanonicalCompactSize, s2)
                                      else finish (ucast v) s2))
                   else if size' = 254 then
                     run_bind (read_data S s1)
                       (\<lambda>(value :: DeserializationError + u32, s2).
                          case value of
                            Inl e \<Rightarrow> Ret (Inl e, s2)
                          | Inr v \<Rightarrow> (if v < 0x10000 then Ret (Inl kNonCanonicalCompactSize, s2)
                                      else finish (ucast v) s2))
                   else
                     run_bind (read_data S s1)
                       (\<lambda>(value :: DeserializationError + u64, s2).
                          case value of
                            Inl e \<Rightarrow> Ret (Inl e, s2)
                          | Inr v \<Rightarrow> (if v < 0x100000000 then Ret (Inl kNonCanonicalCompactSize, s2)
                                      else finish v s2)))))"

subsection \<open>The contract of a stream\<close>

locale byte_stream =
  fixes S :: "'s Stream" and data :: "'s \<Rightarrow> Bytes" and ok :: "'s \<Rightarrow> bool" and room :: "'s \<Rightarrow> nat \<Rightarrow> bool"
  assumes write_law: "ok s \<Longrightarrow> room s (length bs) \<Longrightarrow>
      ok (s_write S bs s) \<and> data (s_write S bs s) = data s @ bs"
    and push_back_law: "ok s \<Longrightarrow> room s 1 \<Longrightarrow>
      ok (s_push_back S b s) \<and> data (s_push_back S b s) = data s @ [b]"
    and push_back_room: "ok s \<Longrightarrow> room s (Suc n) \<Longrightarrow> room s 1 \<and> room (s_push_back S b s) n"
    and read_law: "ok s \<Longrightarrow> n < 2 ^ 63 \<Longrightarrow> n \<le> length (data s) \<Longrightarrow>
      \<exists>s'. s_read S n s = Ret (Inr (take n (data s)), s') \<and> ok s' \<and> data s' = drop n (data s)"
    and read_short_law: "ok s \<Longrightarrow> n < 2 ^ 63 \<Longrightarrow> length (data s) < n \<Longrightarrow>
      s_read S n s = Ret (Inl kReadBeyondData, s)"
    and shrink_law: "ok s \<Longrightarrow> ok (s_shrink S s) \<and> data (s_shrink S s) = data s"

interpretation ds: byte_stream DataStream_ops unread stream_ok "\<lambda>s n. length (buffer s) + n < 2 ^ 63"
proof unfold_locales
  fix s n assume "stream_ok s" "(n::nat) < 2 ^ 63" "n \<le> length (unread s)"
  then show "\<exists>s'. s_read DataStream_ops n s = Ret (Inr (take n (unread s)), s') \<and>
      stream_ok s' \<and> unread s' = drop n (unread s)"
    by (simp add: DataStream_ops_def read_eq read_shrink)
qed (simp_all add: DataStream_ops_def read_eq moria_simps stream_ok_write stream_ok_push_back,
  simp add: push_back_def)

subsection \<open>The wire formats as functions of the bytes\<close>

definition parse_word :: "Bytes \<Rightarrow> (DeserializationError + 'a::len word) \<times> Bytes" where
  "parse_word bs =
     (let n = LENGTH('a) div 8
      in if n \<le> length bs then (Inr (of_le (take n bs)), drop n bs) else (Inl kReadBeyondData, bs))"

text \<open>
  A compact integer is one byte below 253, or one of the markers 253, 254, 255 followed by 2, 4 or 8
  bytes whose value is too large for the shorter forms.
\<close>

definition compact_width :: "byte \<Rightarrow> nat" where
  "compact_width b = (if b = 253 then 2 else if b = 254 then 4 else 8)"

definition compact_least :: "byte \<Rightarrow> nat" where
  "compact_least b = (if b = 253 then 253 else if b = 254 then 2 ^ 16 else 2 ^ 32)"

definition max_compact :: nat where
  "max_compact = 0x02000000"

definition compact_bytes :: "u64 \<Rightarrow> Bytes" where
  "compact_bytes v =
     (let n = unat v
      in if n < 253 then [word_of_nat n]
         else if n < 2 ^ 16 then 253 # le_nat 2 n
         else if n < 2 ^ 32 then 254 # le_nat 4 n
         else 255 # le_nat 8 n)"

definition parse_tail :: "nat \<Rightarrow> nat \<Rightarrow> Bytes \<Rightarrow> (DeserializationError + u64) \<times> Bytes" where
  "parse_tail n least r =
     (if length r < n then (Inl kReadBeyondData, r)
      else let v = nat_le (take n r); rest = drop n r
           in if v < least then (Inl kNonCanonicalCompactSize, rest)
              else if v > max_compact then (Inl kCompactSizeTooBig, rest)
              else (Inr (word_of_nat v), rest))"

definition parse_compact :: "Bytes \<Rightarrow> (DeserializationError + u64) \<times> Bytes" where
  "parse_compact bs =
     (case bs of
        [] \<Rightarrow> (Inl kReadBeyondData, [])
      | b # r \<Rightarrow>
          (if b < 253 then (Inr (word_of_nat (unat b)), r)
           else parse_tail (compact_width b) (compact_least b) r))"

lemma take_le_nat: "m \<le> n \<Longrightarrow> take m (le_nat n v) = le_nat m v"
proof (induction m arbitrary: n v)
  case (Suc m)
  then show ?case by (cases n) auto
qed simp

lemma byte_less_253: "(b::byte) < 253 \<longleftrightarrow> unat b < 253"
  by (simp add: word_less_nat_alt)

lemma byte_cases: "\<not> (b::byte) < 253 \<Longrightarrow> b = 253 \<or> b = 254 \<or> b = 255"
proof -
  assume "\<not> b < 253"
  then have "unat b = 253 \<or> unat b = 254 \<or> unat b = 255"
    using unsigned_less [where w = b and 'a = nat] by (auto simp: word_less_nat_alt)
  then show ?thesis by (auto simp: word_unat_eq_iff)
qed

lemma nat_le_take_le_nat:
  "v < 256 ^ n \<Longrightarrow> nat_le (take n (le_nat n v @ rest)) = v"
  by (simp add: nat_le_le_nat)

lemma parse_compact_bytes:
  "parse_compact (compact_bytes v @ rest) =
     (if unat v \<le> max_compact then (Inr v, rest) else (Inl kCompactSizeTooBig, rest))"
proof -
  have v: "unat v < 2 ^ 64"
    using unsigned_less [where w = v and 'a = nat] by simp
  have w: "(word_of_nat (unat v) :: u64) = v" by simp
  consider "unat v < 253" | "253 \<le> unat v" "unat v < 2 ^ 16"
    | "2 ^ 16 \<le> unat v" "unat v < 2 ^ 32" | "2 ^ 32 \<le> unat v"
    by linarith
  then show ?thesis
  proof cases
    case 1
    then have "unat (word_of_nat (unat v) :: byte) = unat v"
      by (simp only: unat_of_nat) simp
    with 1 show ?thesis
      by (simp add: parse_compact_def compact_bytes_def byte_less_253 max_compact_def
          del: unsigned_of_nat)
  next
    case 2
    then show ?thesis
      using nat_le_take_le_nat [of "unat v" 2 rest]
      by (simp add: parse_compact_def parse_tail_def compact_bytes_def compact_width_def compact_least_def
        max_compact_def Let_def)
  next
    case 3
    then show ?thesis
      using nat_le_take_le_nat [of "unat v" 4 rest]
      by (simp add: parse_compact_def parse_tail_def compact_bytes_def compact_width_def compact_least_def Let_def)
  next
    case 4
    then show ?thesis
      using nat_le_take_le_nat [of "unat v" 8 rest] v
      by (simp add: parse_compact_def parse_tail_def compact_bytes_def compact_width_def compact_least_def
        max_compact_def Let_def)
  qed
qed

lemma parse_compact_canonical:
  assumes "parse_compact bs = (Inr v, rest)"
  shows "bs = compact_bytes v @ rest \<and> unat v \<le> max_compact"
proof (cases bs)
  case Nil
  with assms show ?thesis by (simp add: parse_compact_def)
next
  case (Cons b r)
  show ?thesis
  proof (cases "b < 253")
    case True
    with assms Cons have "v = word_of_nat (unat b)" "rest = r"
      by (auto simp: parse_compact_def)
    moreover from this True have "unat v = unat b"
      using unsigned_less [where w = b and 'a = nat] by (simp only: unat_of_nat) simp
    ultimately show ?thesis
      using Cons True by (simp add: compact_bytes_def byte_less_253 max_compact_def)
  next
    case False
    define n where "n = compact_width b"
    define k where "k = nat_le (take n r)"
    from assms Cons False have ok: "n \<le> length r" "compact_least b \<le> k" "k \<le> max_compact"
      and v: "v = word_of_nat k" and rest: "rest = drop n r"
      by (auto simp: parse_compact_def parse_tail_def n_def k_def Let_def split: if_splits)
    have uv: "unat v = k"
      unfolding v using ok(3) by (simp only: unat_of_nat) (simp add: max_compact_def)
    have lk: "le_nat n k = take n r"
      unfolding k_def using le_nat_nat_le [of "take n r"] ok(1) by simp
    have kn: "k < 256 ^ n"
      unfolding k_def using nat_le_less [of "take n r"] ok(1) by simp
    show ?thesis
      using byte_cases [OF False] ok(2,3) uv lk kn Cons rest
      by (elim disjE)
        (simp_all add: compact_bytes_def compact_least_def n_def compact_width_def max_compact_def)
  qed
qed

subsection \<open>What the templates do on any stream that keeps the contract\<close>

lemma write_data_eq: "write_data S (w::'a::len word) s = s_write S (to_le w) s"
  by (simp add: write_data_def memcpy_at_0 sizeof_word_def)

text \<open>Comparisons of the decoded word, at its own width, are comparisons of the decoded number.\<close>

lemma widen:
  assumes "8 dvd LENGTH('a::len)" and "LENGTH('a) \<le> 64" and "length bs = LENGTH('a) div 8"
  shows "(of_le bs :: 'a word) < lw \<longleftrightarrow> nat_le bs < unat lw"
    and "(ucast (of_le bs :: 'a word) :: u64) = word_of_nat (nat_le bs)"
    and "(word_of_nat (nat_le bs) :: u64) > ucast kMaxSerializedCompactSize \<longleftrightarrow> nat_le bs > max_compact"
proof -
  note u = unat_of_le [OF assms(1,3)]
  show "(of_le bs :: 'a word) < lw \<longleftrightarrow> nat_le bs < unat lw"
    by (simp add: word_less_nat_alt u)
  show "(ucast (of_le bs :: 'a word) :: u64) = word_of_nat (nat_le bs)"
    by (simp flip: u)
  have "nat_le bs < 2 ^ LENGTH('a)"
    using unsigned_less [where w = "of_le bs :: 'a word" and 'a = nat] u by simp
  also have "\<dots> \<le> 2 ^ 64"
    using assms(2) by (rule power_increasing) simp
  finally have "unat (word_of_nat (nat_le bs) :: u64) = nat_le bs"
    by (simp only: unat_of_nat) simp
  then show "(word_of_nat (nat_le bs) :: u64) > ucast kMaxSerializedCompactSize \<longleftrightarrow> nat_le bs > max_compact"
    unfolding word_less_nat_alt by (simp add: kMaxSerializedCompactSize_def max_compact_def)
qed

lemma of_le_byte [simp]: "of_le [b] = (b :: byte)"
  by (simp add: of_le_def)

lemma byte_not_too_big:
  "(b::byte) < 253 \<Longrightarrow> \<not> (ucast b :: u64) > ucast kMaxSerializedCompactSize"
  by (simp add: word_less_nat_alt kMaxSerializedCompactSize_def unsigned_ucast_eq take_bit_eq_mod)

context byte_stream
begin

lemma read_data_parse:
  assumes "ok s" and "LENGTH('a::len) div 8 < 2 ^ 63"
  shows "\<exists>s'. read_data S s = Ret (fst (parse_word (data s)) :: DeserializationError + 'a word, s')
    \<and> ok s' \<and> data s' = snd (parse_word (data s) :: (DeserializationError + 'a word) \<times> Bytes)"
proof (cases "LENGTH('a) div 8 \<le> length (data s)")
  case True
  from read_law [OF assms True] obtain s1 where
    "s_read S (LENGTH('a) div 8) s = Ret (Inr (take (LENGTH('a) div 8) (data s)), s1)"
    "ok s1" "data s1 = drop (LENGTH('a) div 8) (data s)"
    by blast
  with True shrink_law [of s1] show ?thesis
    by (simp add: read_data_def parse_word_def ser_sizeof_def sizeof_word_def Let_def)
next
  case False
  with read_short_law [OF assms] assms(1) show ?thesis
    by (simp add: read_data_def parse_word_def ser_sizeof_def sizeof_word_def)
qed

lemma read_tail_parse:
  assumes "ok s" and "8 dvd LENGTH('a::len)" and "LENGTH('a) \<le> 64"
  shows "\<exists>s'. run_bind (read_data S s)
      (\<lambda>(value :: DeserializationError + 'a word, s2).
         case value of
           Inl e \<Rightarrow> Ret (Inl e, s2)
         | Inr v \<Rightarrow> (if v < lw then Ret (Inl kNonCanonicalCompactSize, s2)
                     else if ucast v > (ucast kMaxSerializedCompactSize :: u64)
                       then Ret (Inl kCompactSizeTooBig, s2)
                     else Ret (Inr (ucast v), s2)))
    = Ret (fst (parse_tail (LENGTH('a) div 8) (unat lw) (data s)), s') \<and> ok s'
    \<and> data s' = snd (parse_tail (LENGTH('a) div 8) (unat lw) (data s))"
proof -
  have "LENGTH('a) div 8 < 2 ^ 63" using assms(3) by (simp add: less_mult_imp_div_less)
  from read_data_parse [OF assms(1) this] obtain s2 where
    "read_data S s = Ret (fst (parse_word (data s)) :: DeserializationError + 'a word, s2)"
    "ok s2" "data s2 = snd (parse_word (data s) :: (DeserializationError + 'a word) \<times> Bytes)"
    by blast
  then show ?thesis
    using assms
    by (cases "length (data s) < LENGTH('a) div 8")
      (simp_all add: parse_word_def parse_tail_def Let_def widen)
qed

lemma read_compact_parse:
  assumes "ok s"
  shows "\<exists>s'. read_compact S s = Ret (fst (parse_compact (data s)), s') \<and> ok s'
    \<and> data s' = snd (parse_compact (data s))"
proof -
  obtain s1 where s1: "read_data S s = Ret (fst (parse_word (data s)) :: DeserializationError + byte, s1)"
    "ok s1" "data s1 = snd (parse_word (data s) :: (DeserializationError + byte) \<times> Bytes)"
    using read_data_parse [OF assms, where 'a = 8] by auto
  show ?thesis
  proof (cases "data s")
    case Nil
    with s1 show ?thesis
      by (simp add: read_compact_def parse_compact_def parse_word_def)
  next
    case (Cons b r)
    then have b: "read_data S s = Ret (Inr b, s1)" and r: "data s1 = r"
      using s1 by (simp_all add: parse_word_def)
    show ?thesis
    proof (cases "b < 253")
      case True
      with Cons b r s1(2) byte_not_too_big [OF True] show ?thesis
        by (simp add: read_compact_def parse_compact_def)
    next
      case False
      from byte_cases [OF False] Cons b r False show ?thesis
        using read_tail_parse [OF s1(2), where lw = "253 :: u16"]
          read_tail_parse [OF s1(2), where lw = "0x10000 :: u32"]
          read_tail_parse [OF s1(2), where lw = "0x100000000 :: u64", unfolded ucast_id]
        by (elim disjE)
          (simp_all add: read_compact_def parse_compact_def compact_width_def compact_least_def)
    qed
  qed
qed

lemma write_data_appends:
  assumes "ok s" and "room s (LENGTH('a::len) div 8)"
  shows "ok (write_data S (w::'a word) s) \<and> data (write_data S w s) = data s @ to_le w"
  using write_law [of s "to_le w"] assms by (simp add: write_data_eq)

lemma write_compact_appends:
  assumes "ok s" and "room s (length (compact_bytes v))"
  shows "\<exists>s'. write_compact S v s = Ret s' \<and> ok s' \<and> data s' = data s @ compact_bytes v"
proof -
  have tl: "take n (to_le v) = le_nat n (unat v)" if "n \<le> 8" for n
    using that by (simp add: to_le_def sizeof_word_def take_le_nat)
  have hd: "to_le v ! 0 = word_of_nat (unat v)"
  proof -
    have "to_le v ! 0 = le_nat (Suc 7) (unat v) ! 0" by (simp add: to_le_def sizeof_word_def)
    then show ?thesis by (simp only: le_nat.simps nth_Cons_0)
  qed
  have prefixed: "\<exists>s'. Ret (s_write S (le_nat n (unat v)) (s_push_back S p s)) = Ret s' \<and> ok s'
      \<and> data s' = data s @ p # le_nat n (unat v)"
    if "compact_bytes v = p # le_nat n (unat v)" for p n
  proof -
    from assms(2) that have "room s (Suc n)" by simp
    with push_back_room [OF assms(1)] have r: "room s 1" "room (s_push_back S p s) n"
      by blast+
    from push_back_law [OF assms(1) r(1), of p] r(2) show ?thesis
      using write_law [of "s_push_back S p s" "le_nat n (unat v)"] by simp
  qed
  consider "unat v < 253" | "253 \<le> unat v" "unat v < 2 ^ 16"
    | "2 ^ 16 \<le> unat v" "unat v < 2 ^ 32" | "2 ^ 32 \<le> unat v"
    by linarith
  then show ?thesis
  proof cases
    case 1
    then have "compact_bytes v = [word_of_nat (unat v)]"
      by (simp add: compact_bytes_def)
    with 1 assms push_back_law [OF assms(1)] show ?thesis
      by (simp add: write_compact_def ser_compact_sizeof_def word_less_nat_alt hd)
  next
    case 2
    then show ?thesis
      using prefixed [of 253 2] tl [of 2]
      by (simp add: write_compact_def ser_compact_sizeof_def compact_bytes_def
        word_less_nat_alt word_le_nat_alt)
  next
    case 3
    then show ?thesis
      using prefixed [of 254 4] tl [of 4]
      by (simp add: write_compact_def ser_compact_sizeof_def compact_bytes_def
        word_less_nat_alt word_le_nat_alt)
  next
    case 4
    then show ?thesis
      using prefixed [of 255 8] tl [of 8]
      by (simp add: write_compact_def ser_compact_sizeof_def compact_bytes_def
        word_less_nat_alt word_le_nat_alt)
  qed
qed

end


subsection \<open>Properties\<close>

text \<open>
  an integer written to an empty well-formed stream is what a read of the same type returns,
  for every integer type of a whole number of bytes, and the stream is empty again; the number of
  bytes in between is \<open>ser_sizeof\<close>.
\<close>

theorem read_write_data:
  assumes "stream_ok s" and "unread s = []"
    and "8 dvd LENGTH('a::len)" and "length (buffer s) + LENGTH('a) div 8 < 2 ^ 63"
  shows "length (unread (write_data DataStream_ops (w::'a word) s)) = ser_sizeof w \<and>
    (\<exists>s'. read_data DataStream_ops (write_data DataStream_ops w s) = Ret (Inr w, s')
       \<and> stream_ok s' \<and> unread s' = [])"
proof -
  let ?t = "write_data DataStream_ops w s"
  have t: "stream_ok ?t" "unread ?t = to_le w"
    using ds.write_data_appends [OF assms(1), where w = w] assms(2,4) by simp_all
  have "LENGTH('a) div 8 < 2 ^ 63" using assms(4) by simp
  from ds.read_data_parse [OF t(1) this] t(2) assms(3) show ?thesis
    by (auto simp: parse_word_def of_le_to_le ser_sizeof_def sizeof_word_def)
qed

theorem read_write_data_witness:
  "length (unread (write_data DataStream_ops (0xcafe :: u16) (new_DataStream kNetwork 0)))
      = ser_sizeof (0xcafe :: u16) \<and>
    (\<exists>s'. read_data DataStream_ops (write_data DataStream_ops (0xcafe :: u16) (new_DataStream kNetwork 0))
        = Ret (Inr (0xcafe :: u16), s') \<and> stream_ok s' \<and> unread s' = [])"
  by (rule read_write_data) (simp_all add: new_DataStream_def stream_ok_def unread_def)

text \<open>
  C5: \<open>write_compact\<close> never hits its assertion and appends the wire format \<open>compact_bytes\<close>, whose
  length is \<open>ser_compact_sizeof\<close>; reading it back from the front of a stream returns the value and
  leaves exactly the data behind it, except that values above \<open>kMaxSerializedCompactSize\<close> are refused
  with \<open>kCompactSizeTooBig\<close>.
\<close>

theorem compact_round_trip:
  assumes "stream_ok s" and "length (buffer s) + 9 < 2 ^ 63"
    and "stream_ok t" and "unread t = compact_bytes v @ rest"
  shows "(\<exists>s'. write_compact DataStream_ops v s = Ret s' \<and> stream_ok s'
        \<and> unread s' = unread s @ compact_bytes v) \<and>
    length (compact_bytes v) = unat (ser_compact_sizeof v) \<and>
    (\<exists>t'. read_compact DataStream_ops t =
        Ret (if v \<le> ucast kMaxSerializedCompactSize then Inr v else Inl kCompactSizeTooBig, t')
      \<and> stream_ok t' \<and> unread t' = rest)"
proof -
  have len: "length (compact_bytes v) = unat (ser_compact_sizeof v)"
    by (auto simp: compact_bytes_def ser_compact_sizeof_def word_less_nat_alt word_le_nat_alt)
  then have "length (compact_bytes v) \<le> 9"
    by (simp add: ser_compact_sizeof_def)
  with assms(2) have "length (buffer s) + length (compact_bytes v) < 2 ^ 63"
    by simp
  from ds.write_compact_appends [OF assms(1) this]
  have 1: "\<exists>s'. write_compact DataStream_ops v s = Ret s' \<and> stream_ok s'
      \<and> unread s' = unread s @ compact_bytes v" .
  have "unat v \<le> max_compact \<longleftrightarrow> v \<le> ucast kMaxSerializedCompactSize"
    by (simp add: word_le_nat_alt kMaxSerializedCompactSize_def max_compact_def)
  with ds.read_compact_parse [OF assms(3)] assms(4)
  have "\<exists>t'. read_compact DataStream_ops t =
        Ret (if v \<le> ucast kMaxSerializedCompactSize then Inr v else Inl kCompactSizeTooBig, t')
      \<and> stream_ok t' \<and> unread t' = rest"
    by (auto simp: parse_compact_bytes)
  with 1 len show ?thesis by blast
qed

theorem compact_round_trip_witness:
  "(\<exists>s'. write_compact DataStream_ops 0x1234 (new_DataStream kStorage 0) = Ret s' \<and> stream_ok s'
        \<and> unread s' = unread (new_DataStream kStorage 0) @ compact_bytes 0x1234) \<and>
    length (compact_bytes 0x1234) = unat (ser_compact_sizeof 0x1234) \<and>
    (\<exists>t'. read_compact DataStream_ops
          (stream_write (compact_bytes 0x1234 @ [7]) (new_DataStream kStorage 0)) =
        Ret (if (0x1234 :: u64) \<le> ucast kMaxSerializedCompactSize then Inr 0x1234
             else Inl kCompactSizeTooBig, t')
      \<and> stream_ok t' \<and> unread t' = [7])"
  by (rule compact_round_trip)
    (simp_all add: new_DataStream_def stream_ok_def unread_def stream_write_def compact_bytes_def)

text \<open>
  C18: compact integers have one encoding only: whenever \<open>read_compact\<close> succeeds, the bytes it
  consumed are exactly what \<open>write_compact\<close> emits for the value it returned, and the value is at most
  \<open>kMaxSerializedCompactSize\<close>. So no two byte strings decode to the same integer.
\<close>

theorem read_compact_canonical:
  assumes "stream_ok s" and "read_compact DataStream_ops s = Ret (Inr v, s')"
  shows "unread s = compact_bytes v @ unread s' \<and> v \<le> ucast kMaxSerializedCompactSize \<and> stream_ok s'"
proof -
  from ds.read_compact_parse [OF assms(1)] assms(2)
  have p: "parse_compact (unread s) = (Inr v, unread s')" and ok: "stream_ok s'"
    by (auto simp: prod_eq_iff)
  from parse_compact_canonical [OF p] ok show ?thesis
    by (simp add: word_le_nat_alt kMaxSerializedCompactSize_def max_compact_def)
qed

theorem read_compact_canonical_witness:
  "unread (stream_write [253, 0x00, 0x01, 9] (new_DataStream kHash 0)) = compact_bytes 256 @ [9] \<and>
   (256 :: u64) \<le> ucast kMaxSerializedCompactSize"
proof -
  let ?s = "stream_write [253, 0x00, 0x01, 9] (new_DataStream kHash 0)"
  have ok: "stream_ok ?s" and u: "unread ?s = [253, 0x00, 0x01, 9]"
    by (simp_all add: new_DataStream_def stream_ok_def unread_def stream_write_def)
  have "parse_compact [253, 0x00, 0x01, 9] = (Inr 256, [9])"
    by (simp add: parse_compact_def parse_tail_def compact_width_def compact_least_def
      max_compact_def numeral_eq_Suc [of "num.Bit0 num.One"])
  with ds.read_compact_parse [OF ok] u obtain s' where
    s': "read_compact DataStream_ops ?s = Ret (Inr 256, s')" "unread s' = [9]"
    by auto
  from read_compact_canonical [OF ok s'(1)] s'(2) show ?thesis by simp
qed

text \<open>
  a \<^verbatim>\<open>bool\<close> does not survive serialization: \<open>write_data_bool\<close> stores \<^verbatim>\<open>0\<close> for true and \<^verbatim>\<open>1\<close> for false,
  while \<open>read_data_bool\<close> copies the byte into a \<^verbatim>\<open>bool\<close>, so that every value is read back negated.
\<close>

theorem bool_read_back_negated:
  assumes "stream_ok s" and "unread s = []" and "length (buffer s) + 1 < 2 ^ 63"
  shows "\<exists>s'. read_data_bool DataStream_ops (write_data_bool DataStream_ops b s) = Ret (Inr (\<not> b), s')
    \<and> unread s' = []"
proof -
  let ?t = "write_data_bool DataStream_ops b s"
  have t: "stream_ok ?t" "unread ?t = [if b then 0 else 1]"
    using ds.push_back_law [OF assms(1)] assms(2,3)
    by (simp_all add: write_data_bool_def)
  from ds.read_law [OF t(1), of 1] t(2) obtain s1 where
    "s_read DataStream_ops 1 ?t = Ret (Inr [if b then 0 else 1], s1)" "stream_ok s1" "unread s1 = []"
    by auto
  with ds.shrink_law [of s1] show ?thesis
    by (simp add: read_data_bool_def ser_sizeof_bool_def)
qed

theorem bool_read_back_negated_witness:
  "\<exists>s'. read_data_bool DataStream_ops (write_data_bool DataStream_ops True (new_DataStream kNetwork 0))
      = Ret (Inr (\<not> True), s') \<and> unread s' = []"
  by (rule bool_read_back_negated) (simp_all add: new_DataStream_def stream_ok_def unread_def)

end
