(* ===== verification/Capped_Set.thy ===== *)
theory Capped_Set
  imports Moria_Prelude
begin

section \<open>Capped set\<close>

text \<open>
  \<^verbatim>\<open>zen/core/common/capped_set.hpp\<close>: a set of bounded size that forgets its oldest element. The members
  (\<^verbatim>\<open>items_\<close>) are a HOL set. The queue (\<^verbatim>\<open>items_queue_\<close>) holds iterators of an \<^verbatim>\<open>std::unordered_set\<close>, oldest first. Such an iterator points to its element until
  the element is erased or the set is rehashed, which happens when an insertion makes more elements than buckets (the maximal
  load factor is 1). An iterator is therefore the element together with the number of rehashes before it was made; using it after another rehash is
  undefined. How many buckets a new set has and how many it gets when it grows is up to the library: the record \<open>Buckets\<close>.

  The invariant \<open>capped_ok\<close> ties the two containers together. As long as no rehash happens the set refines \<open>spec_insert\<close>, which
  keeps the last \<open>capacity\<close> elements of the list of first insertions.
\<close>

record Buckets =
  bucket_start :: nat
  bucket_growth :: "nat \<Rightarrow> nat"

record 'a CappedSet =
  capacity :: nat
  items :: "'a set"
  buckets :: nat
  rehashes :: nat
  items_queue :: "('a \<times> nat) list"

definition new_CappedSet :: "Buckets \<Rightarrow> nat \<Rightarrow> 'a CappedSet run" where
  "new_CappedSet B cap =
     ZEN_ASSERT (cap > 0) (Ret \<lparr>capacity = cap, items = {}, buckets = bucket_start B, rehashes = 0, items_queue = []\<rparr>)"

text \<open>\<^verbatim>\<open>unordered_set::insert\<close> of a new element, and \<^verbatim>\<open>erase\<close> through an iterator.\<close>

definition items_insert :: "Buckets \<Rightarrow> 'a \<Rightarrow> 'a CappedSet \<Rightarrow> ('a \<times> nat) \<times> 'a CappedSet" where
  "items_insert B item c =
     (let n = card (items c) + 1;
          c = (if buckets c < n then c\<lparr>buckets := bucket_growth B n, rehashes := rehashes c + 1\<rparr> else c);
          c = c\<lparr>items := insert item (items c)\<rparr>
      in ((item, rehashes c), c))"

definition items_erase :: "'a \<times> nat \<Rightarrow> 'a CappedSet \<Rightarrow> 'a CappedSet run" where
  "items_erase it c = (if snd it = rehashes c then Ret (c\<lparr>items := items c - {fst it}\<rparr>) else Undef)"

text \<open>
  The result is the set and the pair the code returns: the element the returned iterator points to
  and whether it was inserted. Evicting with an empty queue would be undefined.
\<close>

definition capped_insert :: "Buckets \<Rightarrow> 'a \<Rightarrow> 'a CappedSet \<Rightarrow> ('a CappedSet \<times> 'a \<times> bool) run" where
  "capped_insert B item c =
     (if item \<in> items c then Ret (c, item, False)
      else
        run_bind
          (if card (items c) = capacity c then
             (case items_queue c of
                [] \<Rightarrow> Undef
              | oldest # rest \<Rightarrow> map_ret (\<lambda>c. c\<lparr>items_queue := rest\<rparr>) (items_erase oldest c))
           else Ret c)
          (\<lambda>c. let (it, c) = items_insert B item c
               in Ret (c\<lparr>items_queue := items_queue c @ [it]\<rparr>, fst it, True)))"

definition capped_contains :: "'a \<Rightarrow> 'a CappedSet \<Rightarrow> bool" where
  "capped_contains item c \<longleftrightarrow> item \<in> items c"

definition capped_size :: "'a CappedSet \<Rightarrow> nat" where
  "capped_size c = card (items c)"

definition capped_empty :: "'a CappedSet \<Rightarrow> bool" where
  "capped_empty c \<longleftrightarrow> items c = {}"

definition capped_clear :: "'a CappedSet \<Rightarrow> 'a CappedSet" where
  "capped_clear c = c\<lparr>items := {}, items_queue := []\<rparr>"

definition capped_equal :: "'a CappedSet \<Rightarrow> 'a CappedSet \<Rightarrow> bool" where
  "capped_equal l r \<longleftrightarrow> items l = items r"

definition insert_all :: "Buckets \<Rightarrow> 'a list \<Rightarrow> 'a CappedSet \<Rightarrow> 'a CappedSet run" where
  "insert_all B xs c = fold (\<lambda>x m. run_bind m (\<lambda>c'. map_ret fst (capped_insert B x c'))) xs (Ret c)"

subsection \<open>Invariant and specification\<close>

definition age :: "'a CappedSet \<Rightarrow> 'a list" where
  "age c = map fst (items_queue c)"

definition capped_ok :: "'a CappedSet \<Rightarrow> bool" where
  "capped_ok c \<longleftrightarrow>
     capacity c > 0 \<and> distinct (age c) \<and> items c = set (age c) \<and> length (items_queue c) \<le> capacity c"

text \<open>Enough buckets for a full set, and no rehash since the oldest member.\<close>

definition roomy :: "'a CappedSet \<Rightarrow> bool" where
  "roomy c \<longleftrightarrow> capped_ok c \<and> capacity c \<le> buckets c \<and> (\<forall>it \<in> set (items_queue c). snd it = rehashes c)"

text \<open>The specification works on the list of members in order of age.\<close>

definition spec_insert :: "nat \<Rightarrow> 'a \<Rightarrow> 'a list \<Rightarrow> 'a list" where
  "spec_insert cap x xs = (if x \<in> set xs then xs else drop (Suc (length xs) - cap) (xs @ [x]))"

locale capped_spec =
  fixes members :: "'c \<Rightarrow> 'a list" and cap :: "'c \<Rightarrow> nat" and ok :: "'c \<Rightarrow> bool"
    and ins :: "'a \<Rightarrow> 'c \<Rightarrow> ('c \<times> 'a \<times> bool) run"
  assumes ins_law: "ok c \<Longrightarrow>
      \<exists>c'. ins x c = Ret (c', x, x \<notin> set (members c)) \<and> ok c' \<and> cap c' = cap c \<and>
        members c' = spec_insert (cap c) x (members c)"
begin

lemma ins_all:
  assumes "ok c"
  shows "\<exists>c'. fold (\<lambda>x m. run_bind m (\<lambda>c'. map_ret fst (ins x c'))) xs (Ret c) = Ret c' \<and> ok c' \<and>
      cap c' = cap c \<and> members c' = fold (spec_insert (cap c)) xs (members c)"
  using assms
proof (induction xs arbitrary: c)
  case (Cons x xs)
  from ins_law [OF Cons.prems, of x] obtain c1 where
    c1: "ins x c = Ret (c1, x, x \<notin> set (members c))" "ok c1" "cap c1 = cap c"
      "members c1 = spec_insert (cap c) x (members c)"
    by blast
  from Cons.IH [OF c1(2)] c1 show ?case by simp
qed simp

end

subsection \<open>One insertion\<close>

lemma card_items: "capped_ok c \<Longrightarrow> card (items c) = length (items_queue c)"
  using distinct_card [of "age c"] by (simp add: capped_ok_def age_def)

lemma capped_insert_step:
  assumes "capped_ok c" "x \<notin> items c"
    "length (items_queue c) = capacity c \<Longrightarrow> snd (hd (items_queue c)) = rehashes c"
  obtains c' where "capped_insert B x c = Ret (c', x, True)" "capped_ok c'" "capacity c' = capacity c"
    "items_queue c' = drop (Suc (length (items_queue c)) - capacity c) (items_queue c) @ [(x, rehashes c')]"
    "if buckets c < min (Suc (length (items_queue c))) (capacity c) then rehashes c' = rehashes c + 1
      else rehashes c' = rehashes c \<and> buckets c' = buckets c"
proof (cases "length (items_queue c) = capacity c")
  case True
  then obtain y ys where q: "items_queue c = y # ys" using assms(1) by (cases "items_queue c") (auto simp: capped_ok_def)
  let ?c1 = "c\<lparr>items := items c - {fst y}, items_queue := ys\<rparr>"
  have "card (items ?c1) + 1 = capacity c" using True q card_items [OF assms(1)] assms(1)
    by (simp add: capped_ok_def age_def)
  then show ?thesis
    using True q assms card_items [OF assms(1)]
    by (intro that [of "(snd (items_insert B x ?c1))\<lparr>items_queue := ys @ [(x, rehashes (snd (items_insert B x ?c1)))]\<rparr>"])
      (auto simp: capped_insert_def items_erase_def items_insert_def capped_ok_def age_def Let_def)
next
  case False
  then have "length (items_queue c) < capacity c" using assms(1) by (simp add: capped_ok_def)
  then show ?thesis
    using assms(1,2) card_items [OF assms(1)]
    by (intro that [of "(snd (items_insert B x c))\<lparr>items_queue := items_queue c @ [(x, rehashes (snd (items_insert B x c)))]\<rparr>"])
      (auto simp: capped_insert_def items_insert_def capped_ok_def age_def Let_def)
qed

lemma capped_insert_stale:
  assumes "capped_ok c" "x \<notin> items c" "length (items_queue c) = capacity c" "snd (hd (items_queue c)) \<noteq> rehashes c"
  shows "capped_insert B x c = Undef"
proof -
  obtain y ys where "items_queue c = y # ys" using assms(1,3) by (cases "items_queue c") (auto simp: capped_ok_def)
  with assms card_items [OF assms(1)] show ?thesis by (simp add: capped_insert_def items_erase_def)
qed

lemma spec_insert_new:
  assumes "capped_ok c" "x \<notin> items c"
  shows "spec_insert (capacity c) x (age c) = drop (Suc (length (items_queue c)) - capacity c) (age c) @ [x]"
  using assms by (simp add: spec_insert_def capped_ok_def age_def)

lemma roomy_insert:
  assumes "roomy c"
  shows "\<exists>c'. capped_insert B x c = Ret (c', x, x \<notin> set (age c)) \<and> roomy c' \<and> capacity c' = capacity c
    \<and> age c' = spec_insert (capacity c) x (age c)"
proof (cases "x \<in> items c")
  case True
  with assms show ?thesis by (simp add: capped_insert_def spec_insert_def roomy_def capped_ok_def)
next
  case False
  have ok: "capped_ok c" and all: "\<forall>it \<in> set (items_queue c). snd it = rehashes c" using assms by (simp_all add: roomy_def)
  have "snd (hd (items_queue c)) = rehashes c" if "length (items_queue c) = capacity c"
    using that all ok by (cases "items_queue c") (simp_all add: capped_ok_def)
  from capped_insert_step [OF ok False this, of B] obtain c' where
    c': "capped_insert B x c = Ret (c', x, True)" "capped_ok c'" "capacity c' = capacity c"
      "items_queue c' = drop (Suc (length (items_queue c)) - capacity c) (items_queue c) @ [(x, rehashes c')]"
      "if buckets c < min (Suc (length (items_queue c))) (capacity c) then rehashes c' = rehashes c + 1
        else rehashes c' = rehashes c \<and> buckets c' = buckets c" by metis
  have no: "rehashes c' = rehashes c" "buckets c' = buckets c" using c'(5) assms by (simp_all add: roomy_def split: if_splits)
  have "roomy c'" using c'(2-4) no all assms by (auto simp: roomy_def dest: in_set_dropD)
  moreover have "age c' = spec_insert (capacity c) x (age c)"
    using c'(4) spec_insert_new [OF ok False] by (simp add: age_def drop_map)
  moreover have "x \<notin> set (age c)" using False ok by (simp add: capped_ok_def)
  ultimately show ?thesis using c'(1,3) by auto
qed

interpretation cs: capped_spec age capacity roomy "capped_insert B" for B
  by unfold_locales (rule roomy_insert)

lemma capped_ok_clear: "capped_ok c \<Longrightarrow> capped_ok (capped_clear c)"
  by (simp add: capped_ok_def capped_clear_def age_def)

text \<open>Inserting fresh, distinct elements keeps exactly the last \<open>capacity\<close> of all.\<close>

lemma fold_spec_insert_distinct:
  assumes "distinct (ys @ xs)" and "length ys \<le> cap"
  shows "fold (spec_insert cap) xs ys = drop (length ys + length xs - cap) (ys @ xs)"
  using assms
proof (induction xs arbitrary: ys)
  case (Cons x xs)
  let ?ys = "spec_insert cap x ys"
  from Cons.prems have eq: "?ys = drop (Suc (length ys) - cap) (ys @ [x])"
    by (simp add: spec_insert_def)
  have len: "length ?ys = min cap (Suc (length ys))"
    unfolding eq using Cons.prems(2) by simp
  have "distinct ?ys"
    unfolding eq by (rule distinct_drop) (use Cons.prems(1) in auto)
  moreover have "set ?ys \<subseteq> set (ys @ [x])"
    unfolding eq by (rule set_drop_subset)
  ultimately have "distinct (?ys @ xs)"
    using Cons.prems(1) by auto
  with Cons.IH [of ?ys] len
  have "fold (spec_insert cap) xs ?ys = drop (length ?ys + length xs - cap) (?ys @ xs)"
    by simp
  also have "\<dots> = drop (length ys + length (x # xs) - cap) (ys @ x # xs)"
  proof -
    have app: "?ys @ xs = drop (Suc (length ys) - cap) (ys @ x # xs)"
      unfolding eq using drop_append [of "Suc (length ys) - cap" "ys @ [x]" xs] by simp
    show ?thesis
      unfolding app len drop_drop using Cons.prems(2)
      by (intro arg_cong [where f = "\<lambda>k. drop k (ys @ x # xs)"]) auto
  qed
  finally show ?case by simp
qed simp

subsection \<open>Filling a set\<close>

lemma insert_all_snoc: "insert_all B (xs @ [x]) c = run_bind (insert_all B xs c) (\<lambda>c'. map_ret fst (capped_insert B x c'))"
  by (simp add: insert_all_def)

lemma insert_all_Undef: "insert_all B xs c = Undef \<Longrightarrow> insert_all B (xs @ ys) c = Undef"
proof (induction ys rule: rev_induct)
  case (snoc y ys)
  then have "insert_all B (xs @ ys) c = Undef" by blast
  then show ?case using insert_all_snoc [of B "xs @ ys" y c] by simp
qed simp

text \<open>Up to the capacity nothing is evicted; the first element is stale as soon as there are more elements than first buckets.\<close>

lemma fill:
  assumes "distinct xs" "length xs \<le> cap" "0 < cap" "1 \<le> bucket_start B"
  shows "\<exists>c. insert_all B xs \<lparr>capacity = cap, items = {}, buckets = bucket_start B, rehashes = 0, items_queue = []\<rparr> = Ret c
    \<and> capped_ok c \<and> capacity c = cap \<and> age c = xs \<and> (xs \<noteq> [] \<longrightarrow> snd (hd (items_queue c)) = 0)
    \<and> (length xs \<le> bucket_start B \<longrightarrow> rehashes c = 0 \<and> buckets c = bucket_start B) \<and> (bucket_start B < length xs \<longrightarrow> 0 < rehashes c)"
  using assms(1,2)
proof (induction xs rule: rev_induct)
  case Nil
  then show ?case using assms(3) by (simp add: insert_all_def capped_ok_def age_def)
next
  case (snoc x xs)
  then obtain c where c: "insert_all B xs \<lparr>capacity = cap, items = {}, buckets = bucket_start B, rehashes = 0, items_queue = []\<rparr> = Ret c"
    "capped_ok c" "capacity c = cap" "age c = xs" "xs \<noteq> [] \<longrightarrow> snd (hd (items_queue c)) = 0"
    "length xs \<le> bucket_start B \<longrightarrow> rehashes c = 0 \<and> buckets c = bucket_start B" "bucket_start B < length xs \<longrightarrow> 0 < rehashes c" by auto
  have len: "length (items_queue c) = length xs" using c(4) by (auto simp: age_def)
  have new: "x \<notin> items c" using snoc.prems(1) c(2,4) by (simp add: capped_ok_def)
  have room: "length (items_queue c) = capacity c \<Longrightarrow> snd (hd (items_queue c)) = rehashes c" using snoc.prems(2) len c(3) by simp
  from capped_insert_step [OF c(2) new room, of B] obtain c' where
    c': "capped_insert B x c = Ret (c', x, True)" "capped_ok c'" "capacity c' = capacity c"
      "items_queue c' = drop (Suc (length (items_queue c)) - capacity c) (items_queue c) @ [(x, rehashes c')]"
      "if buckets c < min (Suc (length (items_queue c))) (capacity c) then rehashes c' = rehashes c + 1
        else rehashes c' = rehashes c \<and> buckets c' = buckets c" by metis
  have q: "items_queue c' = items_queue c @ [(x, rehashes c')]" using c'(4) snoc.prems(2) len c(3) by simp
  have "insert_all B (xs @ [x]) \<lparr>capacity = cap, items = {}, buckets = bucket_start B, rehashes = 0, items_queue = []\<rparr> = Ret c'"
    unfolding insert_all_snoc c(1) by (simp add: c'(1))
  moreover have "age c' = xs @ [x]" using q c(4) by (simp add: age_def)
  moreover have r: "length (xs @ [x]) \<le> bucket_start B \<longrightarrow> rehashes c' = 0 \<and> buckets c' = bucket_start B"
    "bucket_start B < length (xs @ [x]) \<longrightarrow> 0 < rehashes c'"
    using c'(5) c(3,6,7) len snoc.prems(2) by (auto split: if_splits)
  moreover have "snd (hd (items_queue c')) = 0"
    using q c(5) r(1) len assms(4) by (cases "items_queue c") auto
  ultimately show ?case using c'(2,3) c(3) by auto
qed

subsection \<open>Properties\<close>

text \<open>
  C35: Inserting into a well-formed capped set: a member is found and nothing changes. A new element goes in, after the oldest one is evicted if the set is full: the members are
  then exactly what the specification leaves, in order of age, and the invariant and the capacity are kept. But the eviction uses an iterator that was made when
  the oldest element went in; if the hash table was rehashed since then, the behaviour is undefined.
\<close>

theorem capped_insert_correct:
  assumes "capped_ok c"
  shows "if x \<notin> items c \<and> capped_size c = capacity c \<and> snd (hd (items_queue c)) \<noteq> rehashes c then capped_insert B x c = Undef
    else \<exists>c'. capped_insert B x c = Ret (c', x, x \<notin> items c) \<and> capped_ok c' \<and> capped_contains x c' \<and>
      capacity c' = capacity c \<and> capped_size c' \<le> capacity c \<and> age c' = spec_insert (capacity c) x (age c) \<and>
      items c' = (if x \<in> items c then items c
                  else insert x (if capped_size c = capacity c then items c - {hd (age c)} else items c))"
proof (cases "x \<in> items c")
  case True
  have "capped_size c \<le> capacity c" using card_items [OF assms] assms by (simp add: capped_size_def capped_ok_def)
  moreover have "x \<in> set (age c)" using True assms by (simp add: capped_ok_def)
  ultimately show ?thesis using True assms by (simp add: capped_insert_def capped_contains_def spec_insert_def)
next
  case False
  have sz: "capped_size c = length (items_queue c)" using card_items [OF assms] by (simp add: capped_size_def)
  show ?thesis
  proof (cases "capped_size c = capacity c \<and> snd (hd (items_queue c)) \<noteq> rehashes c")
    case True
    with capped_insert_stale [OF assms False] False sz show ?thesis by simp
  next
    case valid: False
    then have "length (items_queue c) = capacity c \<Longrightarrow> snd (hd (items_queue c)) = rehashes c" using sz by simp
    from capped_insert_step [OF assms False this, of B] obtain c' where
      c': "capped_insert B x c = Ret (c', x, True)" "capped_ok c'" "capacity c' = capacity c"
        "items_queue c' = drop (Suc (length (items_queue c)) - capacity c) (items_queue c) @ [(x, rehashes c')]" by metis
    have age': "age c' = drop (Suc (length (items_queue c)) - capacity c) (age c) @ [x]" using c'(4) by (simp add: age_def drop_map)
    have it: "items c = set (age c)" "items c' = set (age c')" "distinct (age c)" "length (items_queue c) \<le> capacity c" "0 < capacity c"
      using assms c'(2) by (simp_all add: capped_ok_def)
    have "items c' = insert x (if capped_size c = capacity c then items c - {hd (age c)} else items c)"
    proof -
      have len: "length (age c) = length (items_queue c)" by (simp add: age_def)
      have "items c' = insert x (set (drop (Suc (length (age c)) - capacity c) (age c)))" using it(2) age' len by simp
      with it(1,3-5) sz len show ?thesis by (cases "age c") auto
    qed
    moreover have "capped_size c' \<le> capacity c" using c'(2,3) card_items [OF c'(2)] by (simp add: capped_size_def capped_ok_def)
    ultimately show ?thesis
      using valid False c'(1-3) age' spec_insert_new [OF assms False] by (auto simp: capped_contains_def)
  qed
qed

theorem capped_insert_correct_witness:
  "(\<exists>c'. capped_insert \<lparr>bucket_start = 1, bucket_growth = (\<lambda>n. 2 * n)\<rparr> 3
       \<lparr>capacity = 2, items = {1, 2}, buckets = 4, rehashes = 1, items_queue = [(1, 1), (2 :: nat, 1)]\<rparr> = Ret (c', 3, True) \<and> items c' = {2, 3})
   \<and> capped_insert \<lparr>bucket_start = 1, bucket_growth = (\<lambda>n. 2 * n)\<rparr> 3
       \<lparr>capacity = 2, items = {1, 2}, buckets = 4, rehashes = 1, items_queue = [(1, 0), (2 :: nat, 1)]\<rparr> = Undef"
proof -
  let ?B = "\<lparr>bucket_start = 1, bucket_growth = (\<lambda>n. 2 * n)\<rparr>"
  let ?c = "\<lparr>capacity = 2, items = {1, 2}, buckets = 4, rehashes = 1, items_queue = [(1, 1), (2 :: nat, 1)]\<rparr>"
  let ?d = "\<lparr>capacity = 2, items = {1, 2}, buckets = 4, rehashes = 1, items_queue = [(1, 0), (2 :: nat, 1)]\<rparr>"
  have ok: "capped_ok ?c" "capped_ok ?d" by (auto simp: capped_ok_def age_def)
  have sz: "capped_size ?c = 2" "capped_size ?d = 2" by (simp_all add: capped_size_def)
  from capped_insert_correct [OF ok(1), of 3 ?B] capped_insert_correct [OF ok(2), of 3 ?B] sz show ?thesis
    by (auto simp: age_def)
qed

text \<open>
  With enough buckets from the start, after inserting distinct elements into a new capped set the members are exactly the last
  \<open>capacity\<close> of them, in the order of insertion: eviction is first-in first-out.
\<close>

theorem capped_set_fifo:
  assumes "distinct xs" and "0 < cap" and "cap \<le> bucket_start B"
  shows "\<exists>c. run_bind (new_CappedSet B cap) (insert_all B xs) = Ret c \<and>
    items c = set (drop (length xs - cap) xs) \<and> age c = drop (length xs - cap) xs"
proof -
  let ?c = "\<lparr>capacity = cap, items = {}, buckets = bucket_start B, rehashes = 0, items_queue = []\<rparr> :: 'a CappedSet"
  have "roomy ?c" using assms(2,3) by (simp add: roomy_def capped_ok_def age_def)
  from cs.ins_all [OF this, of B xs] obtain c where
    "insert_all B xs ?c = Ret c" "roomy c" "age c = fold (spec_insert cap) xs []"
    by (auto simp: insert_all_def age_def)
  with fold_spec_insert_distinct [of "[]" xs cap] assms show ?thesis
    by (auto simp: new_CappedSet_def roomy_def capped_ok_def)
qed

text \<open>
  With fewer buckets than the capacity, as when the library starts small, filling a new set rehashes it and the first eviction is undefined.
\<close>

theorem capped_set_eviction_undefined:
  assumes "distinct xs" and "cap < length xs" and "1 \<le> bucket_start B" and "bucket_start B < cap"
  shows "run_bind (new_CappedSet B cap) (insert_all B xs) = Undef"
proof -
  let ?c = "\<lparr>capacity = cap, items = {}, buckets = bucket_start B, rehashes = 0, items_queue = []\<rparr> :: 'a CappedSet"
  let ?ys = "take cap xs"
  have xs: "xs = ?ys @ [xs ! cap] @ drop (Suc cap) xs" using assms(2) by (simp add: id_take_nth_drop)
  have d: "distinct ?ys" "xs ! cap \<notin> set ?ys" using assms(1,2) xs by (metis distinct_append, metis distinct_append disjoint_iff list.set_intros(1) append_Cons set_append UnI1)
  have len: "length ?ys = cap" using assms(2) by simp
  from fill [OF d(1), of cap B] len assms(3,4) obtain c where c: "insert_all B ?ys ?c = Ret c" "capped_ok c" "capacity c = cap"
    "age c = ?ys" "snd (hd (items_queue c)) = 0" "0 < rehashes c" by auto
  have "length (items_queue c) = cap" using c(4) len by (metis age_def length_map)
  then have "capped_insert B (xs ! cap) c = Undef"
    using capped_insert_stale [OF c(2), of "xs ! cap" B] c d(2) by (simp add: capped_ok_def)
  then have "insert_all B (?ys @ [xs ! cap]) ?c = Undef" unfolding insert_all_snoc c(1) by simp
  from insert_all_Undef [OF this, of "drop (Suc cap) xs"] xs have "insert_all B xs ?c = Undef" by simp
  then show ?thesis using assms(4) by (simp add: new_CappedSet_def)
qed

end
