(* ===== verification/Object_Pool.thy ===== *)
theory Object_Pool
  imports Moria_Prelude
begin

section \<open>Object pool\<close>

text \<open>
  \<^verbatim>\<open>zen/core/common/object_pool.hpp\<close>: a stack of owned objects that are expensive to create. \<open>acquire\<close>
  returns \<^verbatim>\<open>nullptr\<close> (here \<open>None\<close>) when nothing is pooled. The mutex guard of the thread-safe mode makes
  every operation one atomic step, which is what the functions below are.

  The locale \<open>pool_contract\<close> is the contract the users of a pool rely on (the OpenSSL contexts of the hashers
  and the cursor handles of the database): nothing is ever invented or lost, and what was added last
  comes out first.
\<close>

record 'a ObjectPool =
  pool_objects :: "'a list"
  thread_safe :: bool

definition new_ObjectPool :: "bool \<Rightarrow> 'a ObjectPool" where
  "new_ObjectPool ts = \<lparr>pool_objects = [], thread_safe = ts\<rparr>"

definition pool_add :: "'a \<Rightarrow> 'a ObjectPool \<Rightarrow> 'a ObjectPool" where
  "pool_add t p = p\<lparr>pool_objects := t # pool_objects p\<rparr>"

definition pool_empty :: "'a ObjectPool \<Rightarrow> bool" where
  "pool_empty p \<longleftrightarrow> pool_objects p = []"

definition pool_size :: "'a ObjectPool \<Rightarrow> nat" where
  "pool_size p = length (pool_objects p)"

definition pool_acquire :: "'a ObjectPool \<Rightarrow> 'a option \<times> 'a ObjectPool" where
  "pool_acquire p =
     (if pool_empty p then (None, p)
      else (Some (hd (pool_objects p)), p\<lparr>pool_objects := tl (pool_objects p)\<rparr>))"

text \<open>The destructor runs the deleter of every object, from the bottom of the stack up as in libstdc++ (the language leaves the
  order open), on whatever state deleters work on.\<close>

definition delete_ObjectPool :: "('a \<Rightarrow> 's \<Rightarrow> 's) \<Rightarrow> 'a ObjectPool \<Rightarrow> 's \<Rightarrow> 's" where
  "delete_ObjectPool dtor p s = fold dtor (rev (pool_objects p)) s"

lemmas pool_defs =
  new_ObjectPool_def pool_add_def pool_empty_def pool_size_def pool_acquire_def

text \<open>Taking \<open>n\<close> objects one after the other.\<close>

fun acquire_n :: "('p \<Rightarrow> 'a option \<times> 'p) \<Rightarrow> nat \<Rightarrow> 'p \<Rightarrow> 'a option list \<times> 'p" where
  "acquire_n acquire 0 p = ([], p)"
| "acquire_n acquire (Suc n) p =
     (let (x, p1) = acquire p; (xs, p2) = acquire_n acquire n p1 in (x # xs, p2))"

locale pool_contract =
  fixes contents :: "'p \<Rightarrow> 'a list" and add :: "'a \<Rightarrow> 'p \<Rightarrow> 'p"
    and acquire :: "'p \<Rightarrow> 'a option \<times> 'p"
  assumes add_law: "contents (add x p) = x # contents p"
    and acquire_none: "contents p = [] \<Longrightarrow> acquire p = (None, p)"
    and acquire_some: "contents p = x # xs \<Longrightarrow> fst (acquire p) = Some x \<and> contents (snd (acquire p)) = xs"
begin

lemma contents_fold_add: "contents (fold add xs p) = rev xs @ contents p"
  by (induction xs arbitrary: p) (simp_all add: add_law)

lemma acquire_n_contents:
  "contents p = xs @ ys \<Longrightarrow>
   fst (acquire_n acquire (length xs) p) = map Some xs \<and> contents (snd (acquire_n acquire (length xs) p)) = ys"
proof (induction xs arbitrary: p)
  case (Cons x xs)
  from acquire_some [of p x "xs @ ys"] Cons.prems
  have a: "fst (acquire p) = Some x" "contents (snd (acquire p)) = xs @ ys"
    by simp_all
  from Cons.IH [OF a(2)] a(1) show ?case
    by (simp add: case_prod_unfold)
qed simp

text \<open>Objects put into the pool come back in the reverse order.\<close>

lemma lifo:
  "fst (acquire_n acquire (length xs) (fold add xs p)) = map Some (rev xs) \<and>
   contents (snd (acquire_n acquire (length xs) (fold add xs p))) = contents p"
  using acquire_n_contents [of "fold add xs p" "rev xs" "contents p"]
  by (simp add: contents_fold_add)

end

interpretation op: pool_contract pool_objects pool_add pool_acquire
  by unfold_locales (simp_all add: pool_defs)

text \<open>
  whatever was pooled before, the objects added to a pool come back last added first, none
  lost and none invented, and leave the pool as large and with the same objects as before; a new
  pool has nothing to give.
\<close>

theorem pool_last_in_first_out:
  "fst (acquire_n pool_acquire (length xs) (fold pool_add xs p)) = map Some (rev xs) \<and>
   pool_objects (snd (acquire_n pool_acquire (length xs) (fold pool_add xs p))) = pool_objects p \<and>
   pool_size (fold pool_add xs p) = length xs + pool_size p \<and>
   fst (pool_acquire (new_ObjectPool ts)) = None"
  using op.lifo [of xs p] op.contents_fold_add [of xs p]
  by (simp add: pool_size_def op.acquire_none new_ObjectPool_def)

end
