(* ===== verification/Hasher.thy ===== *)
theory Hasher
  imports Endian Object_Pool
begin

section \<open>Streaming hash objects\<close>

text \<open>
  \<^verbatim>\<open>zen/core/crypto/hasher.hpp\<close> and \<^verbatim>\<open>hasher.cpp\<close>: the base class that buffers data for OpenSSL's
  block transforms. OpenSSL is not part of the repository: its context type is the type variable
  \<open>'c\<close>, and the functions the code calls on a context are the record \<open>Openssl\<close> (the \<^verbatim>\<open>*_Init\<close> and
  \<^verbatim>\<open>*_Transform\<close> functions, a value-initialised context, and the chaining words the classes read).
  The documented behaviour of these functions is the locale \<open>openssl_digest\<close>.

  A class of the hierarchy is the base class record \<open>Hasher\<close>, which includes the owned context
  (\<open>None\<close> is a null pointer), and the thread local context pool of the class, passed explicitly.
  \<open>absorbed\<close> relates a hash object to the message it has been given, and the specification
  \<open>md_hash\<close> is the Merkle-Damgaard construction of the standards.
\<close>

record ('c, 'w) Openssl =
  ossl_new :: 'c
  ossl_init :: "'c \<Rightarrow> 'c"
  ossl_transform :: "'c \<Rightarrow> Bytes \<Rightarrow> 'c"
  ossl_h :: "'c \<Rightarrow> nat \<Rightarrow> 'w"

record 'c Hasher =
  digest_size :: nat
  block_size :: nat
  hbuffer :: Bytes
  buffer_offset :: nat
  total_bytes :: u64
  ctx :: "'c option"

definition new_Hasher :: "nat \<Rightarrow> nat \<Rightarrow> 'c Hasher" where
  "new_Hasher ds bs =
     \<lparr>digest_size = ds, block_size = bs, hbuffer = replicate bs 0, buffer_offset = 0,
      total_bytes = 0, ctx = None\<rparr>"

subsection \<open>The operations of the base class\<close>

text \<open>\<^verbatim>\<open>transform\<close> hands the context and a pointer to one block to OpenSSL.\<close>

definition transform :: "('c, 'w) Openssl \<Rightarrow> Bytes \<Rightarrow> 'c Hasher \<Rightarrow> 'c Hasher run" where
  "transform ossl data h =
     (case ctx h of
        None \<Rightarrow> Undef
      | Some c \<Rightarrow>
          if length data < block_size h then Undef
          else Ret (h\<lparr>ctx := Some (ossl_transform ossl c (take (block_size h) data))\<rparr>))"

text \<open>The three parts of \<^verbatim>\<open>Hasher::update\<close>: fill the buffer, transform full blocks, keep the rest.\<close>

definition update_fill :: "('c, 'w) Openssl \<Rightarrow> Bytes \<Rightarrow> 'c Hasher \<Rightarrow> ('c Hasher \<times> Bytes) run" where
  "update_fill ossl data h =
     (if buffer_offset h \<noteq> 0 then
        let room_size = min (sub64 (length (hbuffer h)) (buffer_offset h)) (length data) in
        if length (hbuffer h) < buffer_offset h + room_size then Undef
        else
          let h1 = h\<lparr>hbuffer := memcpy_at (hbuffer h) (buffer_offset h) (take room_size data),
                     buffer_offset := buffer_offset h + room_size,
                     total_bytes := total_bytes h + of_nat room_size\<rparr>;
              data1 = drop room_size data in
          if buffer_offset h1 = length (hbuffer h1) then
            run_bind (transform ossl (hbuffer h1) h1) (\<lambda>h2. Ret (h2\<lparr>buffer_offset := 0\<rparr>, data1))
          else Ret (h1, data1)
      else Ret (h, data))"

text \<open>A block size of zero would make the loop run forever without progress, which C++ leaves undefined.\<close>

function update_blocks :: "('c, 'w) Openssl \<Rightarrow> Bytes \<Rightarrow> 'c Hasher \<Rightarrow> ('c Hasher \<times> Bytes) run" where
  "update_blocks ossl data h =
     (if block_size h = 0 then Undef
      else if length data < block_size h then Ret (h, data)
      else
        case transform ossl data (h\<lparr>total_bytes := total_bytes h + of_nat (block_size h)\<rparr>) of
          Ret h1 \<Rightarrow> update_blocks ossl (drop (block_size h) data) h1
        | Throw e \<Rightarrow> Throw e
        | Abort \<Rightarrow> Abort
        | Undef \<Rightarrow> Undef)"
  by pat_completeness auto
termination
  by (relation "measure (\<lambda>(ossl, data, h). length data)") auto

declare update_blocks.simps [simp del]

definition update_rest :: "Bytes \<Rightarrow> 'c Hasher \<Rightarrow> 'c Hasher run" where
  "update_rest data h =
     (if data \<noteq> [] then
        if length (hbuffer h) < length data then Undef
        else Ret (h\<lparr>hbuffer := memcpy_at (hbuffer h) 0 data, buffer_offset := length data,
                    total_bytes := total_bytes h + of_nat (length data)\<rparr>)
      else Ret h)"

definition update :: "('c, 'w) Openssl \<Rightarrow> Bytes \<Rightarrow> 'c Hasher \<Rightarrow> 'c Hasher run" where
  "update ossl data h =
     run_bind (update_fill ossl data h) (\<lambda>(h1, data1).
     run_bind (update_blocks ossl data1 h1) (\<lambda>(h2, data2). update_rest data2 h2))"

definition string_view_to_byte_view :: "string \<Rightarrow> Bytes" where
  "string_view_to_byte_view v = map of_char v"

definition byte_view_to_string_view :: "Bytes \<Rightarrow> string" where
  "byte_view_to_string_view v = map (\<lambda>b. char_of (unat b)) v"

lemma unat_char_byte: "unat (of_char c :: byte) = of_char c"
proof -
  have "(of_char c :: nat) mod 256 = of_char c" by simp
  then have "unat (of_nat (of_char c) :: byte) = of_char c" by (simp only: unat_of_nat) simp
  then show ?thesis by (simp only: of_nat_of_char)
qed

lemma byte_of_byte_char: "(of_char (char_of (unat b)) :: byte) = b"
proof -
  have "(of_char (char_of (unat b)) :: byte) = of_nat (of_char (char_of (unat b)))" by (simp only: of_nat_of_char)
  also have "\<dots> = b" using unsigned_less [of b, where 'a = nat] by simp
  finally show ?thesis .
qed

lemma view_casts:
  "byte_view_to_string_view (string_view_to_byte_view s) = s" "string_view_to_byte_view (byte_view_to_string_view v) = v"
  by (simp_all add: byte_view_to_string_view_def string_view_to_byte_view_def unat_char_byte byte_of_byte_char comp_def)

definition update_string :: "('c, 'w) Openssl \<Rightarrow> string \<Rightarrow> 'c Hasher \<Rightarrow> 'c Hasher run" where
  "update_string ossl data h = update ossl (string_view_to_byte_view data) h"

text \<open>
  The body of \<^verbatim>\<open>init_context\<close>, of the destructor and of the constructor from initial data, which the
  four classes share up to the types: the context is taken from the pool or made, then initialised;
  the buffer keeps its old bytes.
\<close>

definition init_context ::
  "('c, 'w) Openssl \<Rightarrow> 'c ObjectPool \<times> 'c Hasher \<Rightarrow> 'c ObjectPool \<times> 'c Hasher" where
  "init_context ossl = (\<lambda>(pool, h).
     let (c, pool1) =
       (case ctx h of
          Some c \<Rightarrow> (c, pool)
        | None \<Rightarrow>
            (case pool_acquire pool of
               (Some c, pool1) \<Rightarrow> (c, pool1)
             | (None, pool1) \<Rightarrow> (ossl_new ossl, pool1)))
     in (pool1, h\<lparr>ctx := Some (ossl_init ossl c), total_bytes := 0, buffer_offset := 0\<rparr>))"

definition release_context :: "'c ObjectPool \<times> 'c Hasher \<Rightarrow> 'c ObjectPool" where
  "release_context = (\<lambda>(pool, h). case ctx h of Some c \<Rightarrow> pool_add c pool | None \<Rightarrow> pool)"

lemma init_context_sizes [simp]:
  "digest_size (snd (init_context ossl (p, h))) = digest_size h"
  "block_size (snd (init_context ossl (p, h))) = block_size h"
  by (simp_all add: init_context_def Let_def split: prod.splits)

lemma init_context_pool: "ctx h = Some c \<Longrightarrow> fst (init_context ossl (p, h)) = p"
  by (simp add: init_context_def)

text \<open>The static array \<^verbatim>\<open>pad{0x80}\<close> of one block.\<close>

definition pad_block :: "nat \<Rightarrow> Bytes" where
  "pad_block bs = 0x80 # replicate (bs - 1) 0"

text \<open>The chaining words stored one after the other into a zeroed buffer of the digest's size.\<close>

definition store_words :: "('w \<Rightarrow> Bytes) \<Rightarrow> nat \<Rightarrow> nat \<Rightarrow> nat \<Rightarrow> (nat \<Rightarrow> 'w) \<Rightarrow> Bytes" where
  "store_words store sz w k hs =
     foldl (\<lambda>ret i. memcpy_at ret (w * i) (store (hs i))) (replicate sz 0) [0..<k]"

subsection \<open>Specification\<close>

text \<open>
  The padding of the standards: a one bit, the least number of zero bits that makes room for the
  length field at the end of a block, and the length in bits.
\<close>

definition pad_zeroes :: "nat \<Rightarrow> nat \<Rightarrow> nat \<Rightarrow> nat" where
  "pad_zeroes n l len = nat ((- int (len + 1 + l)) mod int n)"

definition md_pad :: "nat \<Rightarrow> nat \<Rightarrow> (nat \<Rightarrow> Bytes) \<Rightarrow> Bytes \<Rightarrow> Bytes" where
  "md_pad n l len_field m = m @ [0x80] @ replicate (pad_zeroes n l (length m)) 0 @ len_field (8 * length m)"

definition md_hash ::
  "nat \<Rightarrow> nat \<Rightarrow> (nat \<Rightarrow> Bytes) \<Rightarrow> 'w list \<Rightarrow> ('w list \<Rightarrow> Bytes \<Rightarrow> 'w list) \<Rightarrow> ('w \<Rightarrow> Bytes) \<Rightarrow> Bytes \<Rightarrow> Bytes"
  where
  "md_hash n l len_field iv compress store m =
     concat (map store (foldl compress iv (chunks n (md_pad n l len_field m))))"

text \<open>The length fields: 64 and 128 bits big endian, 64 bits little endian.\<close>

definition be_field :: "nat \<Rightarrow> nat \<Rightarrow> Bytes" where
  "be_field l v = rev (le_nat l v)"

lemma pad_zeroes_correct:
  assumes "0 < n"
  shows "(len + 1 + pad_zeroes n l len + l) mod n = 0 \<and> pad_zeroes n l len < n"
proof -
  let ?x = "int (len + 1 + l)"
  have p: "int (pad_zeroes n l len) = (- ?x) mod int n"
    using assms by (simp add: pad_zeroes_def)
  have "int ((len + 1 + pad_zeroes n l len + l) mod n) = (?x + (- ?x) mod int n) mod int n"
    by (simp add: zmod_int p algebra_simps)
  also have "\<dots> = 0"
    by (metis add.right_inverse mod_0 mod_add_right_eq)
  finally have "(len + 1 + pad_zeroes n l len + l) mod n = 0"
    by (simp only: of_nat_eq_0_iff)
  moreover have "int (pad_zeroes n l len) < int n"
    unfolding p using assms by simp
  ultimately show ?thesis by simp
qed

text \<open>The count of zeroes is the only one below the block size, and the least of all.\<close>

lemma pad_zeroes_mod:
  assumes "0 < n" and "(len + 1 + k + l) mod n = 0"
  shows "k mod n = pad_zeroes n l len"
proof -
  have "int (len + 1 + k + l) mod int n = 0"
    using assms(2) by (simp only: of_nat_mod [symmetric] of_nat_0)
  then have "int k mod int n = (- int (len + 1 + l)) mod int n"
    by (intro mod_eq_dvd_iff [THEN iffD2]) (simp add: algebra_simps dvd_eq_mod_eq_0)
  then have "nat (int (k mod n)) = pad_zeroes n l len"
    unfolding pad_zeroes_def of_nat_mod by (rule arg_cong)
  then show ?thesis by simp
qed

lemma pad_zeroes_least:
  assumes "0 < n" and "(len + 1 + k + l) mod n = 0"
  shows "pad_zeroes n l len \<le> k"
  using pad_zeroes_mod [OF assms] by (metis mod_less_eq_dividend)

text \<open>The count the code computes: \<open>A\<close> is 119 for 64-byte blocks and 239 for 128-byte blocks.\<close>

lemma pad_count_eq:
  assumes "0 < n" and "A + l + 1 = 2 * n" and "l < n"
  shows "(A - len mod n) mod n = pad_zeroes n l len"
proof (rule pad_zeroes_mod [OF assms(1)])
  have "len mod n < n" using assms(1) by simp
  then have "len + 1 + (A - len mod n) + l = n * (len div n) + 2 * n"
    using assms mult_div_mod_eq [of n len] by linarith
  then show "(len + 1 + (A - len mod n) + l) mod n = 0" by simp
qed

text \<open>A view on the first \<open>count\<close> bytes of the pad array, and what it contains.\<close>

definition pad_view :: "nat \<Rightarrow> nat \<Rightarrow> Bytes run" where
  "pad_view bs count = (if count \<le> bs then Ret (take count (pad_block bs)) else Undef)"

lemma pad_view_Suc:
  "z < n \<Longrightarrow> pad_view n (1 + z) = Ret (0x80 # replicate z 0)"
  by (simp add: pad_view_def pad_block_def min_def)

lemma total_mod:
  assumes "n dvd 2 ^ 64"
  shows "unat (of_nat len :: u64) mod n = len mod n"
  using assms by (simp add: unat_of_nat mod_mod_cancel)

lemma be_store_bits: "be_store (push_bit 3 (of_nat len :: u64)) = be_field 8 (8 * len)"
proof -
  have "push_bit 3 (of_nat len :: u64) = of_nat (8 * len)"
    by (simp add: push_bit_eq_mult)
  then show ?thesis
    using le_nat_mod [of 8 "8 * len"]
    by (simp add: be_store_def be_field_def to_le_def sizeof_word_def unat_of_nat del: of_nat_mult)
qed

lemma le_store_bits: "to_le (push_bit 3 (of_nat len :: u64)) = le_nat 8 (8 * len)"
  using be_store_bits [of len] by (simp add: be_store_def be_field_def)

subsection \<open>What OpenSSL promises\<close>

text \<open>
  \<open>k\<close> is the number of chaining words, \<open>n\<close> the block size. After \<^verbatim>\<open>*_Init\<close> the words are the initial
  value of the standard, whatever the context held, and \<^verbatim>\<open>*_Transform\<close> applies the compression
  function to the words and one block.
\<close>

locale openssl_digest =
  fixes ossl :: "('c, 'w) Openssl" and k n :: nat
    and iv :: "'w list" and compress :: "'w list \<Rightarrow> Bytes \<Rightarrow> 'w list"
  assumes block_pos: "0 < n"
    and init_words: "map (ossl_h ossl (ossl_init ossl c)) [0..<k] = iv"
    and transform_words: "length b = n \<Longrightarrow>
      map (ossl_h ossl (ossl_transform ossl c b)) [0..<k] = compress (map (ossl_h ossl c) [0..<k]) b"

definition absorbed ::
  "('c, 'w) Openssl \<Rightarrow> nat \<Rightarrow> nat \<Rightarrow> 'w list \<Rightarrow> ('w list \<Rightarrow> Bytes \<Rightarrow> 'w list) \<Rightarrow> Bytes \<Rightarrow> 'c Hasher \<Rightarrow> bool"
  where
  "absorbed ossl k n iv compress m h \<longleftrightarrow>
     block_size h = n \<and> length (hbuffer h) = n \<and> n < 2 ^ 64 \<and>
     buffer_offset h = length m mod n \<and>
     take (buffer_offset h) (hbuffer h) = leftover n m \<and>
     total_bytes h = of_nat (length m) \<and>
     (\<exists>c. ctx h = Some c \<and> map (ossl_h ossl c) [0..<k] = foldl compress iv (chunks n m))"

context openssl_digest
begin

abbreviation "holds \<equiv> absorbed ossl k n iv compress"

lemma holds_init:
  assumes "block_size h = n" and "length (hbuffer h) = n" and "n < 2 ^ 64"
  shows "holds [] (snd (init_context ossl (pool, h)))"
proof -
  have "chunks n ([] :: Bytes) = []" and "leftover n ([] :: Bytes) = []"
    using block_pos by simp_all
  with assms show ?thesis
    by (simp add: absorbed_def init_context_def init_words Let_def split: option.splits prod.splits)
qed

lemma abs_transform:
  assumes "ctx h = Some c" and "length b = n" and "block_size h = n"
    and "map (ossl_h ossl c) [0..<k] = ws"
  shows "\<exists>c'. transform ossl (b @ rest) h = Ret (h\<lparr>ctx := Some c'\<rparr>) \<and>
    map (ossl_h ossl c') [0..<k] = compress ws b"
  using assms transform_words [of b c]
  by (intro exI [of _ "ossl_transform ossl c b"]) (simp add: transform_def)

lemma blocks_words:
  assumes "ctx h = Some c" and "block_size h = n" and "map (ossl_h ossl c) [0..<k] = ws"
  shows "\<exists>c'. update_blocks ossl data h =
      Ret (h\<lparr>ctx := Some c', total_bytes := total_bytes h + of_nat (length data - length data mod n)\<rparr>,
        leftover n data) \<and>
    map (ossl_h ossl c') [0..<k] = foldl compress ws (chunks n data)"
  using assms
proof (induction "length data" arbitrary: data h c ws rule: less_induct)
  case less
  show ?case
  proof (cases "length data < n")
    case True
    moreover from less.prems(1) have "h = h\<lparr>ctx := Some c\<rparr>" by simp
    ultimately show ?thesis
      using less.prems block_pos by (intro exI [of _ c]) (simp add: update_blocks.simps)
  next
    case False
    let ?h = "h\<lparr>total_bytes := total_bytes h + of_nat n\<rparr>"
    from abs_transform [of ?h c "take n data" ws "drop n data"] less.prems False
    obtain c1 where c1: "transform ossl data ?h = Ret (?h\<lparr>ctx := Some c1\<rparr>)"
      "map (ossl_h ossl c1) [0..<k] = compress ws (take n data)"
      by auto
    let ?d = "drop n data"
    have "length ?d < length data" using False block_pos by simp
    from less.hyps [OF this, of "?h\<lparr>ctx := Some c1\<rparr>" c1] c1(2) less.prems(2)
    obtain c2 where c2: "update_blocks ossl ?d (?h\<lparr>ctx := Some c1\<rparr>) =
        Ret (?h\<lparr>ctx := Some c2, total_bytes := total_bytes h + of_nat n + of_nat (length ?d - length ?d mod n)\<rparr>,
          leftover n ?d)"
      "map (ossl_h ossl c2) [0..<k] = foldl compress (compress ws (take n data)) (chunks n ?d)"
      by auto
    have r: "length data mod n = length ?d mod n"
      using False by (simp add: le_mod_geq)
    have "length data - length data mod n = n + (length ?d - length ?d mod n)"
      unfolding r length_drop using False mod_less_eq_dividend [of "length data - n" n] by linarith
    then have tot: "(of_nat n :: u64) + of_nat (length ?d - length ?d mod n) =
        of_nat (length data - length data mod n)"
      by (simp only: of_nat_add)
    have "update_blocks ossl data h = update_blocks ossl ?d (?h\<lparr>ctx := Some c1\<rparr>)"
      using False less.prems(2) block_pos c1(1) by (subst update_blocks.simps) simp
    with c2 tot False block_pos show ?thesis
      by (intro exI [of _ c2]) (simp add: chunks_full leftover_drop add.assoc)
  qed
qed

text \<open>An object whose buffer is empty, given \<open>data\<close>.\<close>

lemma tail_holds:
  assumes "holds m h" and "n dvd length m"
  shows "\<exists>h'. run_bind (update_blocks ossl data h) (\<lambda>(h2, data2). update_rest data2 h2) = Ret h' \<and>
    holds (m @ data) h' \<and> digest_size h' = digest_size h"
proof -
  from assms obtain c where h: "block_size h = n" "length (hbuffer h) = n" "n < 2 ^ 64"
    "buffer_offset h = 0" "total_bytes h = of_nat (length m)" "ctx h = Some c"
    "map (ossl_h ossl c) [0..<k] = foldl compress iv (chunks n m)"
    by (auto simp: absorbed_def)
  from blocks_words [OF h(6,1,7), of data] obtain c' where
    c': "update_blocks ossl data h =
      Ret (h\<lparr>ctx := Some c', total_bytes := total_bytes h + of_nat (length data - length data mod n)\<rparr>,
        leftover n data)"
    "map (ossl_h ossl c') [0..<k] = foldl compress (foldl compress iv (chunks n m)) (chunks n data)"
    by blast
  have len: "length (leftover n data) = length data mod n" and less: "length data mod n < n"
    using block_pos by (simp_all add: length_leftover)
  have tot: "(of_nat (length data - length data mod n) :: u64) + of_nat (length data mod n) = of_nat (length data)"
    by (simp only: of_nat_add [symmetric]) simp
  have app: "chunks n (m @ data) = chunks n m @ chunks n data" "leftover n (m @ data) = leftover n data"
    "length (m @ data) mod n = length data mod n"
    using assms(2) block_pos by (auto simp: chunks_append leftover_append mod_add_left_eq elim!: dvdE)
  show ?thesis
  proof (cases "leftover n data = []")
    case True
    with len have "length data mod n = 0" by simp
    with True c' h app tot show ?thesis
      by (simp add: update_rest_def absorbed_def add.assoc)
  next
    case False
    have "take (length (leftover n data)) (memcpy_at (hbuffer h) 0 (leftover n data)) = leftover n data"
      by (simp add: memcpy_at_def)
    with False c' h app tot len less show ?thesis
      by (simp add: update_rest_def absorbed_def add.assoc)
  qed
qed

text \<open>An object whose buffer holds some bytes: it is filled, and transformed when full.\<close>

lemma fill_holds:
  assumes "holds m h" and "buffer_offset h \<noteq> 0"
    and room_def: "room = min (n - length m mod n) (length data)"
  shows "\<exists>h'. update_fill ossl data h = Ret (h', drop room data) \<and> holds (m @ take room data) h' \<and>
    digest_size h' = digest_size h"
proof -
  let ?q = "length m mod n" and ?t = "take room data"
  from assms obtain c where h: "block_size h = n" "length (hbuffer h) = n" "n < 2 ^ 64"
    "buffer_offset h = ?q" "take ?q (hbuffer h) = leftover n m" "total_bytes h = of_nat (length m)"
    "ctx h = Some c" "map (ossl_h ossl c) [0..<k] = foldl compress iv (chunks n m)"
    by (auto simp: absorbed_def)
  have q: "?q < n" "?q \<noteq> 0" using block_pos assms(2) h(4) by simp_all
  have room: "room = min (sub64 (length (hbuffer h)) (buffer_offset h)) (length data)"
    using q h by (simp add: room_def sub64_le)
  have fits: "?q + room \<le> n" and len: "length ?t = room"
    using q by (simp_all add: room_def)
  let ?b = "memcpy_at (hbuffer h) ?q ?t"
  have b: "take (?q + room) ?b = leftover n m @ ?t" "length ?b = n"
    using take_memcpy_at [of ?q ?t "hbuffer h"] length_memcpy_at [of ?q ?t "hbuffer h"] fits len h
    by simp_all
  let ?h = "h\<lparr>hbuffer := ?b, buffer_offset := ?q + room, total_bytes := total_bytes h + of_nat room\<rparr>"
  have lenlo: "length (leftover n m @ ?t) = ?q + room"
    using block_pos len by (simp add: length_leftover)
  have app: "chunks n (m @ ?t) = chunks n m @ chunks n (leftover n m @ ?t)"
    "leftover n (m @ ?t) = leftover n (leftover n m @ ?t)"
    by (rule chunks_leftover_append [OF block_pos])+
  have modeq: "length (m @ ?t) mod n = (?q + room) mod n"
    using len by (simp add: mod_add_left_eq)
  show ?thesis
  proof (cases "?q + room = n")
    case True
    have full: "chunks n (leftover n m @ ?t) = [leftover n m @ ?t]" "leftover n (leftover n m @ ?t) = []"
      by (rule chunks_one [OF block_pos], use lenlo True in simp)+
    have "?b = leftover n m @ ?t" using b True by simp
    with abs_transform [of ?h c ?b "foldl compress iv (chunks n m)" "[]"] h b(2)
    obtain c' where "transform ossl ?b ?h = Ret (?h\<lparr>ctx := Some c'\<rparr>)"
      "map (ossl_h ossl c') [0..<k] = compress (foldl compress iv (chunks n m)) (leftover n m @ ?t)"
      by auto
    with h room fits q b full app modeq True len show ?thesis
      by (simp add: update_fill_def Let_def absorbed_def)
  next
    case False
    with fits have less: "?q + room < n" by simp
    with lenlo have short: "chunks n (leftover n m @ ?t) = []"
      "leftover n (leftover n m @ ?t) = leftover n m @ ?t"
      by (simp_all only: chunks_short leftover_short)
    with h room fits q b app modeq less len show ?thesis
      by (simp add: update_fill_def Let_def absorbed_def)
  qed
qed

theorem update_holds:
  assumes "holds m h"
  shows "\<exists>h'. update ossl data h = Ret h' \<and> holds (m @ data) h' \<and> digest_size h' = digest_size h"
proof (cases "buffer_offset h = 0")
  case True
  then have "update_fill ossl data h = Ret (h, data)" by (simp add: update_fill_def)
  moreover have "n dvd length m"
    using True assms by (simp add: absorbed_def mod_eq_0_iff_dvd)
  ultimately show ?thesis
    using tail_holds [OF assms, of data] by (simp add: update_def)
next
  case False
  let ?r = "min (n - length m mod n) (length data)"
  from fill_holds [OF assms False refl, of data] obtain h1 where
    h1: "update_fill ossl data h = Ret (h1, drop ?r data)" "holds (m @ take ?r data) h1"
      "digest_size h1 = digest_size h"
    by blast
  show ?thesis
  proof (cases "?r = length data")
    case True
    have "update_blocks ossl [] h1 = Ret (h1, [])"
      using h1(2) block_pos by (subst update_blocks.simps) (simp add: absorbed_def)
    with h1 True show ?thesis by (simp add: update_def update_rest_def)
  next
    case False
    then have r: "?r = n - length m mod n" and "?r \<le> length data" by simp_all
    then have "length (m @ take ?r data) = length m + (n - length m mod n)" by simp
    also have "\<dots> = n * (length m div n) + n"
      using block_pos mult_div_mod_eq [of n "length m"] mod_less_divisor [of n "length m"] by linarith
    finally have "n dvd length (m @ take ?r data)" by simp
    from tail_holds [OF h1(2) this, of "drop ?r data"] h1(1,3) show ?thesis
      by (simp add: update_def)
  qed
qed

text \<open>
  What the finalize functions do with the object: the padding and the length field bring it to the
  end of a block, and the words then are those of the padded message.
\<close>

lemma finish_holds:
  assumes "holds m h" and "n dvd 2 ^ 64" and "A + l + 1 = 2 * n" and "l < n"
    and "len_field (8 * length m) = field"
  shows "\<exists>h' c. run_bind (pad_view n (1 + (A - unat (total_bytes h) mod block_size h) mod block_size h)) (\<lambda>pad.
      run_bind (update ossl pad h) (\<lambda>h1. update ossl field h1)) = Ret h' \<and>
    holds (md_pad n l len_field m) h' \<and> digest_size h' = digest_size h \<and> ctx h' = Some c \<and>
    map (ossl_h ossl c) [0..<k] = foldl compress iv (chunks n (md_pad n l len_field m))"
proof -
  let ?z = "pad_zeroes n l (length m)"
  have "block_size h = n" and "total_bytes h = of_nat (length m)"
    using assms(1) by (simp_all add: absorbed_def)
  then have "(A - unat (total_bytes h) mod block_size h) mod block_size h = ?z"
    using total_mod [OF assms(2)] pad_count_eq [OF block_pos assms(3,4)] by simp
  moreover have "?z < n"
    using pad_zeroes_correct [OF block_pos] by blast
  ultimately have pad: "pad_view n (1 + (A - unat (total_bytes h) mod block_size h) mod block_size h) =
      Ret (0x80 # replicate ?z 0)"
    by (simp only: pad_view_Suc)
  from update_holds [OF assms(1), of "0x80 # replicate ?z 0"] obtain h1 where
    h1: "update ossl (0x80 # replicate ?z 0) h = Ret h1" "holds (m @ 0x80 # replicate ?z 0) h1"
      "digest_size h1 = digest_size h"
    by blast
  from update_holds [OF h1(2), of field] obtain h2 where
    h2: "update ossl field h1 = Ret h2" "holds ((m @ 0x80 # replicate ?z 0) @ field) h2"
      "digest_size h2 = digest_size h"
    using h1(3) by auto
  have "(m @ 0x80 # replicate ?z 0) @ field = md_pad n l len_field m"
    by (simp add: md_pad_def assms(5))
  with h2(2) have "holds (md_pad n l len_field m) h2" by simp
  moreover then obtain c where "ctx h2 = Some c"
    "map (ossl_h ossl c) [0..<k] = foldl compress iv (chunks n (md_pad n l len_field m))"
    by (auto simp: absorbed_def)
  ultimately show ?thesis
    using pad h1(1) h2(1,3) by auto
qed

lemma words_reachable:
  assumes "\<And>b. b \<in> set bs \<Longrightarrow> length b = n"
  shows "\<exists>c. map (ossl_h ossl c) [0..<k] = foldl compress iv bs"
  using assms
proof (induction bs rule: rev_induct)
  case Nil
  show ?case using init_words by auto
next
  case (snoc b bs)
  then obtain c where "map (ossl_h ossl c) [0..<k] = foldl compress iv bs" by auto
  with transform_words [of b c] snoc.prems show ?case by auto
qed

lemma length_md_hash:
  assumes "\<And>v. length (store v) = w"
  shows "length (md_hash n l len_field iv compress store m) = w * k"
proof -
  obtain c where "map (ossl_h ossl c) [0..<k] = foldl compress iv (chunks n (md_pad n l len_field m))"
    using words_reachable chunks_lengths by blast
  then have "length (foldl compress iv (chunks n (md_pad n l len_field m))) = k"
    by (metis diff_zero length_map length_upt)
  then show ?thesis
    by (simp add: md_hash_def length_concat comp_def assms sum_list_triv)
qed

end

lemma store_words_eq:
  assumes "\<And>v. length (store v) = w"
  shows "store_words store (w * k) w k hs = concat (map store (map hs [0..<k]))"
  using foldl_memcpy_at [of "\<lambda>i. store (hs i)" w k 0] assms
  by (simp add: store_words_def comp_def)

end
