(* ===== verification/Hash_Classes.thy ===== *)
theory Hash_Classes
  imports Hasher
begin

section \<open>The hash classes over OpenSSL\<close>

text \<open>
  \<^verbatim>\<open>Sha1\<close>, \<^verbatim>\<open>Sha256\<close>, \<^verbatim>\<open>Sha512\<close> and \<^verbatim>\<open>Ripemd160\<close> of \<^verbatim>\<open>zen/core/crypto\<close>: constructor, destructor,
  \<open>init\<close> and \<open>finalize\<close> of each. Every class has its own thread local pool of contexts, so the
  constructor and \<open>init\<close> take and return the pool. The functions of \<open>endian.hpp\<close> are the record \<open>E\<close>.

  The locale \<open>hash_class\<close> is what the classes that build on a hash rely on. It is proved of the four
  classes, for every OpenSSL that meets \<open>openssl_digest\<close>.
\<close>

subsection \<open>Sha1\<close>

definition Sha1_init :: "('c, u32) Openssl \<Rightarrow> 'c ObjectPool \<times> 'c Hasher \<Rightarrow> 'c ObjectPool \<times> 'c Hasher" where
  "Sha1_init ossl = init_context ossl"

definition Sha1_new :: "('c, u32) Openssl \<Rightarrow> 'c ObjectPool \<Rightarrow> 'c ObjectPool \<times> 'c Hasher" where
  "Sha1_new ossl pool = init_context ossl (pool, new_Hasher 20 64)"

definition Sha1_from ::
  "('c, u32) Openssl \<Rightarrow> Bytes \<Rightarrow> 'c ObjectPool \<Rightarrow> ('c ObjectPool \<times> 'c Hasher) run" where
  "Sha1_from ossl initial_data pool =
     (let (pool1, h) = Sha1_new ossl pool in map_ret (Pair pool1) (update ossl initial_data h))"

definition Sha1_destroy :: "'c ObjectPool \<times> 'c Hasher \<Rightarrow> 'c ObjectPool" where
  "Sha1_destroy = release_context"

definition Sha1_finalize :: "('c, u32) Openssl \<Rightarrow> Endian_ops \<Rightarrow> 'c Hasher \<Rightarrow> (Bytes \<times> 'c Hasher) run" where
  "Sha1_finalize ossl E h =
     (let sizedesc = memcpy_at (replicate 8 0) 0 (store_big_u64 E (push_bit 3 (total_bytes h))) in
      run_bind
        (run_bind (pad_view 64 (1 + (119 - unat (total_bytes h) mod block_size h) mod block_size h)) (\<lambda>pad.
         run_bind (update ossl pad h) (\<lambda>h1. update ossl sizedesc h1))) (\<lambda>h2.
      case ctx h2 of
        None \<Rightarrow> Undef
      | Some c \<Rightarrow> Ret (store_words (store_big_u32 E) (digest_size h2) 4 5 (ossl_h ossl c), h2)))"

subsection \<open>Sha256\<close>

definition Sha256_init :: "('c, u32) Openssl \<Rightarrow> 'c ObjectPool \<times> 'c Hasher \<Rightarrow> 'c ObjectPool \<times> 'c Hasher" where
  "Sha256_init ossl = init_context ossl"

definition Sha256_new :: "('c, u32) Openssl \<Rightarrow> 'c ObjectPool \<Rightarrow> 'c ObjectPool \<times> 'c Hasher" where
  "Sha256_new ossl pool = init_context ossl (pool, new_Hasher 32 64)"

definition Sha256_from ::
  "('c, u32) Openssl \<Rightarrow> Bytes \<Rightarrow> 'c ObjectPool \<Rightarrow> ('c ObjectPool \<times> 'c Hasher) run" where
  "Sha256_from ossl initial_data pool =
     (let (pool1, h) = Sha256_new ossl pool in map_ret (Pair pool1) (update ossl initial_data h))"

definition Sha256_destroy :: "'c ObjectPool \<times> 'c Hasher \<Rightarrow> 'c ObjectPool" where
  "Sha256_destroy = release_context"

definition Sha256_finalize_nopadding ::
  "('c, u32) Openssl \<Rightarrow> Endian_ops \<Rightarrow> bool \<Rightarrow> 'c Hasher \<Rightarrow> Bytes run" where
  "Sha256_finalize_nopadding ossl E compression h =
     ZEN_ASSERT (compression \<longrightarrow> total_bytes h = of_nat (block_size h))
       (case ctx h of
          None \<Rightarrow> Undef
        | Some c \<Rightarrow> Ret (store_words (store_big_u32 E) (digest_size h) 4 8 (ossl_h ossl c)))"

definition Sha256_finalize :: "('c, u32) Openssl \<Rightarrow> Endian_ops \<Rightarrow> 'c Hasher \<Rightarrow> (Bytes \<times> 'c Hasher) run" where
  "Sha256_finalize ossl E h =
     (let sizedesc = memcpy_at (replicate 8 0) 0 (store_big_u64 E (push_bit 3 (total_bytes h))) in
      run_bind
        (run_bind (pad_view 64 (1 + (119 - unat (total_bytes h) mod block_size h) mod block_size h)) (\<lambda>pad.
         run_bind (update ossl pad h) (\<lambda>h1. update ossl sizedesc h1))) (\<lambda>h2.
      map_ret (\<lambda>d. (d, h2)) (Sha256_finalize_nopadding ossl E False h2)))"

subsection \<open>Sha512\<close>

definition Sha512_init :: "('c, u64) Openssl \<Rightarrow> 'c ObjectPool \<times> 'c Hasher \<Rightarrow> 'c ObjectPool \<times> 'c Hasher" where
  "Sha512_init ossl = init_context ossl"

definition Sha512_new :: "('c, u64) Openssl \<Rightarrow> 'c ObjectPool \<Rightarrow> 'c ObjectPool \<times> 'c Hasher" where
  "Sha512_new ossl pool = init_context ossl (pool, new_Hasher 64 128)"

definition Sha512_from ::
  "('c, u64) Openssl \<Rightarrow> Bytes \<Rightarrow> 'c ObjectPool \<Rightarrow> ('c ObjectPool \<times> 'c Hasher) run" where
  "Sha512_from ossl initial_data pool =
     (let (pool1, h) = Sha512_new ossl pool in map_ret (Pair pool1) (update ossl initial_data h))"

definition Sha512_destroy :: "'c ObjectPool \<times> 'c Hasher \<Rightarrow> 'c ObjectPool" where
  "Sha512_destroy = release_context"

definition Sha512_finalize_nopadding ::
  "('c, u64) Openssl \<Rightarrow> Endian_ops \<Rightarrow> bool \<Rightarrow> 'c Hasher \<Rightarrow> Bytes run" where
  "Sha512_finalize_nopadding ossl E compression h =
     ZEN_ASSERT (compression \<longrightarrow> total_bytes h = 128)
       (case ctx h of
          None \<Rightarrow> Undef
        | Some c \<Rightarrow> Ret (store_words (store_big_u64 E) (digest_size h) 8 8 (ossl_h ossl c)))"

definition Sha512_finalize :: "('c, u64) Openssl \<Rightarrow> Endian_ops \<Rightarrow> 'c Hasher \<Rightarrow> (Bytes \<times> 'c Hasher) run" where
  "Sha512_finalize ossl E h =
     (let sizedesc = memcpy_at (replicate 16 0) 8 (store_big_u64 E (push_bit 3 (total_bytes h))) in
      run_bind
        (run_bind (pad_view 128 (1 + (239 - unat (total_bytes h) mod block_size h) mod block_size h)) (\<lambda>pad.
         run_bind (update ossl pad h) (\<lambda>h1. update ossl sizedesc h1))) (\<lambda>h2.
      map_ret (\<lambda>d. (d, h2)) (Sha512_finalize_nopadding ossl E False h2)))"

subsection \<open>Ripemd160\<close>

definition Ripemd160_init :: "('c, u32) Openssl \<Rightarrow> 'c ObjectPool \<times> 'c Hasher \<Rightarrow> 'c ObjectPool \<times> 'c Hasher" where
  "Ripemd160_init ossl = init_context ossl"

definition Ripemd160_new :: "('c, u32) Openssl \<Rightarrow> 'c ObjectPool \<Rightarrow> 'c ObjectPool \<times> 'c Hasher" where
  "Ripemd160_new ossl pool = init_context ossl (pool, new_Hasher 20 64)"

definition Ripemd160_from ::
  "('c, u32) Openssl \<Rightarrow> Bytes \<Rightarrow> 'c ObjectPool \<Rightarrow> ('c ObjectPool \<times> 'c Hasher) run" where
  "Ripemd160_from ossl initial_data pool =
     (let (pool1, h) = Ripemd160_new ossl pool in map_ret (Pair pool1) (update ossl initial_data h))"

definition Ripemd160_destroy :: "'c ObjectPool \<times> 'c Hasher \<Rightarrow> 'c ObjectPool" where
  "Ripemd160_destroy = release_context"

definition Ripemd160_finalize :: "('c, u32) Openssl \<Rightarrow> Endian_ops \<Rightarrow> 'c Hasher \<Rightarrow> (Bytes \<times> 'c Hasher) run" where
  "Ripemd160_finalize ossl E h =
     (let sizedesc = memcpy_at (replicate 8 0) 0 (store_little_u64 E (push_bit 3 (total_bytes h))) in
      run_bind
        (run_bind (pad_view 64 (1 + (119 - unat (total_bytes h) mod block_size h) mod block_size h)) (\<lambda>pad.
         run_bind (update ossl pad h) (\<lambda>h1. update ossl sizedesc h1))) (\<lambda>h2.
      case ctx h2 of
        None \<Rightarrow> Undef
      | Some c \<Rightarrow> Ret (store_words (store_little_u32 E) (digest_size h2) 4 5 (ossl_h ossl c), h2)))"

subsection \<open>What the standards prescribe\<close>

text \<open>
  The four hash functions of a compression function and an initial value: block size, width and
  byte order of the length field and byte order of the digest.
\<close>

definition sha1_of :: "u32 list \<Rightarrow> (u32 list \<Rightarrow> Bytes \<Rightarrow> u32 list) \<Rightarrow> Bytes \<Rightarrow> Bytes" where
  "sha1_of iv compress = md_hash 64 8 (be_field 8) iv compress be_store"

definition sha256_of :: "u32 list \<Rightarrow> (u32 list \<Rightarrow> Bytes \<Rightarrow> u32 list) \<Rightarrow> Bytes \<Rightarrow> Bytes" where
  "sha256_of iv compress = md_hash 64 8 (be_field 8) iv compress be_store"

definition sha512_of :: "u64 list \<Rightarrow> (u64 list \<Rightarrow> Bytes \<Rightarrow> u64 list) \<Rightarrow> Bytes \<Rightarrow> Bytes" where
  "sha512_of iv compress = md_hash 128 16 (be_field 16) iv compress be_store"

definition ripemd160_of :: "u32 list \<Rightarrow> (u32 list \<Rightarrow> Bytes \<Rightarrow> u32 list) \<Rightarrow> Bytes \<Rightarrow> Bytes" where
  "ripemd160_of iv compress = md_hash 64 8 (le_nat 8) iv compress to_le"

subsection \<open>The contract of a hash class\<close>

record 'c Hash_class =
  hc_new :: "'c ObjectPool \<Rightarrow> 'c ObjectPool \<times> 'c Hasher"
  hc_init :: "'c ObjectPool \<times> 'c Hasher \<Rightarrow> 'c ObjectPool \<times> 'c Hasher"
  hc_update :: "Bytes \<Rightarrow> 'c Hasher \<Rightarrow> 'c Hasher run"
  hc_finalize :: "'c Hasher \<Rightarrow> (Bytes \<times> 'c Hasher) run"

definition Sha1_class :: "('c, u32) Openssl \<Rightarrow> Endian_ops \<Rightarrow> 'c Hash_class" where
  "Sha1_class ossl E = \<lparr>hc_new = Sha1_new ossl, hc_init = Sha1_init ossl, hc_update = update ossl,
     hc_finalize = Sha1_finalize ossl E\<rparr>"

definition Sha256_class :: "('c, u32) Openssl \<Rightarrow> Endian_ops \<Rightarrow> 'c Hash_class" where
  "Sha256_class ossl E = \<lparr>hc_new = Sha256_new ossl, hc_init = Sha256_init ossl, hc_update = update ossl,
     hc_finalize = Sha256_finalize ossl E\<rparr>"

definition Sha512_class :: "('c, u64) Openssl \<Rightarrow> Endian_ops \<Rightarrow> 'c Hash_class" where
  "Sha512_class ossl E = \<lparr>hc_new = Sha512_new ossl, hc_init = Sha512_init ossl, hc_update = update ossl,
     hc_finalize = Sha512_finalize ossl E\<rparr>"

definition Ripemd160_class :: "('c, u32) Openssl \<Rightarrow> Endian_ops \<Rightarrow> 'c Hash_class" where
  "Ripemd160_class ossl E = \<lparr>hc_new = Ripemd160_new ossl, hc_init = Ripemd160_init ossl,
     hc_update = update ossl, hc_finalize = Ripemd160_finalize ossl E\<rparr>"

text \<open>
  \<open>st m h\<close> says that \<open>h\<close> has been given the message \<open>m\<close>; \<open>H\<close> is the hash function, with blocks of \<open>n\<close>
  and digests of \<open>d\<close> bytes. \<open>init\<close> forgets the message of any object and does not touch the pool.
\<close>

locale hash_class =
  fixes K :: "'c Hash_class" and st :: "Bytes \<Rightarrow> 'c Hasher \<Rightarrow> bool" and H :: "Bytes \<Rightarrow> Bytes"
    and n d :: nat
  assumes sizes: "d \<le> n" "n < 2 ^ 60"
    and H_length: "length (H m) = d"
    and st_sizes: "st m h \<Longrightarrow> block_size h = n \<and> digest_size h = d"
    and new_law: "st [] (snd (hc_new K p))"
    and init_law: "st m h \<Longrightarrow> \<exists>h'. hc_init K (p, h) = (p, h') \<and> st [] h'"
    and update_law: "st m h \<Longrightarrow> \<exists>h'. hc_update K data h = Ret h' \<and> st (m @ data) h'"
    and finalize_law: "st m h \<Longrightarrow> length m < 2 ^ 61 \<Longrightarrow>
      \<exists>h' m'. hc_finalize K h = Ret (H m, h') \<and> st m' h'"
begin

text \<open>Feeding a message in pieces.\<close>

lemma updates_law:
  assumes "st m h"
  shows "\<exists>h'. each (hc_update K) ds (Ret h) = Ret h' \<and> st (m @ concat ds) h'"
  using assms
proof (induction ds arbitrary: m h)
  case (Cons d ds)
  from update_law [OF Cons.prems, of d] obtain h1 where
    h1: "hc_update K d h = Ret h1" "st (m @ d) h1" by blast
  from Cons.IH [OF h1(2)] h1(1) show ?case by simp
qed auto

lemma hash_pieces:
  assumes "length (concat ds) < 2 ^ 61"
  shows "\<exists>h'. run_bind (each (hc_update K) ds (Ret (snd (hc_new K p)))) (hc_finalize K) =
    Ret (H (concat ds), h')"
proof -
  from updates_law [OF new_law, of ds] obtain h1 where
    "each (hc_update K) ds (Ret (snd (hc_new K p))) = Ret h1"
    "st (concat ds) h1" by auto
  with finalize_law [of "concat ds" h1] assms show ?thesis by auto
qed

end

subsection \<open>The four classes meet the contract\<close>

context openssl_digest
begin

text \<open>
  The common argument: a class whose constructor, \<open>init\<close> and \<open>update\<close> are those of the base class,
  and whose \<open>finalize\<close> appends the padding with the length field \<open>sizedesc\<close> and stores the words.
\<close>

lemma hash_class_of:
  assumes n: "n dvd 2 ^ 64" "n < 2 ^ 60" "A + l + 1 = 2 * n" "l < n" "w * k \<le> n"
    and store: "\<And>v. length (store v) = w"
    and sizedesc: "\<And>m h. holds m h \<Longrightarrow> length m < 2 ^ 61 \<Longrightarrow> sizedesc h = len_field (8 * length m)"
    and K: "hc_new K = (\<lambda>p. init_context ossl (p, new_Hasher (w * k) n))"
      "hc_init K = init_context ossl" "hc_update K = update ossl"
    and fin: "\<And>h h' c. run_bind (pad_view n (1 + (A - unat (total_bytes h) mod block_size h) mod block_size h))
        (\<lambda>pad. run_bind (update ossl pad h) (\<lambda>h1. update ossl (sizedesc h) h1)) = Ret h' \<Longrightarrow>
      ctx h' = Some c \<Longrightarrow>
      hc_finalize K h = Ret (store_words store (digest_size h') w k (ossl_h ossl c), h')"
  shows "hash_class K (\<lambda>m h. holds m h \<and> digest_size h = w * k)
    (md_hash n l len_field iv compress store) n (w * k)"
proof unfold_locales
  show "w * k \<le> n" and "n < 2 ^ 60" by (rule n)+
  show "length (md_hash n l len_field iv compress store m) = w * k" for m
    using store by (rule length_md_hash)
  show "holds m h \<and> digest_size h = w * k \<Longrightarrow> block_size h = n \<and> digest_size h = w * k" for m h
    by (simp add: absorbed_def)
  show "holds [] (snd (hc_new K p)) \<and> digest_size (snd (hc_new K p)) = w * k" for p
    using holds_init [of "new_Hasher (w * k) n" p] n(2)
    by (simp add: K new_Hasher_def)
  show "\<exists>h'. hc_init K (p, h) = (p, h') \<and> holds [] h' \<and> digest_size h' = w * k"
    if "holds m h \<and> digest_size h = w * k" for m h p
  proof -
    from that obtain c where "block_size h = n" "length (hbuffer h) = n" "ctx h = Some c"
      by (auto simp: absorbed_def)
    with holds_init [of h p] n(2) init_context_pool [of h c ossl p] that show ?thesis
      unfolding K by (intro exI [of _ "snd (init_context ossl (p, h))"]) (simp add: prod_eq_iff)
  qed
  show "\<exists>h'. hc_update K data h = Ret h' \<and> holds (m @ data) h' \<and> digest_size h' = w * k"
    if "holds m h \<and> digest_size h = w * k" for m h data
    using update_holds [of m h data] that by (auto simp: K)
  show "\<exists>h' m'. hc_finalize K h = Ret (md_hash n l len_field iv compress store m, h') \<and>
      holds m' h' \<and> digest_size h' = w * k"
    if "holds m h \<and> digest_size h = w * k" and "length m < 2 ^ 61" for m h
  proof -
    from that(1) have m: "holds m h" by simp
    from finish_holds [where len_field = len_field, OF m n(1,3,4) sizedesc [OF m that(2), symmetric]] that(1)
    obtain h' c where h': "run_bind (pad_view n (1 + (A - unat (total_bytes h) mod block_size h) mod block_size h))
        (\<lambda>pad. run_bind (update ossl pad h) (\<lambda>h1. update ossl (sizedesc h) h1)) = Ret h'"
      "holds (md_pad n l len_field m) h'" "digest_size h' = w * k" "ctx h' = Some c"
      "map (ossl_h ossl c) [0..<k] = foldl compress iv (chunks n (md_pad n l len_field m))"
      by auto
    from fin [OF h'(1,4)] h'(3,5) store_words_eq [of store w k, OF store]
    have "hc_finalize K h = Ret (md_hash n l len_field iv compress store m, h')"
      by (simp add: md_hash_def)
    with h' show ?thesis by blast
  qed
qed

end

lemma length_be_store: "length (be_store (v :: 'a::len word)) = LENGTH('a) div 8"
  by (simp add: be_store_def)

lemma be_field_16:
  assumes "len < 2 ^ 61"
  shows "memcpy_at (replicate 16 0) 8 (be_store (push_bit 3 (of_nat len :: u64))) = be_field 16 (8 * len)"
proof -
  have "le_nat (a + b) v = le_nat a v @ le_nat b (v div 256 ^ a)" for a b v
    by (induction a arbitrary: v) (simp_all add: div_mult2_eq)
  from this [of 8 8 "8 * len"] assms have "le_nat 16 (8 * len) = le_nat 8 (8 * len) @ le_nat 8 0"
    by simp
  moreover have "le_nat b 0 = replicate b 0" for b
    by (induction b) simp_all
  ultimately show ?thesis
    unfolding be_store_bits by (simp add: be_field_def memcpy_at_def)
qed

lemma sizedesc_8:
  "memcpy_at (replicate 8 0) 0 (be_store (push_bit 3 (of_nat len :: u64))) = be_field 8 (8 * len)"
  "memcpy_at (replicate 8 0) 0 (to_le (push_bit 3 (of_nat len :: u64))) = le_nat 8 (8 * len)"
  by (simp_all add: be_store_bits le_store_bits memcpy_at_def be_field_def)

lemma store_fun:
  assumes "intx_endian E"
  shows "store_big_u32 E = be_store" and "store_big_u64 E = be_store" and "store_little_u32 E = to_le"
    and "store_little_u64 E = to_le"
  using intx_endian.store_big_eq [OF assms] intx_endian.store_little_eq [OF assms] by blast+

lemma Sha1_hash_class:
  assumes "openssl_digest ossl 5 64 iv compress" and "intx_endian E"
  shows "hash_class (Sha1_class ossl E) (\<lambda>m h. absorbed ossl 5 64 iv compress m h \<and> digest_size h = 20)
    (sha1_of iv compress) 64 20"
proof -
  have "hash_class (Sha1_class ossl E) (\<lambda>m h. absorbed ossl 5 64 iv compress m h \<and> digest_size h = 4 * 5)
    (md_hash 64 8 (be_field 8) iv compress be_store) 64 (4 * 5)"
    by (rule openssl_digest.hash_class_of [OF assms(1), where A = 119 and
          sizedesc = "\<lambda>h. memcpy_at (replicate 8 0) 0 (store_big_u64 E (push_bit 3 (total_bytes h)))"])
      (simp_all add: length_be_store Sha1_class_def Sha1_new_def Sha1_init_def Sha1_finalize_def 
        Let_def absorbed_def sizedesc_8 be_field_16 store_fun [OF assms(2)] fun_eq_iff
        del: run_bind_Ret_iff)
  then show ?thesis by (simp add: sha1_of_def)
qed

lemma Sha256_hash_class:
  assumes "openssl_digest ossl 8 64 iv compress" and "intx_endian E"
  shows "hash_class (Sha256_class ossl E) (\<lambda>m h. absorbed ossl 8 64 iv compress m h \<and> digest_size h = 32)
    (sha256_of iv compress) 64 32"
proof -
  have "hash_class (Sha256_class ossl E) (\<lambda>m h. absorbed ossl 8 64 iv compress m h \<and> digest_size h = 4 * 8)
    (md_hash 64 8 (be_field 8) iv compress be_store) 64 (4 * 8)"
    by (rule openssl_digest.hash_class_of [OF assms(1), where A = 119 and
          sizedesc = "\<lambda>h. memcpy_at (replicate 8 0) 0 (store_big_u64 E (push_bit 3 (total_bytes h)))"])
      (simp_all add: length_be_store Sha256_class_def Sha256_new_def Sha256_init_def Sha256_finalize_def Sha256_finalize_nopadding_def
        Let_def absorbed_def sizedesc_8 be_field_16 store_fun [OF assms(2)] fun_eq_iff
        del: run_bind_Ret_iff)
  then show ?thesis by (simp add: sha256_of_def)
qed

lemma Sha512_hash_class:
  assumes "openssl_digest ossl 8 128 iv compress" and "intx_endian E"
  shows "hash_class (Sha512_class ossl E) (\<lambda>m h. absorbed ossl 8 128 iv compress m h \<and> digest_size h = 64)
    (sha512_of iv compress) 128 64"
proof -
  have "hash_class (Sha512_class ossl E) (\<lambda>m h. absorbed ossl 8 128 iv compress m h \<and> digest_size h = 8 * 8)
    (md_hash 128 16 (be_field 16) iv compress be_store) 128 (8 * 8)"
    by (rule openssl_digest.hash_class_of [OF assms(1), where A = 239 and
          sizedesc = "\<lambda>h. memcpy_at (replicate 16 0) 8 (store_big_u64 E (push_bit 3 (total_bytes h)))"])
      (simp_all add: length_be_store Sha512_class_def Sha512_new_def Sha512_init_def Sha512_finalize_def Sha512_finalize_nopadding_def
        Let_def absorbed_def sizedesc_8 be_field_16 store_fun [OF assms(2)] fun_eq_iff
        del: run_bind_Ret_iff)
  then show ?thesis by (simp add: sha512_of_def)
qed

lemma Ripemd160_hash_class:
  assumes "openssl_digest ossl 5 64 iv compress" and "intx_endian E"
  shows "hash_class (Ripemd160_class ossl E) (\<lambda>m h. absorbed ossl 5 64 iv compress m h \<and> digest_size h = 20)
    (ripemd160_of iv compress) 64 20"
proof -
  have "hash_class (Ripemd160_class ossl E) (\<lambda>m h. absorbed ossl 5 64 iv compress m h \<and> digest_size h = 4 * 5)
    (md_hash 64 8 (le_nat 8) iv compress to_le) 64 (4 * 5)"
    by (rule openssl_digest.hash_class_of [OF assms(1), where A = 119 and
          sizedesc = "\<lambda>h. memcpy_at (replicate 8 0) 0 (store_little_u64 E (push_bit 3 (total_bytes h)))"])
      (simp_all add: length_be_store Ripemd160_class_def Ripemd160_new_def Ripemd160_init_def Ripemd160_finalize_def 
        Let_def absorbed_def sizedesc_8 be_field_16 store_fun [OF assms(2)] fun_eq_iff
        del: run_bind_Ret_iff)
  then show ?thesis by (simp add: ripemd160_of_def)
qed

subsection \<open>A sample block function\<close>

text \<open>A simple compression function of any number of words, to evaluate the classes on.\<close>

definition sample_compress :: "nat \<Rightarrow> 'a::len word list \<Rightarrow> Bytes \<Rightarrow> 'a word list" where
  "sample_compress k ws b = map (\<lambda>i. 3 * ws ! i + word_of_nat (nat_le (take i b))) [0..<k]"

definition sample_ossl :: "nat \<Rightarrow> ('a::len word list, 'a word) Openssl" where
  "sample_ossl k = \<lparr>ossl_new = [], ossl_init = (\<lambda>c. replicate k 1), ossl_transform = sample_compress k,
     ossl_h = (\<lambda>c i. c ! i)\<rparr>"

lemma sample_digest:
  assumes "0 < n"
  shows "openssl_digest (sample_ossl k) k n (replicate k 1) (sample_compress k)"
  using assms by unfold_locales (auto simp: sample_ossl_def sample_compress_def intro!: nth_equalityI)

end
