(* ===== verification/Sha256_Old.thy ===== *)
theory Sha256_Old
  imports Hash_Classes
begin

unbundle bit_operations_syntax

section \<open>The repository's own SHA-256\<close>

text \<open>
  \<^verbatim>\<open>zen/core/crypto/sha_2_256_old.cpp\<close>: a SHA-256 implementation without OpenSSL. The eight working
  variables are the tuple \<open>regs\<close>. Sixty-four calls of \<open>Round\<close>, in which the variables change their
  roles, are eight times the same eight lines with other constants (\<open>rounds8\<close>); the sixteen updates
  \<^verbatim>\<open>w0 += ...\<close> to \<^verbatim>\<open>w15 += ...\<close> that are interleaved with them do not depend on the working variables
  and are \<open>expand16\<close>. In the last two lines the code passes the sum without storing it, which no later
  line could see.

  The specification is FIPS 180-4: its logical functions with rotations, its message schedule as a
  recurrence, and its constants as the leading fractional bits of roots of primes. \<open>Transform\<close> is
  proved equal to the compression function of the standard, and the object to compute its hash.
\<close>

definition Ch :: "u32 \<Rightarrow> u32 \<Rightarrow> u32 \<Rightarrow> u32" where
  "Ch x y z = z XOR (x AND (y XOR z))"

definition Maj :: "u32 \<Rightarrow> u32 \<Rightarrow> u32 \<Rightarrow> u32" where
  "Maj x y z = (x AND y) OR (z AND (x OR y))"

definition Sigma0 :: "u32 \<Rightarrow> u32" where
  "Sigma0 x = (drop_bit 2 x OR push_bit 30 x) XOR (drop_bit 13 x OR push_bit 19 x) XOR
     (drop_bit 22 x OR push_bit 10 x)"

definition Sigma1 :: "u32 \<Rightarrow> u32" where
  "Sigma1 x = (drop_bit 6 x OR push_bit 26 x) XOR (drop_bit 11 x OR push_bit 21 x) XOR
     (drop_bit 25 x OR push_bit 7 x)"

definition sigma0 :: "u32 \<Rightarrow> u32" where
  "sigma0 x = (drop_bit 7 x OR push_bit 25 x) XOR (drop_bit 18 x OR push_bit 14 x) XOR drop_bit 3 x"

definition sigma1 :: "u32 \<Rightarrow> u32" where
  "sigma1 x = (drop_bit 17 x OR push_bit 15 x) XOR (drop_bit 19 x OR push_bit 13 x) XOR drop_bit 10 x"

text \<open>\<open>Round\<close> updates its reference parameters \<open>d\<close> and \<open>h\<close>: the result is their new values.\<close>

definition Round ::
  "u32 \<Rightarrow> u32 \<Rightarrow> u32 \<Rightarrow> u32 \<Rightarrow> u32 \<Rightarrow> u32 \<Rightarrow> u32 \<Rightarrow> u32 \<Rightarrow> u32 \<Rightarrow> u32 \<Rightarrow> u32 \<times> u32" where
  "Round a b c d e f g h k w =
     (let t1 = h + Sigma1 e + Ch e f g + k + w;
          t2 = Sigma0 a + Maj a b c
      in (d + t1, t1 + t2))"

definition Initialize :: "u32 list" where
  "Initialize =
     [0x6a09e667, 0xbb67ae85, 0x3c6ef372, 0xa54ff53a, 0x510e527f, 0x9b05688c, 0x1f83d9ab, 0x5be0cd19]"

type_synonym regs = "u32 \<times> u32 \<times> u32 \<times> u32 \<times> u32 \<times> u32 \<times> u32 \<times> u32"

definition rounds8 :: "u32 list \<Rightarrow> u32 list \<Rightarrow> regs \<Rightarrow> regs" where
  "rounds8 k w = (\<lambda>(a, b, c, d, e, f, g, h).
     let (d, h) = Round a b c d e f g h (k ! 0) (w ! 0);
        (c, g) = Round h a b c d e f g (k ! 1) (w ! 1);
        (b, f) = Round g h a b c d e f (k ! 2) (w ! 2);
        (a, e) = Round f g h a b c d e (k ! 3) (w ! 3);
        (h, d) = Round e f g h a b c d (k ! 4) (w ! 4);
        (g, c) = Round d e f g h a b c (k ! 5) (w ! 5);
        (f, b) = Round c d e f g h a b (k ! 6) (w ! 6);
        (e, a) = Round b c d e f g h a (k ! 7) (w ! 7)
      in (a, b, c, d, e, f, g, h))"

definition rounds16 :: "u32 list \<Rightarrow> u32 list \<Rightarrow> regs \<Rightarrow> regs" where
  "rounds16 k w v = rounds8 (drop 8 k) (drop 8 w) (rounds8 k w v)"

definition expand16 :: "u32 list \<Rightarrow> u32 list" where
  "expand16 w =
     (let w0 = w ! 0;
         w1 = w ! 1;
         w2 = w ! 2;
         w3 = w ! 3;
         w4 = w ! 4;
         w5 = w ! 5;
         w6 = w ! 6;
         w7 = w ! 7;
         w8 = w ! 8;
         w9 = w ! 9;
         w10 = w ! 10;
         w11 = w ! 11;
         w12 = w ! 12;
         w13 = w ! 13;
         w14 = w ! 14;
         w15 = w ! 15;
         w0 = w0 + (sigma1 w14 + w9 + sigma0 w1);
         w1 = w1 + (sigma1 w15 + w10 + sigma0 w2);
         w2 = w2 + (sigma1 w0 + w11 + sigma0 w3);
         w3 = w3 + (sigma1 w1 + w12 + sigma0 w4);
         w4 = w4 + (sigma1 w2 + w13 + sigma0 w5);
         w5 = w5 + (sigma1 w3 + w14 + sigma0 w6);
         w6 = w6 + (sigma1 w4 + w15 + sigma0 w7);
         w7 = w7 + (sigma1 w5 + w0 + sigma0 w8);
         w8 = w8 + (sigma1 w6 + w1 + sigma0 w9);
         w9 = w9 + (sigma1 w7 + w2 + sigma0 w10);
         w10 = w10 + (sigma1 w8 + w3 + sigma0 w11);
         w11 = w11 + (sigma1 w9 + w4 + sigma0 w12);
         w12 = w12 + (sigma1 w10 + w5 + sigma0 w13);
         w13 = w13 + (sigma1 w11 + w6 + sigma0 w14);
         w14 = w14 + (sigma1 w12 + w7 + sigma0 w15);
         w15 = w15 + (sigma1 w13 + w8 + sigma0 w0)
      in [w0, w1, w2, w3, w4, w5, w6, w7, w8, w9, w10, w11, w12, w13, w14, w15])"

definition k_rounds0 :: "u32 list" where
  "k_rounds0 =
     [0x428a2f98, 0x71374491, 0xb5c0fbcf, 0xe9b5dba5] @
      [0x3956c25b, 0x59f111f1, 0x923f82a4, 0xab1c5ed5] @
      [0xd807aa98, 0x12835b01, 0x243185be, 0x550c7dc3] @
      [0x72be5d74, 0x80deb1fe, 0x9bdc06a7, 0xc19bf174]"

definition k_rounds1 :: "u32 list" where
  "k_rounds1 =
     [0xe49b69c1, 0xefbe4786, 0x0fc19dc6, 0x240ca1cc] @
      [0x2de92c6f, 0x4a7484aa, 0x5cb0a9dc, 0x76f988da] @
      [0x983e5152, 0xa831c66d, 0xb00327c8, 0xbf597fc7] @
      [0xc6e00bf3, 0xd5a79147, 0x06ca6351, 0x14292967]"

definition k_rounds2 :: "u32 list" where
  "k_rounds2 =
     [0x27b70a85, 0x2e1b2138, 0x4d2c6dfc, 0x53380d13] @
      [0x650a7354, 0x766a0abb, 0x81c2c92e, 0x92722c85] @
      [0xa2bfe8a1, 0xa81a664b, 0xc24b8b70, 0xc76c51a3] @
      [0xd192e819, 0xd6990624, 0xf40e3585, 0x106aa070]"

definition k_rounds3 :: "u32 list" where
  "k_rounds3 =
     [0x19a4c116, 0x1e376c08, 0x2748774c, 0x34b0bcb5] @
      [0x391c0cb3, 0x4ed8aa4a, 0x5b9cca4f, 0x682e6ff3] @
      [0x748f82ee, 0x78a5636f, 0x84c87814, 0x8cc70208] @
      [0x90befffa, 0xa4506ceb, 0xbef9a3f7, 0xc67178f2]"

definition Transform :: "Endian_ops \<Rightarrow> u32 list \<Rightarrow> Bytes \<Rightarrow> u32 list" where
  "Transform E s chunk =
     (let v = (s ! 0, s ! 1, s ! 2, s ! 3, s ! 4, s ! 5, s ! 6, s ! 7);
          w = map (\<lambda>i. load_big_u32 E (take 4 (drop (4 * i) chunk))) [0..<16];
          v = rounds16 k_rounds0 w v;
          w = expand16 w;
          v = rounds16 k_rounds1 w v;
          w = expand16 w;
          v = rounds16 k_rounds2 w v;
          w = expand16 w;
          v = rounds16 k_rounds3 w v
      in case v of (a, b, c, d, e, f, g, h) \<Rightarrow>
        [s ! 0 + a, s ! 1 + b, s ! 2 + c, s ! 3 + d, s ! 4 + e, s ! 5 + f, s ! 6 + g, s ! 7 + h])"

text \<open>
  The class: state words, buffer and the count of bytes. The constructor leaves the buffer
  uninitialised; its contents are the parameter \<open>garbage\<close>.
\<close>

record Sha256Old =
  s_words :: "u32 list"
  buf :: Bytes
  bytes :: u64

definition new_Sha256Old :: "Bytes \<Rightarrow> Sha256Old" where
  "new_Sha256Old garbage = \<lparr>s_words = Initialize, buf = garbage, bytes = 0\<rparr>"

function write_chunks :: "Endian_ops \<Rightarrow> Bytes \<Rightarrow> Sha256Old \<Rightarrow> Sha256Old \<times> Bytes" where
  "write_chunks E data o1 =
     (if length data < 64 then (o1, data)
      else write_chunks E (drop 64 data)
        (o1\<lparr>s_words := Transform E (s_words o1) (take 64 data), bytes := bytes o1 + 64\<rparr>))"
  by pat_completeness auto
termination
  by (relation "measure (\<lambda>(E, data, o1). length data)") auto

declare write_chunks.simps [simp del]

definition write_fill :: "Endian_ops \<Rightarrow> Bytes \<Rightarrow> nat \<Rightarrow> Sha256Old \<Rightarrow> Sha256Old \<times> Bytes" where
  "write_fill E data bufsize o1 =
     (let b = memcpy_at (buf o1) bufsize (take (64 - bufsize) data) in
      (o1\<lparr>buf := b, bytes := bytes o1 + of_nat (64 - bufsize), s_words := Transform E (s_words o1) b\<rparr>,
       drop (64 - bufsize) data))"

definition write_rest :: "nat \<Rightarrow> Sha256Old \<times> Bytes \<Rightarrow> Sha256Old run" where
  "write_rest bufsize = (\<lambda>(o1, data).
     if data \<noteq> [] then
       if length (buf o1) < bufsize + length data then Undef
       else Ret (o1\<lparr>buf := memcpy_at (buf o1) bufsize data, bytes := bytes o1 + of_nat (length data)\<rparr>)
     else Ret o1)"

definition write_old :: "Endian_ops \<Rightarrow> Bytes \<Rightarrow> Sha256Old \<Rightarrow> Sha256Old run" where
  "write_old E data o1 =
     (let bufsize = unat (bytes o1) mod 64 in
      if bufsize \<noteq> 0 \<and> 64 \<le> wrap64 (bufsize + length data) then
        let (o2, data2) = write_fill E data bufsize o1 in
        write_rest 0 (write_chunks E data2 o2)
      else write_rest bufsize (write_chunks E data o1))"

definition FinalizeNoPadding :: "Endian_ops \<Rightarrow> bool \<Rightarrow> Sha256Old \<Rightarrow> Bytes run" where
  "FinalizeNoPadding E enforce_compression o1 =
     ZEN_ASSERT (enforce_compression \<longrightarrow> bytes o1 = 64)
       (Ret (store_words (store_big_u32 E) 32 4 8 (\<lambda>i. s_words o1 ! i)))"

definition FinalizeNoPadding_public :: "Endian_ops \<Rightarrow> Sha256Old \<Rightarrow> Bytes run" where
  "FinalizeNoPadding_public E o1 = FinalizeNoPadding E True o1"

definition Finalize :: "Endian_ops \<Rightarrow> Sha256Old \<Rightarrow> (Bytes \<times> Sha256Old) run" where
  "Finalize E o1 =
     (let sizedesc = store_big_u64 E (push_bit 3 (bytes o1)) in
      run_bind (pad_view 64 (1 + (119 - unat (bytes o1) mod 64) mod 64)) (\<lambda>pad.
      run_bind (write_old E pad o1) (\<lambda>o2.
      run_bind (write_old E sizedesc o2) (\<lambda>o3.
      map_ret (\<lambda>d. (d, o3)) (FinalizeNoPadding E False o3)))))"

definition Reset :: "Sha256Old \<Rightarrow> Sha256Old" where
  "Reset o1 = o1\<lparr>bytes := 0, s_words := Initialize\<rparr>"

subsection \<open>FIPS 180-4\<close>

definition fips_Ch :: "u32 \<Rightarrow> u32 \<Rightarrow> u32 \<Rightarrow> u32" where
  "fips_Ch x y z = (x AND y) XOR (NOT x AND z)"

definition fips_Maj :: "u32 \<Rightarrow> u32 \<Rightarrow> u32 \<Rightarrow> u32" where
  "fips_Maj x y z = (x AND y) XOR (x AND z) XOR (y AND z)"

definition fips_Sigma :: "nat \<Rightarrow> nat \<Rightarrow> nat \<Rightarrow> u32 \<Rightarrow> u32" where
  "fips_Sigma i j l x = word_rotr i x XOR word_rotr j x XOR word_rotr l x"

definition fips_sigma :: "nat \<Rightarrow> nat \<Rightarrow> nat \<Rightarrow> u32 \<Rightarrow> u32" where
  "fips_sigma i j l x = word_rotr i x XOR word_rotr j x XOR drop_bit l x"

fun fips_W :: "(nat \<Rightarrow> u32) \<Rightarrow> nat \<Rightarrow> u32" where
  "fips_W M t = (if t < 16 then M t
     else fips_sigma 17 19 10 (fips_W M (t - 2)) + fips_W M (t - 7) +
       fips_sigma 7 18 3 (fips_W M (t - 15)) + fips_W M (t - 16))"

declare fips_W.simps [simp del]

definition fips_step :: "regs \<Rightarrow> u32 \<times> u32 \<Rightarrow> regs" where
  "fips_step = (\<lambda>(a, b, c, d, e, f, g, h) (k, w).
     let T1 = h + fips_Sigma 6 11 25 e + fips_Ch e f g + k + w;
         T2 = fips_Sigma 2 13 22 a + fips_Maj a b c
     in (T1 + T2, a, b, c, d + T1, e, f, g))"

definition fips_K :: "u32 list" where
  "fips_K = k_rounds0 @ k_rounds1 @ k_rounds2 @ k_rounds3"

definition fips_word :: "Bytes \<Rightarrow> nat \<Rightarrow> u32" where
  "fips_word chunk i = word_of_nat (nat_be (take 4 (drop (4 * i) chunk)))"

definition fips_compress :: "u32 list \<Rightarrow> Bytes \<Rightarrow> u32 list" where
  "fips_compress s chunk =
     (case foldl fips_step (s ! 0, s ! 1, s ! 2, s ! 3, s ! 4, s ! 5, s ! 6, s ! 7)
        (zip fips_K (map (fips_W (fips_word chunk)) [0..<64])) of
        (a, b, c, d, e, f, g, h) \<Rightarrow>
          [s ! 0 + a, s ! 1 + b, s ! 2 + c, s ! 3 + d, s ! 4 + e, s ! 5 + f, s ! 6 + g, s ! 7 + h])"

lemma Ch_fips: "Ch x y z = fips_Ch x y z"
  by (rule bit_word_eqI) (auto simp: Ch_def fips_Ch_def bit_simps)

lemma Maj_fips: "Maj x y z = fips_Maj x y z"
  by (rule bit_word_eqI) (auto simp: Maj_def fips_Maj_def bit_simps)

lemma rotr_fips:
  assumes "0 < i" and "i < 32"
  shows "drop_bit i x OR push_bit (32 - i) x = word_rotr i (x :: u32)"
proof (rule bit_word_eqI)
  fix j
  assume "j < LENGTH(32)"
  then have j: "j < 32" by simp
  have "(j + i) mod 32 = (if j + i < 32 then j + i else j + i - 32)"
    using j assms by (simp add: mod_if)
  then show "bit (drop_bit i x OR push_bit (32 - i) x) j = bit (word_rotr i x) j"
    using j assms bit_imp_le_length [of x "j + i"]
    by (auto simp: bit_simps bit_word_rotr_iff add.commute [of i j])
qed

lemma Sigma_fips:
  "Sigma0 x = fips_Sigma 2 13 22 x" "Sigma1 x = fips_Sigma 6 11 25 x"
  "sigma0 x = fips_sigma 7 18 3 x" "sigma1 x = fips_sigma 17 19 10 x"
  using rotr_fips [of 2 x] rotr_fips [of 13 x] rotr_fips [of 22 x] rotr_fips [of 6 x]
    rotr_fips [of 11 x] rotr_fips [of 25 x] rotr_fips [of 7 x] rotr_fips [of 18 x]
    rotr_fips [of 17 x] rotr_fips [of 19 x]
  by (simp_all add: Sigma0_def Sigma1_def sigma0_def sigma1_def fips_Sigma_def fips_sigma_def)

text \<open>One step of the standard in terms of the code's \<open>Round\<close>.\<close>

lemma fips_step_Round:
  "fips_step (a, b, c, d, e, f, g, h) (k, w) =
     (case Round a b c d e f g h k w of (d', h') \<Rightarrow> (h', a, b, c, d', e, f, g))"
  by (simp add: fips_step_def Round_def Let_def Ch_fips Maj_fips Sigma_fips)

lemma list8:
  assumes "8 \<le> length xs"
  shows "take 8 xs = [xs ! 0, xs ! 1, xs ! 2, xs ! 3, xs ! 4, xs ! 5, xs ! 6, xs ! 7]"
  using assms by (intro nth_equalityI) (auto simp: nth_Cons less_Suc_eq numeral_eq_Suc split: nat.splits)

lemma rounds8_fips:
  assumes "8 \<le> length k" and "8 \<le> length w"
  shows "rounds8 k w v = foldl fips_step v (zip (take 8 k) (take 8 w))"
proof -
  obtain a b c d e f g h where v: "v = (a, b, c, d, e, f, g, h)" by (cases v) auto
  obtain d1 h1 where r0: "Round a b c d e f g h (k ! 0) (w ! 0) = (d1, h1)" by fastforce
  obtain c1 g1 where r1: "Round h1 a b c d1 e f g (k ! 1) (w ! 1) = (c1, g1)" by fastforce
  obtain b1 f1 where r2: "Round g1 h1 a b c1 d1 e f (k ! 2) (w ! 2) = (b1, f1)" by fastforce
  obtain a1 e1 where r3: "Round f1 g1 h1 a b1 c1 d1 e (k ! 3) (w ! 3) = (a1, e1)" by fastforce
  obtain h2 d2 where r4: "Round e1 f1 g1 h1 a1 b1 c1 d1 (k ! 4) (w ! 4) = (h2, d2)" by fastforce
  obtain g2 c2 where r5: "Round d2 e1 f1 g1 h2 a1 b1 c1 (k ! 5) (w ! 5) = (g2, c2)" by fastforce
  obtain f2 b2 where r6: "Round c2 d2 e1 f1 g2 h2 a1 b1 (k ! 6) (w ! 6) = (f2, b2)" by fastforce
  obtain e2 a2 where r7: "Round b2 c2 d2 e1 f2 g2 h2 a1 (k ! 7) (w ! 7) = (e2, a2)" by fastforce
  note rs = r0 r1 r2 r3 r4 r5 r6 r7
  show ?thesis
    unfolding v list8 [OF assms(1)] list8 [OF assms(2)]
    by (simp only: rounds8_def rs Let_def prod.case zip_Cons_Cons zip_Nil foldl.simps fips_step_Round)
qed

lemma rounds16_fips:
  assumes "length k = 16" and "length w = 16"
  shows "rounds16 k w v = foldl fips_step v (zip k w)"
proof -
  have "zip k w = zip (take 8 k) (take 8 w) @ zip (drop 8 k) (drop 8 w)"
    by (metis append_take_drop_id take_zip drop_zip)
  then show ?thesis
    using assms by (simp add: rounds16_def rounds8_fips)
qed

lemma fips_W_ge:
  "fips_W M (t + 16) = fips_W M t + (sigma1 (fips_W M (t + 14)) + fips_W M (t + 9) + sigma0 (fips_W M (t + 1)))"
  by (subst fips_W.simps) (simp add: Sigma_fips ac_simps)

lemma list16:
  "map f [t..<t + 16] = [f t, f (t + 1), f (t + 2), f (t + 3), f (t + 4), f (t + 5), f (t + 6), f (t + 7),
     f (t + 8), f (t + 9), f (t + 10), f (t + 11), f (t + 12), f (t + 13), f (t + 14), f (t + 15)]"
  by (simp add: numeral_eq_Suc upt_conv_Cons)

lemma expand16_fips:
  "expand16 (map (fips_W M) [t..<t + 16]) = map (fips_W M) [t + 16..<t + 32]"
proof -
  define V where "V i = fips_W M (t + i)" for i
  have V: "V (i + 16) = V i + (sigma1 (V (i + 14)) + V (i + 9) + sigma0 (V (i + 1)))" for i
    using fips_W_ge [of M "t + i"] by (simp add: V_def ac_simps)
  have shift: "map (fips_W M) [t + j..<t + j + 16] = map V [j..<j + 16]" for j
    by (intro nth_equalityI) (simp_all add: V_def ac_simps del: upt_Suc)
  note num = numeral_plus_numeral add_num_simps add_0_left one_plus_numeral numeral_plus_one one_add_one
  note v = V [of 0] V [of 1] V [of 2] V [of 3] V [of 4] V [of 5] V [of 6] V [of 7]
      V [of 8] V [of 9] V [of 10] V [of 11] V [of 12] V [of 13] V [of 14] V [of 15]
  have "expand16 (map V [0..<0 + 16]) = map V [16..<16 + 16]"
    unfolding list16 unfolding num
    by (simp add: expand16_def Let_def v [unfolded num, symmetric] del: One_nat_def)
  with shift [of 0] shift [of 16] show ?thesis by (simp add: add.commute del: upt_Suc)
qed

lemma upt_split: "i \<le> j \<Longrightarrow> j \<le> k \<Longrightarrow> [i..<k] = [i..<j] @ [j..<k]"
  by (metis le_iff_add upt_add_eq_append)

lemma load_fips_word:
  assumes "intx_endian E" and "length chunk = 64" and "i < 16"
  shows "load_big_u32 E (take 4 (drop (4 * i) chunk)) = fips_word chunk i"
proof -
  have "unat (load_big_u32 E (take 4 (drop (4 * i) chunk))) = nat_be (take 4 (drop (4 * i) chunk))"
    by (rule be_codec.load_value [OF intx_endian.big32 [OF assms(1)]]) (use assms in simp)
  then show ?thesis unfolding fips_word_def by (metis of_nat_unat ucast_id)
qed

lemma Transform_fips:
  assumes "intx_endian E" and "length chunk = 64"
  shows "Transform E s chunk = fips_compress s chunk"
proof -
  let ?W = "fips_W (fips_word chunk)"
  have w: "map (\<lambda>i. load_big_u32 E (take 4 (drop (4 * i) chunk))) [0..<16] = map ?W [0..<16]"
    by (rule map_cong [OF refl]) (simp add: load_fips_word [OF assms] fips_W.simps)
  have e: "expand16 (map ?W [0..<16]) = map ?W [16..<32]"
    "expand16 (map ?W [16..<32]) = map ?W [32..<48]"
    "expand16 (map ?W [32..<48]) = map ?W [48..<64]"
    using expand16_fips [of "fips_word chunk" 0] expand16_fips [of "fips_word chunk" 16]
      expand16_fips [of "fips_word chunk" 32] by simp_all
  have k: "length k_rounds0 = 16" "length k_rounds1 = 16" "length k_rounds2 = 16" "length k_rounds3 = 16"
    by (simp_all add: k_rounds0_def k_rounds1_def k_rounds2_def k_rounds3_def)
  have "[0..<64] = [0..<16] @ [16..<64::nat]" "[16..<64] = [16..<32] @ [32..<64::nat]"
    "[32..<64] = [32..<48] @ [48..<64::nat]"
    by (rule upt_split; simp)+
  then have "zip fips_K (map ?W [0..<64]) = zip k_rounds0 (map ?W [0..<16]) @ zip k_rounds1 (map ?W [16..<32]) @
      zip k_rounds2 (map ?W [32..<48]) @ zip k_rounds3 (map ?W [48..<64])"
    unfolding fips_K_def using k by (simp only: map_append zip_append length_map length_upt)
  with k show ?thesis
    unfolding Transform_def fips_compress_def w Let_def e
    by (simp del: upt_Suc add: rounds16_fips)
qed

subsection \<open>The object computes the hash of the bytes written\<close>

definition old_holds :: "Bytes \<Rightarrow> Sha256Old \<Rightarrow> bool" where
  "old_holds m o1 \<longleftrightarrow>
     length (buf o1) = 64 \<and> take (length m mod 64) (buf o1) = leftover 64 m \<and>
     bytes o1 = of_nat (length m) \<and> s_words o1 = foldl fips_compress Initialize (chunks 64 m)"

lemma old_holds_start:
  "length garbage = 64 \<Longrightarrow> old_holds [] (new_Sha256Old garbage)"
  "length (buf o1) = 64 \<Longrightarrow> old_holds [] (Reset o1)"
  by (simp_all add: old_holds_def new_Sha256Old_def Reset_def)

lemma write_chunks_words:
  assumes "intx_endian E"
  shows "write_chunks E data o1 =
    (o1\<lparr>s_words := foldl fips_compress (s_words o1) (chunks 64 data),
        bytes := bytes o1 + of_nat (length data - length data mod 64)\<rparr>, leftover 64 data)"
proof (induction "length data" arbitrary: data o1 rule: less_induct)
  case less
  show ?case
  proof (cases "length data < 64")
    case True
    then show ?thesis by (simp add: write_chunks.simps)
  next
    case False
    let ?d = "drop 64 data"
    have r: "length data mod 64 = length ?d mod 64"
      using False by (simp add: le_mod_geq)
    have "length data - length data mod 64 = 64 + (length ?d - length ?d mod 64)"
      unfolding r length_drop using False mod_less_eq_dividend [of "length data - 64" 64] by linarith
    then have tot: "(64 :: u64) + of_nat (length ?d - length ?d mod 64) =
        of_nat (length data - length data mod 64)"
      by (simp only: of_nat_add of_nat_numeral)
    from False less.hyps [of ?d] show ?thesis
      by (subst write_chunks.simps)
        (simp add: chunks_full leftover_drop Transform_fips [OF assms] tot [symmetric] add.assoc
          del: of_nat_diff)
  qed
qed

lemma of_nat_split_mod:
  "(of_nat (a - a mod n) :: u64) + of_nat (a mod n) = of_nat a"
  by (simp only: of_nat_add [symmetric]) simp

lemma old_tail:
  assumes "intx_endian E" and "old_holds m o1" and "64 dvd length m"
  shows "\<exists>o2. write_rest 0 (write_chunks E data o1) = Ret o2 \<and> old_holds (m @ data) o2"
proof -
  have len: "length (leftover 64 data) = length data mod 64"
    by (simp add: length_leftover)
  have app: "chunks 64 (m @ data) = chunks 64 m @ chunks 64 data" "leftover 64 (m @ data) = leftover 64 data"
    "length (m @ data) mod 64 = length data mod 64"
    using assms(3) by (auto simp: chunks_append leftover_append mod_add_left_eq elim!: dvdE)
  note ws = write_chunks_words [OF assms(1)]
  show ?thesis
  proof (cases "leftover 64 data = []")
    case True
    with len have "length data mod 64 = 0" by simp
    with True assms(2) app of_nat_split_mod [of "length data" 64] show ?thesis
      by (simp add: write_rest_def ws old_holds_def)
  next
    case False
    have "take (length (leftover 64 data)) (memcpy_at (buf o1) 0 (leftover 64 data)) = leftover 64 data"
      by (simp add: memcpy_at_def)
    with False assms(2) app of_nat_split_mod [of "length data" 64] len show ?thesis
      by (simp add: write_rest_def ws old_holds_def add.assoc del: of_nat_diff)
  qed
qed

lemma old_fill:
  assumes "intx_endian E" and "old_holds m o1" and "64 \<le> length m mod 64 + length data"
  shows "\<exists>o2. write_fill E data (length m mod 64) o1 = (o2, drop (64 - length m mod 64) data) \<and>
    old_holds (m @ take (64 - length m mod 64) data) o2"
proof -
  let ?q = "length m mod 64"
  let ?t = "take (64 - ?q) data"
  let ?b = "memcpy_at (buf o1) ?q ?t"
  have q: "?q < 64" by simp
  then have len: "length ?t = 64 - ?q" using assms(3) by simp
  have sum: "?q + length ?t = 64" unfolding len using q by linarith
  have o1: "length (buf o1) = 64" "take ?q (buf o1) = leftover 64 m"
    using assms(2) by (simp_all add: old_holds_def)
  then have fit: "?q + length ?t \<le> length (buf o1)" using sum by linarith
  have lb: "length ?b = 64" using length_memcpy_at [OF fit] o1(1) by simp
  have "?b = take (?q + length ?t) ?b" unfolding sum using lb by simp
  also have "\<dots> = leftover 64 m @ ?t" unfolding take_memcpy_at [OF fit] o1(2) ..
  finally have b: "?b = leftover 64 m @ ?t" .
  then have lt: "length (leftover 64 m @ ?t) = 64" using lb by simp
  have "chunks 64 (leftover 64 m @ ?t) = [leftover 64 m @ ?t]" "leftover 64 (leftover 64 m @ ?t) = []"
    by (rule chunks_one [OF _ lt], simp)+
  then have "chunks 64 (m @ ?t) = chunks 64 m @ [?b]" "leftover 64 (m @ ?t) = []"
    using chunks_leftover_append [of 64 m ?t] b by simp_all
  moreover have "length (m @ ?t) mod 64 = 0"
    using len by (metis calculation(2) length_leftover list.size(3) zero_less_numeral)
  ultimately show ?thesis
    using assms(2) lb len
    by (simp add: write_fill_def Let_def old_holds_def Transform_fips [OF assms(1)])
qed

lemma write_old_holds:
  assumes "intx_endian E" and "old_holds m o1" and "length data < 2 ^ 63"
  shows "\<exists>o2. write_old E data o1 = Ret o2 \<and> old_holds (m @ data) o2"
proof -
  let ?q = "length m mod 64"
  have "unat (bytes o1) mod 64 = ?q"
    using assms(2) total_mod [of 64 "length m"] by (simp add: old_holds_def)
  moreover have "wrap64 (?q + length data) = ?q + length data"
    using assms(3) by (intro wrap64_id) (simp add: less_imp_le order.strict_trans2)
  ultimately have eq: "write_old E data o1 =
      (if ?q \<noteq> 0 \<and> 64 \<le> ?q + length data then
         let (o2, data2) = write_fill E data ?q o1 in write_rest 0 (write_chunks E data2 o2)
       else write_rest ?q (write_chunks E data o1))"
    by (simp add: write_old_def Let_def)
  consider (full) "?q \<noteq> 0" "64 \<le> ?q + length data" | (aligned) "?q = 0" | (short) "?q \<noteq> 0" "?q + length data < 64"
    by linarith
  then show ?thesis
  proof cases
    case full
    from old_fill [OF assms(1,2) full(2)] obtain o2 where
      o2: "write_fill E data ?q o1 = (o2, drop (64 - ?q) data)" "old_holds (m @ take (64 - ?q) data) o2"
      by blast
    have "length (m @ take (64 - ?q) data) = 64 * (length m div 64) + 64"
      using full mult_div_mod_eq [of 64 "length m"] mod_less_divisor [of 64 "length m"] by (simp; linarith)
    then have "64 dvd length (m @ take (64 - ?q) data)" by simp
    from old_tail [OF assms(1) o2(2) this, of "drop (64 - ?q) data"] full o2(1) show ?thesis
      unfolding eq by simp
  next
    case aligned
    then have "64 dvd length m" by (simp add: mod_eq_0_iff_dvd)
    from old_tail [OF assms(1,2) this, of data] aligned show ?thesis unfolding eq by simp
  next
    case short
    have "length (leftover 64 m @ data) < 64"
      using short(2) by (simp add: length_leftover)
    then have app: "chunks 64 (m @ data) = chunks 64 m" "leftover 64 (m @ data) = leftover 64 m @ data"
      using chunks_leftover_append [of 64 m data] by simp_all
    have w: "write_chunks E data o1 = (o1, data)"
      using short by (subst write_chunks.simps) simp
    have modeq: "length (m @ data) mod 64 = ?q + length data"
      using short(2) by (metis length_append mod_add_left_eq mod_less)
    have "take (?q + length data) (memcpy_at (buf o1) ?q data) = leftover 64 m @ data"
      and "length (memcpy_at (buf o1) ?q data) = 64"
      using take_memcpy_at [of ?q data "buf o1"] length_memcpy_at [of ?q data "buf o1"] assms(2) short
      by (simp_all add: old_holds_def)
    moreover have "write_old E data o1 = write_rest ?q (o1, data)"
      unfolding eq w using short by simp
    ultimately show ?thesis
      using short assms(2) app modeq by (cases "data = []") (simp_all add: write_rest_def old_holds_def)
  qed
qed

definition sha256_fips :: "Bytes \<Rightarrow> Bytes" where
  "sha256_fips = sha256_of Initialize fips_compress"

lemma length_fips_compress [simp]: "length (fips_compress s c) = 8"
  by (simp add: fips_compress_def split: prod.splits)

lemma length_fold_compress: "length (foldl fips_compress Initialize cs) = 8"
  by (induction cs rule: rev_induct) (simp_all add: Initialize_def)

lemma map_nth_8: "length xs = 8 \<Longrightarrow> map (\<lambda>i. xs ! i) [0..<8] = xs"
  by (rule nth_equalityI) simp_all

lemma Finalize_keeps:
  assumes "intx_endian E" and "old_holds m o1"
  shows "\<exists>o2. Finalize E o1 = Ret (sha256_fips m, o2) \<and> length (buf o2) = 64"
proof -
  let ?z = "pad_zeroes 64 8 (length m)" and ?size = "store_big_u64 E (push_bit 3 (bytes o1))"
  have bytes: "bytes o1 = of_nat (length m)" using assms(2) by (simp add: old_holds_def)
  have "(119 - unat (bytes o1) mod 64) mod 64 = ?z"
    using total_mod [of 64 "length m"] pad_count_eq [of 64 119 8 "length m"] by (simp add: bytes)
  moreover have "?z < 64" using pad_zeroes_correct [of 64 "length m" 8] by simp
  ultimately have pad: "pad_view 64 (1 + (119 - unat (bytes o1) mod 64) mod 64) =
      Ret (0x80 # replicate ?z 0)"
    by (simp only: pad_view_Suc)
  from write_old_holds [OF assms, of "0x80 # replicate ?z 0"] \<open>?z < 64\<close> obtain o2 where
    o2: "write_old E (0x80 # replicate ?z 0) o1 = Ret o2" "old_holds (m @ 0x80 # replicate ?z 0) o2"
    by auto
  have size: "?size = be_field 8 (8 * length m)"
    by (simp add: store_fun(2) [OF assms(1)] bytes be_store_bits)
  from write_old_holds [OF assms(1) o2(2), of ?size] obtain o3 where
    o3: "write_old E ?size o2 = Ret o3" "old_holds ((m @ 0x80 # replicate ?z 0) @ ?size) o3"
    by (auto simp: size be_field_def)
  have "s_words o3 = foldl fips_compress Initialize (chunks 64 (md_pad 64 8 (be_field 8) m))"
    using o3(2) by (simp add: old_holds_def md_pad_def size)
  moreover have "store_words be_store (4 * 8) 4 8 (\<lambda>i. s_words o3 ! i) =
      concat (map be_store (map (\<lambda>i. s_words o3 ! i) [0..<8]))"
    by (rule store_words_eq) (simp add: length_be_store)
  ultimately have "store_words be_store (4 * 8) 4 8 (\<lambda>i. s_words o3 ! i) = sha256_fips m"
    by (simp only: sha256_fips_def sha256_of_def md_hash_def map_nth_8 length_fold_compress)
  then have "FinalizeNoPadding E False o3 = Ret (sha256_fips m)"
    by (simp add: FinalizeNoPadding_def store_fun(1) [OF assms(1)])
  with pad o2(1) o3 show ?thesis by (simp add: Finalize_def Let_def old_holds_def)
qed

lemma Finalize_holds: "intx_endian E \<Longrightarrow> old_holds m o1 \<Longrightarrow> \<exists>o2. Finalize E o1 = Ret (sha256_fips m, o2)"
  using Finalize_keeps [of E m o1] by blast

lemma writes_old_holds:
  assumes "intx_endian E" and "old_holds m o1" and "list_all (\<lambda>d. length d < 2 ^ 63) ds"
  shows "\<exists>o2. each (write_old E) ds (Ret o1) = Ret o2 \<and> old_holds (m @ concat ds) o2"
  using assms(2,3)
proof (induction ds arbitrary: m o1)
  case (Cons d ds)
  then obtain o2 where "write_old E d o1 = Ret o2" "old_holds (m @ d) o2"
    using write_old_holds [OF assms(1)] by force
  with Cons.IH [of "m @ d" o2] Cons.prems(2) show ?case by simp
qed auto

text \<open>The repository's own transform as a block function for the hash classes.\<close>

definition own_transform :: "Endian_ops \<Rightarrow> (u32 list, u32) Openssl" where
  "own_transform E = \<lparr>ossl_new = replicate 8 0, ossl_init = (\<lambda>c. Initialize),
     ossl_transform = Transform E, ossl_h = (\<lambda>c i. c ! i)\<rparr>"

lemma fips_compress_cong: "fips_compress (map (\<lambda>i. c ! i) [0..<8]) b = fips_compress c b"
proof -
  have "map (\<lambda>i. c ! i) [0..<8] ! i = c ! i" if "i < 8" for i
    using that by simp
  then show ?thesis by (simp only: fips_compress_def)
qed

lemma own_transform_digest:
  assumes "intx_endian E"
  shows "openssl_digest (own_transform E) 8 64 Initialize fips_compress"
proof
  show "map (ossl_h (own_transform E) (ossl_init (own_transform E) c)) [0..<8] = Initialize" for c
    unfolding own_transform_def by (simp del: upt_Suc add: map_nth_8 Initialize_def)
  show "map (ossl_h (own_transform E) (ossl_transform (own_transform E) c b)) [0..<8] =
      fips_compress (map (ossl_h (own_transform E) c) [0..<8]) b" if "length b = 64" for b c
    using that unfolding own_transform_def
    by (simp del: upt_Suc add: map_nth_8 fips_compress_cong Transform_fips [OF assms])
qed simp

interpretation own_sha256: openssl_digest "own_transform reference_endian" 8 64 Initialize fips_compress
  by (rule own_transform_digest) (rule ref_endian.intx_endian_axioms)

interpretation sha256_class: hash_class "Sha256_class (own_transform reference_endian) reference_endian"
  "\<lambda>m h. absorbed (own_transform reference_endian) 8 64 Initialize fips_compress m h \<and> digest_size h = 32"
  sha256_fips 64 32
  unfolding sha256_fips_def
  by (rule Sha256_hash_class) (rule own_sha256.openssl_digest_axioms, rule ref_endian.intx_endian_axioms)

subsection \<open>Constants\<close>

text \<open>
  \<open>c\<close> is the first 32 bits of the fractional part of the \<open>r\<close>-th root of \<open>p\<close>, \<open>q\<close> the integral part:
  \<open>q + c / 2 ^ 32\<close> is the root rounded down to 32 binary places.
\<close>

definition frac_root :: "nat \<Rightarrow> nat \<Rightarrow> u32 \<Rightarrow> bool" where
  "frac_root r p c \<longleftrightarrow>
     (let q = length (filter (\<lambda>q. q ^ r \<le> p) [1, 2, 3, 4, 5, 6]); x = q * 2 ^ 32 + unat c in
      x ^ r \<le> p * 2 ^ (32 * r) \<and> p * 2 ^ (32 * r) < (x + 1) ^ r)"

definition primes_311 :: "nat list" where
  "primes_311 =
     [2, 3, 5, 7, 11, 13, 17, 19, 23, 29, 31, 37, 41, 43, 47, 53,
      59, 61, 67, 71, 73, 79, 83, 89, 97, 101, 103, 107, 109, 113, 127, 131,
      137, 139, 149, 151, 157, 163, 167, 173, 179, 181, 191, 193, 197, 199, 211, 223,
      227, 229, 233, 239, 241, 251, 257, 263, 269, 271, 277, 281, 283, 293, 307, 311]"

lemma k_roots0: "list_all2 (frac_root 3) (take 16 primes_311) k_rounds0"
  by (simp add: primes_311_def k_rounds0_def frac_root_def)

lemma k_roots1: "list_all2 (frac_root 3) (take 16 (drop 16 primes_311)) k_rounds1"
  by (simp add: primes_311_def k_rounds1_def frac_root_def)

lemma k_roots2: "list_all2 (frac_root 3) (take 16 (drop 32 primes_311)) k_rounds2"
  by (simp add: primes_311_def k_rounds2_def frac_root_def)

lemma k_roots3: "list_all2 (frac_root 3) (drop 48 primes_311) k_rounds3"
  by (simp add: primes_311_def k_rounds3_def frac_root_def)

lemma init_roots: "list_all2 (frac_root 2) (take 8 primes_311) Initialize"
  by (simp add: primes_311_def Initialize_def frac_root_def)

subsection \<open>Properties\<close>

text \<open>
  C1: \<open>Transform\<close>, with its sixty-four unrolled rounds and its in-place message schedule, is the
  compression function of FIPS 180-4: for every state and every 64-byte block, over any big endian
  load.
\<close>

theorem Transform_is_fips_compression:
  assumes "intx_endian E" and "length chunk = 64"
  shows "Transform E s chunk = fips_compress s chunk"
  using assms by (rule Transform_fips)

theorem Transform_is_fips_compression_witness:
  "Transform reference_endian Initialize (replicate 64 1) = fips_compress Initialize (replicate 64 1)"
  by (rule Transform_is_fips_compression) (simp_all add: ref_endian.intx_endian_axioms)

text \<open>
  the sixty-four round constants in the code are the first 32 bits of the fractional parts of
  the cube roots of the first 64 primes, and the initial words those of the square roots of the
  first eight, as the standard defines them.
\<close>

theorem sha256_constants:
  "list_all2 (frac_root 3) primes_311 (k_rounds0 @ k_rounds1 @ k_rounds2 @ k_rounds3) \<and>
   list_all2 (frac_root 2) (take 8 primes_311) Initialize"
proof -
  have "primes_311 = take 16 primes_311 @ take 16 (drop 16 primes_311) @ take 16 (drop 32 primes_311) @
      drop 48 primes_311"
    by (simp add: primes_311_def)
  then show ?thesis
    using k_roots0 k_roots1 k_roots2 k_roots3 init_roots by (metis list_all2_appendI)
qed

text \<open>
  C4: writing a message to a \<open>Sha256Old\<close> object in any pieces, whatever its uninitialised buffer
  held, and finalizing returns the FIPS 180-4 SHA-256 digest of the whole message; the same holds for
  a used object after \<open>Reset\<close>.
\<close>

theorem Sha256Old_digest:
  assumes "intx_endian E" and "length (buf used) = 64" and "list_all (\<lambda>d. length d < 2 ^ 63) ds"
  shows "(\<exists>o2. run_bind (each (write_old E) ds (Ret (new_Sha256Old (buf used)))) (Finalize E) =
      Ret (sha256_fips (concat ds), o2)) \<and>
    (\<exists>o2. run_bind (each (write_old E) ds (Ret (Reset used))) (Finalize E) =
      Ret (sha256_fips (concat ds), o2))"
proof -
  have "\<exists>o2. run_bind (each (write_old E) ds (Ret o1)) (Finalize E) =
      Ret (sha256_fips (concat ds), o2)" if "old_holds [] o1" for o1
    using writes_old_holds [OF assms(1) that assms(3)] Finalize_holds [OF assms(1)] by auto
  with old_holds_start assms(2) show ?thesis by blast
qed

theorem Sha256Old_digest_witness:
  "(\<exists>o2. run_bind (each (write_old reference_endian) [[1, 2], [3]]
      (Ret (new_Sha256Old (replicate 64 7)))) (Finalize reference_endian) = Ret (sha256_fips [1, 2, 3], o2))"
  using Sha256Old_digest [of reference_endian "new_Sha256Old (replicate 64 7)" "[[1, 2], [3]]"]
  by (simp add: new_Sha256Old_def ref_endian.intx_endian_axioms)

text \<open>
  C2: for an OpenSSL whose SHA-256 functions follow FIPS 180-4, a \<open>Sha256\<close> object that is given a
  message in any pieces returns its FIPS digest, whatever contexts the pool holds: it agrees with
  the \<open>Sha256Old\<close> object given the message in any other pieces.
\<close>

theorem Sha256_agrees_with_Sha256Old:
  assumes "openssl_digest ossl 8 64 Initialize fips_compress" and "intx_endian E"
    and "length garbage = 64" and "length (concat ds) < 2 ^ 61" and "concat es = concat ds"
  shows "\<exists>h o2. run_bind (each (update ossl) ds (Ret (snd (Sha256_new ossl pool))))
      (Sha256_finalize ossl E) = Ret (sha256_fips (concat ds), h) \<and>
    run_bind (each (write_old E) es (Ret (new_Sha256Old garbage))) (Finalize E) =
      Ret (sha256_fips (concat ds), o2)"
proof -
  from hash_class.hash_pieces [OF Sha256_hash_class [OF assms(1,2)] assms(4), of pool]
  obtain h where "run_bind (each (update ossl) ds (Ret (snd (Sha256_new ossl pool))))
      (Sha256_finalize ossl E) = Ret (sha256_fips (concat ds), h)"
    by (auto simp: Sha256_class_def sha256_fips_def)
  moreover have "list_all (\<lambda>d. length d < 2 ^ 63) es"
    using length_le_concat [of _ es] assms(4,5) by (fastforce simp: list_all_iff)
  from writes_old_holds [OF assms(2) old_holds_start(1) [OF assms(3)] this] Finalize_holds [OF assms(2)] assms(5)
  have "\<exists>o2. run_bind (each (write_old E) es (Ret (new_Sha256Old garbage))) (Finalize E) =
      Ret (sha256_fips (concat ds), o2)"
    by auto
  ultimately show ?thesis by blast
qed

theorem Sha256_agrees_with_Sha256Old_witness:
  "\<exists>h o2. run_bind (each (update (own_transform reference_endian)) [[1, 2], [3]]
      (Ret (snd (Sha256_new (own_transform reference_endian) (new_ObjectPool False)))))
      (Sha256_finalize (own_transform reference_endian) reference_endian) =
        Ret (sha256_fips (concat [[1, 2], [3]]), h) \<and>
    run_bind (each (write_old reference_endian) [[1], [2, 3]]
      (Ret (new_Sha256Old (replicate 64 0)))) (Finalize reference_endian) =
        Ret (sha256_fips (concat [[1, 2], [3]]), o2)"
  by (rule Sha256_agrees_with_Sha256Old)
    (simp_all add: own_sha256.openssl_digest_axioms ref_endian.intx_endian_axioms)

end
