(* ===== verification/Hash_Composed.thy ===== *)
theory Hash_Composed
  imports Sha256_Old
begin

unbundle bit_operations_syntax

section \<open>Hashes built from hashes\<close>

text \<open>
  \<^verbatim>\<open>Hash256\<close> (double SHA-256), \<^verbatim>\<open>Hash160\<close> (RIPEMD-160 of SHA-256) and the template \<^verbatim>\<open>Hmac\<close> of
  \<^verbatim>\<open>zen/core/crypto\<close>. \<open>Hash256\<close> and \<open>Hash160\<close> derive from \<open>Hasher\<close> but use only its two sizes: their
  \<open>base\<close> part, which never owns a context. \<open>Hmac\<close> is a template over the class of its inner and outer
  hash, here the record \<open>Hash_class\<close> of the class's operations, on which it relies through the contract
  \<open>hash_class\<close>. The specification of \<open>Hmac\<close> is RFC 2104.
\<close>

subsection \<open>Hash256\<close>

record 'c Hash256 =
  base256 :: "'c Hasher"
  hasher256 :: "'c Hasher"

definition Hash256_new :: "('c, u32) Openssl \<Rightarrow> 'c ObjectPool \<Rightarrow> 'c ObjectPool \<times> 'c Hash256" where
  "Hash256_new ossl pool =
     (let (pool1, h) = Sha256_new ossl pool in (pool1, \<lparr>base256 = new_Hasher 32 64, hasher256 = h\<rparr>))"

definition Hash256_init :: "('c, u32) Openssl \<Rightarrow> 'c ObjectPool \<times> 'c Hash256 \<Rightarrow> 'c ObjectPool \<times> 'c Hash256" where
  "Hash256_init ossl = (\<lambda>(pool, x).
     let (pool1, h) = Sha256_init ossl (pool, hasher256 x) in (pool1, x\<lparr>hasher256 := h\<rparr>))"

definition Hash256_update :: "('c, u32) Openssl \<Rightarrow> Bytes \<Rightarrow> 'c Hash256 \<Rightarrow> 'c Hash256 run" where
  "Hash256_update ossl data x = map_ret (\<lambda>h. x\<lparr>hasher256 := h\<rparr>) (update ossl data (hasher256 x))"

definition Hash256_init_data ::
  "('c, u32) Openssl \<Rightarrow> Bytes \<Rightarrow> 'c ObjectPool \<times> 'c Hash256 \<Rightarrow> ('c ObjectPool \<times> 'c Hash256) run" where
  "Hash256_init_data ossl initial_data st =
     (let (pool1, x1) = Hash256_init ossl st in map_ret (Pair pool1) (Hash256_update ossl initial_data x1))"

definition Hash256_from ::
  "('c, u32) Openssl \<Rightarrow> Bytes \<Rightarrow> 'c ObjectPool \<Rightarrow> ('c ObjectPool \<times> 'c Hash256) run" where
  "Hash256_from ossl initial_data pool = Hash256_init_data ossl initial_data (Hash256_new ossl pool)"

definition Hash256_finalize ::
  "('c, u32) Openssl \<Rightarrow> Endian_ops \<Rightarrow> 'c ObjectPool \<times> 'c Hash256 \<Rightarrow> (Bytes \<times> 'c ObjectPool \<times> 'c Hash256) run" where
  "Hash256_finalize ossl E = (\<lambda>(pool, x).
     run_bind (Sha256_finalize ossl E (hasher256 x)) (\<lambda>(buffer, h1).
     let (pool1, h2) = Sha256_init ossl (pool, h1) in
     run_bind (update ossl buffer h2) (\<lambda>h3.
     map_ret (\<lambda>(ret, h4). (ret, pool1, x\<lparr>hasher256 := h4\<rparr>)) (Sha256_finalize ossl E h3))))"

subsection \<open>Hash160\<close>

record 'c Hash160 =
  base160 :: "'c Hasher"
  hasher160 :: "'c Hasher"

definition Hash160_new :: "('c, u32) Openssl \<Rightarrow> 'c ObjectPool \<Rightarrow> 'c ObjectPool \<times> 'c Hash160" where
  "Hash160_new ossl pool =
     (let (pool1, h) = Sha256_new ossl pool in (pool1, \<lparr>base160 = new_Hasher 20 64, hasher160 = h\<rparr>))"

definition Hash160_init :: "('c, u32) Openssl \<Rightarrow> 'c ObjectPool \<times> 'c Hash160 \<Rightarrow> 'c ObjectPool \<times> 'c Hash160" where
  "Hash160_init ossl = (\<lambda>(pool, x).
     let (pool1, h) = Sha256_init ossl (pool, hasher160 x) in (pool1, x\<lparr>hasher160 := h\<rparr>))"

definition Hash160_update :: "('c, u32) Openssl \<Rightarrow> Bytes \<Rightarrow> 'c Hash160 \<Rightarrow> 'c Hash160 run" where
  "Hash160_update ossl data x = map_ret (\<lambda>h. x\<lparr>hasher160 := h\<rparr>) (update ossl data (hasher160 x))"

definition Hash160_init_data ::
  "('c, u32) Openssl \<Rightarrow> Bytes \<Rightarrow> 'c ObjectPool \<times> 'c Hash160 \<Rightarrow> ('c ObjectPool \<times> 'c Hash160) run" where
  "Hash160_init_data ossl initial_data st =
     (let (pool1, x1) = Hash160_init ossl st in map_ret (Pair pool1) (Hash160_update ossl initial_data x1))"

definition Hash160_from ::
  "('c, u32) Openssl \<Rightarrow> Bytes \<Rightarrow> 'c ObjectPool \<Rightarrow> ('c ObjectPool \<times> 'c Hash160) run" where
  "Hash160_from ossl initial_data pool = Hash160_init_data ossl initial_data (Hash160_new ossl pool)"

text \<open>
  \<open>finalize\<close> builds a local \<open>Ripemd160\<close> object from the SHA-256 digest; its destructor gives the
  context back to the RIPEMD-160 pool.
\<close>

definition Hash160_finalize ::
  "('c, u32) Openssl \<Rightarrow> ('r, u32) Openssl \<Rightarrow> Endian_ops \<Rightarrow> 'r ObjectPool \<times> 'c Hash160 \<Rightarrow>
   (Bytes \<times> 'r ObjectPool \<times> 'c Hash160) run" where
  "Hash160_finalize ossl rip E = (\<lambda>(rpool, x).
     run_bind (Sha256_finalize ossl E (hasher160 x)) (\<lambda>(buffer, h1).
     run_bind (Ripemd160_from rip buffer rpool) (\<lambda>(rpool1, hasher2).
     map_ret (\<lambda>(ret, hasher2). (ret, Ripemd160_destroy (rpool1, hasher2), x\<lparr>hasher160 := h1\<rparr>))
       (Ripemd160_finalize rip E hasher2))))"

subsection \<open>Hmac\<close>

record 'c Hmac =
  inner :: "'c Hasher"
  outer :: "'c Hasher"

definition Hmac_new :: "'c Hash_class \<Rightarrow> 'c ObjectPool \<Rightarrow> 'c ObjectPool \<times> 'c Hmac" where
  "Hmac_new K pool =
     (let (pool1, i) = hc_new K pool; (pool2, o1) = hc_new K pool1
      in (pool2, \<lparr>inner = i, outer = o1\<rparr>))"

text \<open>The key replaced by its digest when it is longer than a block, and the reset inner hash.\<close>

definition Hmac_key ::
  "'c Hash_class \<Rightarrow> Bytes \<Rightarrow> 'c ObjectPool \<times> 'c Hasher \<Rightarrow> (Bytes \<times> 'c ObjectPool \<times> 'c Hasher) run" where
  "Hmac_key K initial_data = (\<lambda>(pool, i).
     if length initial_data > block_size i then
       run_bind (hc_update K initial_data i) (\<lambda>i1.
       map_ret (\<lambda>(rkey, i2). (rkey, hc_init K (pool, i2))) (hc_finalize K i1))
     else Ret (initial_data, pool, i))"

definition Hmac_init ::
  "'c Hash_class \<Rightarrow> Bytes \<Rightarrow> 'c ObjectPool \<times> 'c Hmac \<Rightarrow> ('c ObjectPool \<times> 'c Hmac) run" where
  "Hmac_init K initial_data = (\<lambda>(pool, x).
     let (pool1, i) = hc_init K (pool, inner x); (pool2, o1) = hc_init K (pool1, outer x) in
     run_bind (Hmac_key K initial_data (pool2, i)) (\<lambda>(rkey, pool3, i1).
     let n = block_size i1;
         rkey = take n rkey @ replicate (n - length rkey) 0;
         rkey = map (\<lambda>b. b XOR 0x5c) rkey in
     run_bind (hc_update K rkey o1) (\<lambda>o2.
     let rkey = map (\<lambda>b. b XOR (0x5c XOR 0x36)) rkey in
     map_ret (\<lambda>i2. (pool3, \<lparr>inner = i2, outer = o2\<rparr>)) (hc_update K rkey i1))))"

definition Hmac_from :: "'c Hash_class \<Rightarrow> Bytes \<Rightarrow> 'c ObjectPool \<Rightarrow> ('c ObjectPool \<times> 'c Hmac) run" where
  "Hmac_from K initial_data pool = Hmac_init K initial_data (Hmac_new K pool)"

definition Hmac_init_string ::
  "'c Hash_class \<Rightarrow> string \<Rightarrow> 'c ObjectPool \<times> 'c Hmac \<Rightarrow> ('c ObjectPool \<times> 'c Hmac) run" where
  "Hmac_init_string K initial_data = Hmac_init K (string_view_to_byte_view initial_data)"

definition Hmac_update :: "'c Hash_class \<Rightarrow> Bytes \<Rightarrow> 'c Hmac \<Rightarrow> 'c Hmac run" where
  "Hmac_update K data x = map_ret (\<lambda>i. x\<lparr>inner := i\<rparr>) (hc_update K data (inner x))"

definition Hmac_finalize :: "'c Hash_class \<Rightarrow> 'c Hmac \<Rightarrow> (Bytes \<times> 'c Hmac) run" where
  "Hmac_finalize K x =
     run_bind (hc_finalize K (inner x)) (\<lambda>(d, i).
     run_bind (hc_update K d (outer x)) (\<lambda>o1.
     map_ret (\<lambda>(ret, o2). (ret, \<lparr>inner = i, outer = o2\<rparr>)) (hc_finalize K o1)))"

subsection \<open>RFC 2104\<close>

definition hmac_key :: "(Bytes \<Rightarrow> Bytes) \<Rightarrow> nat \<Rightarrow> Bytes \<Rightarrow> Bytes" where
  "hmac_key H n key = (let k = (if length key > n then H key else key) in k @ replicate (n - length k) 0)"

definition hmac :: "(Bytes \<Rightarrow> Bytes) \<Rightarrow> nat \<Rightarrow> Bytes \<Rightarrow> Bytes \<Rightarrow> Bytes" where
  "hmac H n key text =
     H (map (\<lambda>b. b XOR 0x5c) (hmac_key H n key) @ H (map (\<lambda>b. b XOR 0x36) (hmac_key H n key) @ text))"

context hash_class
begin

lemma Hmac_key_law:
  assumes "st [] i" and "length key < 2 ^ 61"
  shows "\<exists>i'. Hmac_key K key (p, i) = Ret (if length key > n then H key else key, p, i') \<and> st [] i'"
proof (cases "length key > n")
  case True
  from update_law [OF assms(1), of key] obtain i1 where
    i1: "hc_update K key i = Ret i1" "st key i1" by auto
  from finalize_law [OF i1(2) assms(2)] obtain i2 m where
    i2: "hc_finalize K i1 = Ret (H key, i2)" "st m i2" by blast
  from init_law [OF i2(2), of p] i1 i2 True st_sizes [OF assms(1)] show ?thesis
    by (auto simp: Hmac_key_def)
next
  case False
  with assms(1) st_sizes [OF assms(1)] show ?thesis by (simp add: Hmac_key_def)
qed

text \<open>\<open>init\<close> brings any object, fresh or used, to the state that has absorbed the two padded keys.\<close>

lemma Hmac_init_law:
  assumes "st a (inner x)" and "st b (outer x)" and "length key < 2 ^ 61"
  shows "\<exists>x'. Hmac_init K key (p, x) = Ret (p, x') \<and>
    st (map (\<lambda>b. b XOR 0x36) (hmac_key H n key)) (inner x') \<and>
    st (map (\<lambda>b. b XOR 0x5c) (hmac_key H n key)) (outer x')"
proof -
  let ?k = "hmac_key H n key"
  from init_law [OF assms(1), of p] obtain i where i: "hc_init K (p, inner x) = (p, i)" "st [] i" by blast
  from init_law [OF assms(2), of p] obtain o1 where o1: "hc_init K (p, outer x) = (p, o1)" "st [] o1" by blast
  from Hmac_key_law [OF i(2) assms(3), of p] obtain i' where
    i': "Hmac_key K key (p, i) = Ret (if length key > n then H key else key, p, i')" "st [] i'" by blast
  have len: "length (if length key > n then H key else key) \<le> n"
    using sizes H_length by auto
  then have k: "take n (if length key > n then H key else key) @
      replicate (n - length (if length key > n then H key else key)) 0 = ?k"
    by (simp add: hmac_key_def Let_def)
  have x: "map (\<lambda>b. b XOR (0x5c XOR 0x36)) (map (\<lambda>b. b XOR 0x5c) ?k) = map (\<lambda>b. b XOR (0x36 :: byte)) ?k"
    by (simp add: comp_def xor.assoc)
  from update_law [OF o1(2), of "map (\<lambda>b. b XOR 0x5c) ?k"] obtain o2 where
    o2: "hc_update K (map (\<lambda>b. b XOR 0x5c) ?k) o1 = Ret o2" "st (map (\<lambda>b. b XOR 0x5c) ?k) o2" by auto
  from update_law [OF i'(2), of "map (\<lambda>b. b XOR 0x36) ?k"] obtain i2 where
    i2: "hc_update K (map (\<lambda>b. b XOR 0x36) ?k) i' = Ret i2" "st (map (\<lambda>b. b XOR 0x36) ?k) i2" by auto
  have "Hmac_init K key (p, x) = Ret (p, \<lparr>inner = i2, outer = o2\<rparr>)"
    unfolding Hmac_init_def Let_def prod.case i(1) o1(1) i'(1) run_bind.simps
      conjunct1 [OF st_sizes [OF i'(2)]] k x o2(1) i2(1) map_ret.simps ..
  with i2 o2 show ?thesis by simp
qed

lemma Hmac_digest_law:
  assumes "st a (inner x)" and "st b (outer x)" and "length key < 2 ^ 61"
    and "length (concat ds) < 2 ^ 60"
  shows "\<exists>x'. run_bind (Hmac_init K key (p, x)) (\<lambda>(p', x1).
      run_bind (each (Hmac_update K) ds (Ret x1)) (Hmac_finalize K)) =
    Ret (hmac H n key (concat ds), x')"
proof -
  let ?k = "hmac_key H n key"
  have klen: "length ?k = n"
    using sizes H_length by (auto simp: hmac_key_def Let_def)
  from Hmac_init_law [OF assms(1-3), of p] obtain x1 where
    x1: "Hmac_init K key (p, x) = Ret (p, x1)" "st (map (\<lambda>b. b XOR 0x36) ?k) (inner x1)"
      "st (map (\<lambda>b. b XOR 0x5c) ?k) (outer x1)" by blast
  from updates_law [OF x1(2), of ds] each_member [of "Hmac_update K" "\<lambda>i x. x\<lparr>inner := i\<rparr>" "hc_update K" inner ds x1]
  obtain i where
    i: "each (Hmac_update K) ds (Ret x1) = Ret (x1\<lparr>inner := i\<rparr>)"
      "st (map (\<lambda>b. b XOR 0x36) ?k @ concat ds) i"
    by (auto simp: Hmac_update_def)
  from finalize_law [OF i(2)] klen sizes assms(4) obtain i2 where
    i2: "hc_finalize K i = Ret (H (map (\<lambda>b. b XOR 0x36) ?k @ concat ds), i2)" by auto
  let ?d = "H (map (\<lambda>b. b XOR 0x36) ?k @ concat ds)"
  from update_law [OF x1(3), of ?d] obtain o1 where
    o1: "hc_update K ?d (outer x1) = Ret o1" "st (map (\<lambda>b. b XOR 0x5c) ?k @ ?d) o1" by blast
  from finalize_law [OF o1(2)] klen sizes H_length obtain o2 where
    "hc_finalize K o1 = Ret (H (map (\<lambda>b. b XOR 0x5c) ?k @ ?d), o2)" by auto
  with x1(1) i(1) i2 o1(1) show ?thesis
    by (simp add: Hmac_finalize_def hmac_def)
qed

end

lemma Hmac_pieces:
  assumes "hash_class K st H n d" and "length key < 2 ^ 61" and "length (concat ds) < 2 ^ 60"
  shows "\<exists>x. run_bind (Hmac_from K key pool) (\<lambda>(p, x1).
      run_bind (each (Hmac_update K) ds (Ret x1)) (Hmac_finalize K)) =
    Ret (hmac H n key (concat ds), x)"
proof -
  obtain p x where x: "Hmac_new K pool = (p, x)" by fastforce
  then have "st [] (inner x)" and "st [] (outer x)"
    using hash_class.new_law [OF assms(1)]
    by (auto simp: Hmac_new_def Let_def split: prod.splits dest: arg_cong [where f = snd])
      (metis snd_conv)+
  from hash_class.Hmac_digest_law [OF assms(1) this assms(2,3)] show ?thesis
    by (simp add: Hmac_from_def x)
qed

subsection \<open>Properties\<close>

text \<open>
  C3: \<open>Hmac<Sha256>\<close> computes the RFC 2104 authentication code: constructed from any key (longer
  than a block or not) and given a text in any pieces, it returns \<open>H (K xor opad, H (K xor ipad, text))\<close>
  where \<open>H\<close> is SHA-256.
\<close>

theorem Hmac256_rfc2104:
  assumes "openssl_digest ossl 8 64 iv compress" and "intx_endian E"
    and "length key < 2 ^ 61" and "length (concat ds) < 2 ^ 60"
  shows "\<exists>x. run_bind (Hmac_from (Sha256_class ossl E) key pool) (\<lambda>(p, x1).
      run_bind (each (Hmac_update (Sha256_class ossl E)) ds (Ret x1))
        (Hmac_finalize (Sha256_class ossl E))) =
    Ret (hmac (sha256_of iv compress) 64 key (concat ds), x)"
  using Hmac_pieces [OF Sha256_hash_class [OF assms(1,2)] assms(3,4)] .

theorem Hmac256_rfc2104_witness:
  "\<exists>x. run_bind (Hmac_from (Sha256_class (own_transform reference_endian) reference_endian)
        (replicate 65 1) (new_ObjectPool False)) (\<lambda>(p, x1).
      run_bind (each (Hmac_update (Sha256_class (own_transform reference_endian) reference_endian))
        [[1], [2, 3]] (Ret x1)) (Hmac_finalize (Sha256_class (own_transform reference_endian) reference_endian))) =
    Ret (hmac (sha256_of Initialize fips_compress) 64 (replicate 65 1) (concat [[1], [2, 3]]), x)"
  by (rule Hmac256_rfc2104)
    (simp_all add: own_sha256.openssl_digest_axioms ref_endian.intx_endian_axioms)

text \<open>
  \<open>Hmac<Sha512>\<close> computes the RFC 2104 authentication code with SHA-512 and its 128-byte blocks.
\<close>

theorem Hmac512_rfc2104:
  assumes "openssl_digest ossl 8 128 iv compress" and "intx_endian E"
    and "length key < 2 ^ 61" and "length (concat ds) < 2 ^ 60"
  shows "\<exists>x. run_bind (Hmac_from (Sha512_class ossl E) key pool) (\<lambda>(p, x1).
      run_bind (each (Hmac_update (Sha512_class ossl E)) ds (Ret x1))
        (Hmac_finalize (Sha512_class ossl E))) =
    Ret (hmac (sha512_of iv compress) 128 key (concat ds), x)"
  using Hmac_pieces [OF Sha512_hash_class [OF assms(1,2)] assms(3,4)] .

theorem Hmac512_rfc2104_witness:
  "\<exists>x. run_bind (Hmac_from (Sha512_class (sample_ossl 8) reference_endian)
        (replicate 65 1) (new_ObjectPool False)) (\<lambda>(p, x1).
      run_bind (each (Hmac_update (Sha512_class (sample_ossl 8) reference_endian))
        [[1], [2, 3]] (Ret x1)) (Hmac_finalize (Sha512_class (sample_ossl 8) reference_endian))) =
    Ret (hmac (sha512_of (replicate 8 1) (sample_compress 8)) 128 (replicate 65 1) (concat [[1], [2, 3]]), x)"
  by (rule Hmac512_rfc2104) (simp_all add: sample_digest ref_endian.intx_endian_axioms)

text \<open>
  a \<open>Sha512\<close> object that is given a message in any pieces returns the FIPS 180-4 digest of the
  whole message: the chaining value of the padded message, with its 128-bit length field, whatever contexts the pool holds.
\<close>

theorem Sha512_digest:
  assumes "openssl_digest ossl 8 128 iv compress" and "intx_endian E" and "length (concat ds) < 2 ^ 61"
  shows "\<exists>h. run_bind (each (update ossl) ds (Ret (snd (Sha512_new ossl pool))))
      (Sha512_finalize ossl E) = Ret (sha512_of iv compress (concat ds), h)"
  using hash_class.hash_pieces [OF Sha512_hash_class [OF assms(1,2)] assms(3), of pool]
  by (simp add: Sha512_class_def)

theorem Sha512_digest_witness:
  "\<exists>h. run_bind (each (update (sample_ossl 8)) [[1], [2, 3]]
      (Ret (snd (Sha512_new (sample_ossl 8 :: (u64 list, u64) Openssl) (new_ObjectPool False)))))
      (Sha512_finalize (sample_ossl 8) reference_endian) =
    Ret (sha512_of (replicate 8 1) (sample_compress 8) (concat [[1], [2, 3]]), h)"
  by (rule Sha512_digest) (simp_all add: sample_digest ref_endian.intx_endian_axioms)

text \<open>
  a \<open>Ripemd160\<close> object that is given a message in any pieces returns the RIPEMD-160 digest of the
  whole message: the chaining value of the padded message, with little endian length and words, whatever contexts the pool holds.
\<close>

theorem Ripemd160_digest:
  assumes "openssl_digest ossl 5 64 iv compress" and "intx_endian E" and "length (concat ds) < 2 ^ 61"
  shows "\<exists>h. run_bind (each (update ossl) ds (Ret (snd (Ripemd160_new ossl pool))))
      (Ripemd160_finalize ossl E) = Ret (ripemd160_of iv compress (concat ds), h)"
  using hash_class.hash_pieces [OF Ripemd160_hash_class [OF assms(1,2)] assms(3), of pool]
  by (simp add: Ripemd160_class_def)

theorem Ripemd160_digest_witness:
  "\<exists>h. run_bind (each (update (sample_ossl 5)) [[1], [2, 3]]
      (Ret (snd (Ripemd160_new (sample_ossl 5 :: (u32 list, u32) Openssl) (new_ObjectPool False)))))
      (Ripemd160_finalize (sample_ossl 5) reference_endian) =
    Ret (ripemd160_of (replicate 5 1) (sample_compress 5) (concat [[1], [2, 3]]), h)"
  by (rule Ripemd160_digest) (simp_all add: sample_digest ref_endian.intx_endian_axioms)

text \<open>
  a \<open>Sha1\<close> object that is given a message in any pieces returns the FIPS 180-4 digest of the
  whole message: the chaining value of the padded message, whatever contexts the pool holds.
\<close>

theorem Sha1_digest:
  assumes "openssl_digest ossl 5 64 iv compress" and "intx_endian E" and "length (concat ds) < 2 ^ 61"
  shows "\<exists>h. run_bind (each (update ossl) ds (Ret (snd (Sha1_new ossl pool))))
      (Sha1_finalize ossl E) = Ret (sha1_of iv compress (concat ds), h)"
  using hash_class.hash_pieces [OF Sha1_hash_class [OF assms(1,2)] assms(3), of pool]
  by (simp add: Sha1_class_def)

theorem Sha1_digest_witness:
  "\<exists>h. run_bind (each (update (sample_ossl 5)) [[1], [2, 3]]
      (Ret (snd (Sha1_new (sample_ossl 5 :: (u32 list, u32) Openssl) (new_ObjectPool False)))))
      (Sha1_finalize (sample_ossl 5) reference_endian) =
    Ret (sha1_of (replicate 5 1) (sample_compress 5) (concat [[1], [2, 3]]), h)"
  by (rule Sha1_digest) (simp_all add: sample_digest ref_endian.intx_endian_axioms)

lemma Hash256_digest:
  assumes K: "hash_class (Sha256_class ossl E) st H n k" and "st m (hasher256 x)"
    and "length (m @ concat ds) < 2 ^ 61"
  shows "\<exists>x'. run_bind (each (Hash256_update ossl) ds (Ret x)) (\<lambda>x2. Hash256_finalize ossl E (p, x2)) =
    Ret (H (H (m @ concat ds)), p, x')"
proof -
  let ?m = "m @ concat ds"
  note upd = hash_class.update_law [OF K, unfolded Sha256_class_def Hash_class.simps]
    and fin = hash_class.finalize_law [OF K, unfolded Sha256_class_def Hash_class.simps]
    and ini = hash_class.init_law [OF K, unfolded Sha256_class_def Hash_class.simps]
  from hash_class.updates_law [OF K assms(2), of ds]
    each_member [of "Hash256_update ossl" "\<lambda>h x. x\<lparr>hasher256 := h\<rparr>" "update ossl" hasher256 ds x]
  obtain h2 where h2: "each (Hash256_update ossl) ds (Ret x) = Ret (x\<lparr>hasher256 := h2\<rparr>)" "st ?m h2"
    by (auto simp: Hash256_update_def Sha256_class_def)
  from fin [OF h2(2) assms(3)] obtain h3 m3 where
    h3: "Sha256_finalize ossl E h2 = Ret (H ?m, h3)" "st m3 h3" by blast
  from ini [OF h3(2), of p] obtain h4 where h4: "Sha256_init ossl (p, h3) = (p, h4)" "st [] h4" by blast
  from upd [OF h4(2), of "H ?m"] obtain h5 where
    h5: "update ossl (H ?m) h4 = Ret h5" "st (H ?m) h5" by auto
  from fin [OF h5(2)] hash_class.H_length [OF K] hash_class.sizes [OF K] obtain h6 where
    h6: "Sha256_finalize ossl E h5 = Ret (H (H ?m), h6)" by auto
  from h2(1) h3(1) h4(1) h5(1) h6 show ?thesis
    by (simp add: Hash256_finalize_def)
qed

lemma Hash160_digest:
  assumes K: "hash_class (Sha256_class ossl E) st H n k" and R: "hash_class (Ripemd160_class rip E) st' G n' k'"
    and "st m (hasher160 x)" and "length (m @ concat ds) < 2 ^ 61"
  shows "\<exists>x' p'. run_bind (each (Hash160_update ossl) ds (Ret x)) (\<lambda>x2. Hash160_finalize ossl rip E (p, x2)) =
    Ret (G (H (m @ concat ds)), p', x')"
proof -
  let ?m = "m @ concat ds"
  from hash_class.updates_law [OF K assms(3), of ds]
    each_member [of "Hash160_update ossl" "\<lambda>h x. x\<lparr>hasher160 := h\<rparr>" "update ossl" hasher160 ds x]
  obtain h2 where h2: "each (Hash160_update ossl) ds (Ret x) = Ret (x\<lparr>hasher160 := h2\<rparr>)" "st ?m h2"
    by (auto simp: Hash160_update_def Sha256_class_def)
  from hash_class.finalize_law [OF K h2(2) assms(4)] obtain h3 where
    h3: "Sha256_finalize ossl E h2 = Ret (H ?m, h3)"
    by (auto simp: Sha256_class_def)
  obtain p1 r1 where r1: "Ripemd160_new rip p = (p1, r1)" by fastforce
  then have "st' [] r1"
    using hash_class.new_law [OF R, of p] by (simp add: Ripemd160_class_def)
  from hash_class.update_law [OF R this, of "H ?m"] obtain r2 where
    r2: "update rip (H ?m) r1 = Ret r2" "st' (H ?m) r2"
    by (auto simp: Ripemd160_class_def)
  from hash_class.finalize_law [OF R r2(2)] hash_class.H_length [OF K] hash_class.sizes [OF K] obtain r3 where
    r3: "Ripemd160_finalize rip E r2 = Ret (G (H ?m), r3)"
    by (auto simp: Ripemd160_class_def)
  from h2(1) h3 r1 r2(1) r3 show ?thesis
    by (simp add: Hash160_finalize_def Ripemd160_from_def)
qed

lemma Sha256_init_update:
  assumes K: "hash_class (Sha256_class ossl E) st H n k"
  shows "\<exists>h. Sha256_init ossl (Sha256_new ossl pool) = (fst (Sha256_new ossl pool), h) \<and>
    (\<exists>h1. update ossl d h = Ret h1 \<and> st d h1)"
proof -
  have "st [] (snd (Sha256_new ossl pool))"
    using hash_class.new_law [OF K, of pool] by (simp add: Sha256_class_def)
  from hash_class.init_law [OF K this, of "fst (Sha256_new ossl pool)"] obtain h where
    "Sha256_init ossl (Sha256_new ossl pool) = (fst (Sha256_new ossl pool), h)" "st [] h"
    by (auto simp: Sha256_class_def)
  with hash_class.update_law [OF K, of "[]" h d] show ?thesis by (auto simp: Sha256_class_def)
qed

text \<open>
  C14: \<open>Hash256\<close> is SHA-256 applied twice: an object constructed from a part of the message and given
  the rest in pieces returns the digest of the digest, and leaves the context pool as its
  constructor left it.
\<close>

theorem Hash256_double:
  assumes "openssl_digest ossl 8 64 iv compress" and "intx_endian E" and "length (concat (d # ds)) < 2 ^ 61"
  shows "\<exists>x. run_bind (Hash256_from ossl d pool) (\<lambda>(p, x1).
      run_bind (each (Hash256_update ossl) ds (Ret x1)) (\<lambda>x2. Hash256_finalize ossl E (p, x2))) =
    Ret (sha256_of iv compress (sha256_of iv compress (concat (d # ds))), fst (Hash256_new ossl pool), x)"
proof -
  note K = Sha256_hash_class [OF assms(1,2)]
  let ?p = "fst (Sha256_new ossl pool)"
  from Sha256_init_update [OF K, of pool d] obtain h h1 where
    h: "Sha256_init ossl (Sha256_new ossl pool) = (?p, h)" "update ossl d h = Ret h1"
      "absorbed ossl 8 64 iv compress d h1 \<and> digest_size h1 = 32" by blast
  then have "Hash256_from ossl d pool = Ret (?p, \<lparr>base256 = new_Hasher 32 64, hasher256 = h1\<rparr>)"
    by (simp add: Hash256_from_def Hash256_init_data_def Hash256_new_def Hash256_init_def Hash256_update_def
      case_prod_unfold Let_def)
  with Hash256_digest [OF K, of d "\<lparr>base256 = new_Hasher 32 64, hasher256 = h1\<rparr>" ds ?p] h(3) assms(3)
  show ?thesis
    by (simp add: Hash256_new_def case_prod_unfold Let_def)
qed

theorem Hash256_double_witness:
  "\<exists>x. run_bind (Hash256_from (own_transform reference_endian) [1] (new_ObjectPool False)) (\<lambda>(p, x1).
      run_bind (each (Hash256_update (own_transform reference_endian)) [[2], [3]] (Ret x1))
        (\<lambda>x2. Hash256_finalize (own_transform reference_endian) reference_endian (p, x2))) =
    Ret (sha256_of Initialize fips_compress (sha256_of Initialize fips_compress (concat ([1] # [[2], [3]]))),
      fst (Hash256_new (own_transform reference_endian) (new_ObjectPool False)), x)"
  by (rule Hash256_double) (simp_all add: own_sha256.openssl_digest_axioms ref_endian.intx_endian_axioms)

text \<open>
  C15: \<open>Hash160\<close> is RIPEMD-160 of SHA-256: an object constructed from a part of the message and given
  the rest in pieces returns the RIPEMD-160 digest of the SHA-256 digest of the whole, whatever the
  two context pools hold.
\<close>

theorem Hash160_composition:
  assumes "openssl_digest ossl 8 64 iv compress" and "openssl_digest rip 5 64 riv rcompress"
    and "intx_endian E" and "length (concat (d # ds)) < 2 ^ 61"
  shows "\<exists>x rpool1. run_bind (Hash160_from ossl d pool) (\<lambda>(p, x1).
      run_bind (each (Hash160_update ossl) ds (Ret x1)) (\<lambda>x2. Hash160_finalize ossl rip E (rpool, x2))) =
    Ret (ripemd160_of riv rcompress (sha256_of iv compress (concat (d # ds))), rpool1, x)"
proof -
  note K = Sha256_hash_class [OF assms(1,3)] and R = Ripemd160_hash_class [OF assms(2,3)]
  let ?p = "fst (Sha256_new ossl pool)"
  from Sha256_init_update [OF K, of pool d] obtain h h1 where
    h: "Sha256_init ossl (Sha256_new ossl pool) = (?p, h)" "update ossl d h = Ret h1"
      "absorbed ossl 8 64 iv compress d h1 \<and> digest_size h1 = 32" by blast
  then have "Hash160_from ossl d pool = Ret (?p, \<lparr>base160 = new_Hasher 20 64, hasher160 = h1\<rparr>)"
    by (simp add: Hash160_from_def Hash160_init_data_def Hash160_new_def Hash160_init_def Hash160_update_def
      case_prod_unfold Let_def)
  with Hash160_digest [OF K R, of d "\<lparr>base160 = new_Hasher 20 64, hasher160 = h1\<rparr>" ds rpool] h(3) assms(4)
  show ?thesis by auto
qed

theorem Hash160_composition_witness:
  "\<exists>x rpool1. run_bind (Hash160_from (own_transform reference_endian) [1] (new_ObjectPool False)) (\<lambda>(p, x1).
      run_bind (each (Hash160_update (own_transform reference_endian)) [[2], [3]] (Ret x1))
        (\<lambda>x2. Hash160_finalize (own_transform reference_endian) (sample_ossl 5) reference_endian
          (new_ObjectPool False, x2))) =
    Ret (ripemd160_of (replicate 5 1) (sample_compress 5)
      (sha256_of Initialize fips_compress (concat ([1] # [[2], [3]]))), rpool1, x)"
  by (rule Hash160_composition)
    (simp_all add: own_sha256.openssl_digest_axioms ref_endian.intx_endian_axioms sample_digest)

end
