(* ===== verification/Jenkins.thy ===== *)
theory Jenkins
  imports Moria_Prelude
begin

unbundle bit_operations_syntax

section \<open>Jenkins' lookup3 hash\<close>

text \<open>
  \<^verbatim>\<open>zen/core/crypto/jenkins.cpp\<close>: a salted 64-bit hash of an array of 32-bit words, meant for hash
  tables. The pointers \<^verbatim>\<open>source\<close> and \<^verbatim>\<open>salt\<close> are the lists of the words they point to; reading past
  the end is \<open>Undef\<close>. The three accumulators are the triple \<open>(a, b, c)\<close>.

  \<open>HashMix\<close> and \<open>HashFinal\<close> are bijections of the accumulators, so they lose nothing. The input
  handling around them does: the first word of the last group never enters the hash.
\<close>

type_synonym abc = "u32 \<times> u32 \<times> u32"

definition HashMix :: "abc \<Rightarrow> abc" where
  "HashMix = (\<lambda>(a, b, c).
     let a = a - c;
         a = a XOR word_rotl 4 c;
         c = c + b;
         b = b - a;
         b = b XOR word_rotl 6 a;
         a = a + c;
         c = c - b;
         c = c XOR word_rotl 8 b;
         b = b + a;
         a = a - c;
         a = a XOR word_rotl 16 c;
         c = c + b;
         b = b - a;
         b = b XOR word_rotl 19 a;
         a = a + c;
         c = c - b;
         c = c XOR word_rotl 4 b;
         b = b + a
     in (a, b, c))"

definition HashFinal :: "abc \<Rightarrow> abc" where
  "HashFinal = (\<lambda>(a, b, c).
     let c = c XOR b;
         c = c - word_rotl 14 b;
         a = a XOR c;
         a = a - word_rotl 11 c;
         b = b XOR a;
         b = b - word_rotl 25 a;
         c = c XOR b;
         c = c - word_rotl 16 b;
         a = a XOR c;
         a = a - word_rotl 4 c;
         b = b XOR a;
         b = b - word_rotl 14 a;
         c = c XOR b;
         c = c - word_rotl 24 b
     in (a, b, c))"

text \<open>The loop \<^verbatim>\<open>while (length > 3)\<close>; it returns what is left of both arrays and of the length.\<close>

function hash_loop ::
  "u32 list \<Rightarrow> nat \<Rightarrow> u32 list \<Rightarrow> abc \<Rightarrow> (abc \<times> u32 list \<times> nat \<times> u32 list) run" where
  "hash_loop source len salt (a, b, c) =
     (if len > 3 then
        if length source < 3 \<or> length salt < 3 then Undef
        else
          let a = a + (source ! 0 XOR salt ! 0);
              b = b + (source ! 1 XOR salt ! 1);
              b = b + (source ! 2 XOR salt ! 2)
          in hash_loop (drop 3 source) (len - 3) (drop 3 salt) (HashMix (a, b, c))
      else Ret ((a, b, c), source, len, salt))"
  by pat_completeness auto
termination
  by (relation "measure (\<lambda>(source, len, salt, abc). len)") auto

declare hash_loop.simps [simp del]

text \<open>The switch on the remaining length, with its cases falling through.\<close>

definition hash_tail :: "abc \<Rightarrow> u32 list \<Rightarrow> nat \<Rightarrow> u32 list \<Rightarrow> abc run" where
  "hash_tail = (\<lambda>(a, b, c) source len salt.
     if (len = 3 \<or> len = 2) \<and> (length source < len \<or> length salt < len) then Undef
     else
       let c = (if len = 3 then c + (source ! 2 XOR salt ! 2) else c);
           b = (if len = 3 \<or> len = 2 then b + (source ! 1 XOR salt ! 1) else b)
       in if len = 3 \<or> len = 2 \<or> len = 1 then Ret (HashFinal (a, b, c)) else Ret (a, b, c))"

definition Jenkins_Hash :: "u32 list \<Rightarrow> nat \<Rightarrow> u32 list \<Rightarrow> u64 run" where
  "Jenkins_Hash source len salt =
     (let width = (word_of_nat (wrap64 (len * 4)) :: u32);
          a = 0xdeadbeef + width;
          b = a;
          c = b
      in run_bind (hash_loop source len salt (a, b, c)) (\<lambda>(abc, source, len, salt).
         map_ret (\<lambda>(a, b, c). push_bit 32 (ucast b) OR ucast c) (hash_tail abc source len salt)))"

subsection \<open>The mixing steps are reversible\<close>

text \<open>Three lines of \<open>HashMix\<close> and two of \<open>HashFinal\<close>, and their inverses.\<close>

definition mix_step :: "nat \<Rightarrow> u32 \<Rightarrow> u32 \<Rightarrow> u32 \<Rightarrow> u32 \<times> u32" where
  "mix_step r x y z = ((x - y) XOR word_rotl r y, y + z)"

definition final_step :: "nat \<Rightarrow> u32 \<Rightarrow> u32 \<Rightarrow> u32" where
  "final_step r x y = (x XOR y) - word_rotl r y"

lemma HashMix_steps:
  "HashMix (a, b, c) =
     (let (a, c) = mix_step 4 a c b; (b, a) = mix_step 6 b a c; (c, b) = mix_step 8 c b a;
          (a, c) = mix_step 16 a c b; (b, a) = mix_step 19 b a c; (c, b) = mix_step 4 c b a
      in (a, b, c))"
  by (simp only: HashMix_def mix_step_def Let_def prod.case)

lemma HashFinal_steps:
  "HashFinal (a, b, c) =
     (let c = final_step 14 c b; a = final_step 11 a c; b = final_step 25 b a; c = final_step 16 c b;
          a = final_step 4 a c; b = final_step 14 b a; c = final_step 24 c b
      in (a, b, c))"
  by (simp only: HashFinal_def final_step_def Let_def prod.case)

definition unmix_step :: "nat \<Rightarrow> u32 \<Rightarrow> u32 \<Rightarrow> u32 \<Rightarrow> u32 \<times> u32" where
  "unmix_step r x y z = (let y = y - z in ((x XOR word_rotl r y) + y, y))"

definition unfinal_step :: "nat \<Rightarrow> u32 \<Rightarrow> u32 \<Rightarrow> u32" where
  "unfinal_step r x y = (x + word_rotl r y) XOR y"

definition HashUnmix :: "abc \<Rightarrow> abc" where
  "HashUnmix = (\<lambda>(a, b, c).
     let (c, b) = unmix_step 4 c b a; (b, a) = unmix_step 19 b a c; (a, c) = unmix_step 16 a c b;
         (c, b) = unmix_step 8 c b a; (b, a) = unmix_step 6 b a c; (a, c) = unmix_step 4 a c b
     in (a, b, c))"

definition HashUnfinal :: "abc \<Rightarrow> abc" where
  "HashUnfinal = (\<lambda>(a, b, c).
     let c = unfinal_step 24 c b; b = unfinal_step 14 b a; a = unfinal_step 4 a c; c = unfinal_step 16 c b;
         b = unfinal_step 25 b a; a = unfinal_step 11 a c; c = unfinal_step 14 c b
     in (a, b, c))"

lemma unmix_mix: "mix_step r x y z = (x', y') \<Longrightarrow> unmix_step r x' y' z = (x, y)"
  by (auto simp: mix_step_def unmix_step_def Let_def xor.assoc)

lemma mix_unmix: "unmix_step r x y z = (x', y') \<Longrightarrow> mix_step r x' y' z = (x, y)"
  by (auto simp: mix_step_def unmix_step_def Let_def xor.assoc)

lemma unfinal_final [simp]:
  "unfinal_step r (final_step r x y) y = x" "final_step r (unfinal_step r x y) y = x"
  by (simp_all add: unfinal_step_def final_step_def xor.assoc)

lemma HashUnmix_HashMix: "HashUnmix (HashMix t) = t"
proof -
  obtain a b c where t: "t = (a, b, c)" by (cases t) auto
  obtain a1 c1 where r1: "mix_step 4 a c b = (a1, c1)" by fastforce
  obtain b1 a2 where r2: "mix_step 6 b a1 c1 = (b1, a2)" by fastforce
  obtain c2 b2 where r3: "mix_step 8 c1 b1 a2 = (c2, b2)" by fastforce
  obtain a3 c3 where r4: "mix_step 16 a2 c2 b2 = (a3, c3)" by fastforce
  obtain b3 a4 where r5: "mix_step 19 b2 a3 c3 = (b3, a4)" by fastforce
  obtain c4 b4 where r6: "mix_step 4 c3 b3 a4 = (c4, b4)" by fastforce
  note rs = r1 r2 r3 r4 r5 r6
  show ?thesis
    unfolding t
    by (simp only: HashMix_steps HashUnmix_def rs rs [THEN unmix_mix] Let_def prod.case)
qed

lemma HashMix_HashUnmix: "HashMix (HashUnmix t) = t"
proof -
  obtain a b c where t: "t = (a, b, c)" by (cases t) auto
  obtain c1 b1 where r1: "unmix_step 4 c b a = (c1, b1)" by fastforce
  obtain b2 a1 where r2: "unmix_step 19 b1 a c1 = (b2, a1)" by fastforce
  obtain a2 c2 where r3: "unmix_step 16 a1 c1 b2 = (a2, c2)" by fastforce
  obtain c3 b3 where r4: "unmix_step 8 c2 b2 a2 = (c3, b3)" by fastforce
  obtain b4 a3 where r5: "unmix_step 6 b3 a2 c3 = (b4, a3)" by fastforce
  obtain a4 c4 where r6: "unmix_step 4 a3 c3 b4 = (a4, c4)" by fastforce
  note rs = r1 r2 r3 r4 r5 r6
  show ?thesis
    unfolding t
    by (simp only: HashMix_steps HashUnmix_def rs rs [THEN mix_unmix] Let_def prod.case)
qed

lemma HashFinal_inverse: "HashUnfinal (HashFinal t) = t" "HashFinal (HashUnfinal t) = t"
  by (cases t; simp add: HashFinal_steps HashUnfinal_def Let_def)+

subsection \<open>What the hash depends on\<close>

lemma hash_loop_returns:
  assumes "len \<le> length source" and "len \<le> length salt"
  shows "\<exists>abc' source' len' salt'. hash_loop source len salt abc = Ret (abc', source', len', salt') \<and>
    len' \<le> length source' \<and> len' \<le> length salt' \<and> len' \<le> 3"
  using assms
proof (induction source len salt abc rule: hash_loop.induct)
  case (1 source len salt a b c)
  show ?case
  proof (cases "len > 3")
    case True
    with "1.prems" have "\<not> (length source < 3 \<or> length salt < 3)" by auto
    with True "1.IH" [OF True this refl refl refl] "1.prems" show ?thesis
      by (subst hash_loop.simps) (simp add: Let_def)
  next
    case False
    with "1.prems" show ?thesis by (subst hash_loop.simps) simp
  qed
qed

lemma hash_tail_returns:
  assumes "len \<le> length source" and "len \<le> length salt"
  shows "\<exists>x. hash_tail abc source len salt = Ret x"
proof -
  have "hash_tail abc source len salt \<noteq> Undef \<and> hash_tail abc source len salt \<noteq> Abort \<and>
      (\<forall>e. hash_tail abc source len salt \<noteq> Throw e)"
    using assms by (cases abc) (auto simp: hash_tail_def Let_def)
  then show ?thesis by (cases "hash_tail abc source len salt") auto
qed

text \<open>The first word of the last group has no influence.\<close>

lemma hash_loop_ignores:
  assumes "len \<le> length source" and "0 < len"
  shows "run_bind (hash_loop (source[3 * ((len - 1) div 3) := v]) len salt abc)
      (\<lambda>(abc, source, len, salt). hash_tail abc source len salt) =
    run_bind (hash_loop source len salt abc) (\<lambda>(abc, source, len, salt). hash_tail abc source len salt)"
  using assms
proof (induction source len salt abc rule: hash_loop.induct)
  case (1 source len salt a b c)
  let ?p = "3 * ((len - 1) div 3)"
  show ?case
  proof (cases "len > 3")
    case True
    show ?thesis
    proof (cases "length salt < 3")
      case False
      with "1.prems" True have guard: "\<not> (length source < 3 \<or> length salt < 3)" by auto
      have p: "?p = 3 + 3 * ((len - 3 - 1) div 3)"
        using True le_div_geq [of 3 "len - 1"] by (simp add: diff_commute)
      then have "drop 3 (source[?p := v]) = (drop 3 source)[3 * ((len - 3 - 1) div 3) := v]"
        by (simp add: drop_update_swap)
      moreover have "source[?p := v] ! i = source ! i" if "i < 3" for i
        unfolding p using that by simp
      ultimately show ?thesis
        using "1.IH" [OF True guard refl refl refl] "1.prems" True guard
        by (subst (1 2) hash_loop.simps) (simp add: Let_def)
    qed (use True in \<open>subst (1 2) hash_loop.simps, simp\<close>)
  next
    case False
    with "1.prems" have "len = 1 \<or> len = 2 \<or> len = 3" by auto
    then show ?thesis
      by (subst (1 2) hash_loop.simps) (auto simp: hash_tail_def Let_def)
  qed
qed

lemma Jenkins_Hash_eq:
  "Jenkins_Hash source len salt =
     map_ret (\<lambda>(a, b, c). push_bit 32 (ucast b) OR ucast c)
       (run_bind (hash_loop source len salt
          (let a = 0xdeadbeef + word_of_nat (wrap64 (len * 4)) in (a, a, a)))
        (\<lambda>(abc, source, len, salt). hash_tail abc source len salt))"
proof -
  have "run_bind m (\<lambda>x. map_ret f (g x)) = map_ret f (run_bind m g)" for m f g
    by (cases m) simp_all
  from this [of _ _ "\<lambda>(abc, source, len, salt). hash_tail abc source len salt"] show ?thesis
    by (simp add: Jenkins_Hash_def Let_def case_prod_unfold)
qed

lemma Jenkins_word_ignored:
  assumes "length source = n" and "length salt = n" and "0 < n"
  shows "(\<exists>r. Jenkins_Hash source n salt = Ret r) \<and>
    Jenkins_Hash (source[3 * ((n - 1) div 3) := v]) n salt = Jenkins_Hash source n salt"
proof -
  let ?a = "0xdeadbeef + word_of_nat (wrap64 (n * 4)) :: u32"
  from hash_loop_returns [of n source salt "(?a, ?a, ?a)"] assms obtain abc s l t where
    r: "hash_loop source n salt (?a, ?a, ?a) = Ret (abc, s, l, t)" "l \<le> length s" "l \<le> length t"
    by auto
  then have "\<exists>x. hash_tail abc s l t = Ret x" by (intro hash_tail_returns)
  with r(1) have "\<exists>r. Jenkins_Hash source n salt = Ret r"
    by (auto simp: Jenkins_Hash_eq Let_def case_prod_unfold)
  moreover have "Jenkins_Hash (source[3 * ((n - 1) div 3) := v]) n salt = Jenkins_Hash source n salt"
    using hash_loop_ignores [of n source v salt "(?a, ?a, ?a)"] assms
    by (simp only: Jenkins_Hash_eq Let_def)
  ultimately show ?thesis by blast
qed

text \<open>
  the mixing and the final permutation of the three accumulators are bijections: no two
  accumulator states are mapped to the same one.
\<close>

theorem Jenkins_permutations: "bij HashMix \<and> bij HashFinal"
  by (metis HashFinal_inverse HashMix_HashUnmix HashUnmix_HashMix bijI')

text \<open>
  the hash of \<open>n\<close> words, given as many words of salt, is always computed without reading out of
  bounds, and it ignores one of the words: the one at index \<open>3 * ((n - 1) div 3)\<close>, the first of the
  last group of three, can be replaced by any other without changing the hash.
\<close>

theorem Jenkins_ignores_word:
  assumes "length source = n" and "length salt = n" and "0 < n"
  shows "(\<exists>r. Jenkins_Hash source n salt = Ret r) \<and>
    Jenkins_Hash (source[3 * ((n - 1) div 3) := v]) n salt = Jenkins_Hash source n salt"
  using assms by (rule Jenkins_word_ignored)

theorem Jenkins_ignores_word_witness:
  "(\<exists>r. Jenkins_Hash [1, 2, 3, 4, 5, 6, 7, 8] 8 (replicate 8 9) = Ret r) \<and>
   Jenkins_Hash ([1, 2, 3, 4, 5, 6, 7, 8][3 * ((8 - 1) div 3) := 77]) 8 (replicate 8 9) =
   Jenkins_Hash [1, 2, 3, 4, 5, 6, 7, 8] 8 (replicate 8 9)"
  by (rule Jenkins_ignores_word) simp_all

end
