(* ===== verification/Hash_Type.thy ===== *)
theory Hash_Type
  imports Hex Jenkins
begin

section \<open>Fixed size hashes\<close>

text \<open>
  The template \<^verbatim>\<open>zen::Hash<BITS>\<close> of \<^verbatim>\<open>zen/core/types/hash.hpp\<close>. An object is the list of its \<open>kSize\<close>
  bytes; functions that make one take \<open>kSize\<close>, which is \<^verbatim>\<open>BITS / 8\<close>, as an argument: 20 for \<open>h160\<close> and
  32 for \<open>h256\<close>. A hash stands for the number its bytes are in big endian order: that is what its
  constructors, its text and its ordering agree on.
\<close>

type_synonym Hash = Bytes

definition h160_size :: nat where "h160_size = 20"
definition h256_size :: nat where "h256_size = 32"

definition Hash_default :: "nat \<Rightarrow> Hash" where
  "Hash_default kSize = replicate kSize 0"

definition Hash_bytes :: "nat \<Rightarrow> Bytes \<Rightarrow> Hash" where
  "Hash_bytes kSize init =
     (if length init > kSize then replicate kSize 0
      else let offset = kSize - length init in memcpy_at (replicate kSize 0) offset init)"

definition Hash_u64 :: "Endian_ops \<Rightarrow> nat \<Rightarrow> u64 \<Rightarrow> Hash run" where
  "Hash_u64 E kSize value =
     ZEN_ASSERT (8 \<le> kSize) (Ret (memcpy_at (replicate kSize 0) (kSize - 8) (store_big_u64 E value)))"

definition from_hex :: "nat \<Rightarrow> string \<Rightarrow> (DecodingError + Hash) run" where
  "from_hex kSize input =
     map_ret (\<lambda>parsed_bytes. case parsed_bytes of Inl e \<Rightarrow> Inl e | Inr bs \<Rightarrow> Inr (Hash_bytes kSize bs)) (decode input)"

definition to_hex :: "bool \<Rightarrow> Hash \<Rightarrow> string" where
  "to_hex with_prefix bytes = encode bytes with_prefix"

definition Hash_to_string :: "Hash \<Rightarrow> string" where
  "Hash_to_string bytes = to_hex False bytes"

text \<open>\<^verbatim>\<open>reinterpret_cast<const uint32_t*>\<close>: the words of the bytes in the host's byte order.\<close>

definition as_words :: "Hash \<Rightarrow> u32 list" where
  "as_words bytes = map of_le (chunks 4 bytes)"

definition Hash_hash :: "Hash \<Rightarrow> Hash \<Rightarrow> u64 run" where
  "Hash_hash salt bytes = Jenkins_Hash (as_words bytes) (length bytes div 4) (as_words salt)"

definition Hash_reset :: "Hash \<Rightarrow> Hash" where
  "Hash_reset bytes = replicate (length bytes) 0"

text \<open>The defaulted \<open>operator<=>\<close> compares the arrays lexicographically: the sign of the result.\<close>

fun Hash_compare :: "Hash \<Rightarrow> Hash \<Rightarrow> int" where
  "Hash_compare (a # as) (b # bs) = (if a < b then -1 else if b < a then 1 else Hash_compare as bs)"
| "Hash_compare [] [] = 0"
| "Hash_compare [] (b # bs) = -1"
| "Hash_compare (a # as) [] = 1"

definition Hash_bool :: "Hash \<Rightarrow> bool" where
  "Hash_bool bytes \<longleftrightarrow> find (\<lambda>b. \<not> b \<noteq> 0) bytes = None"

subsection \<open>Lemmas\<close>

lemma Hash_bytes_short:
  "length init \<le> kSize \<Longrightarrow> Hash_bytes kSize init = replicate (kSize - length init) 0 @ init"
  by (simp add: Hash_bytes_def memcpy_at_def min_def)

lemma Hash_bytes_eq:
  "Hash_bytes kSize init =
     (if length init \<le> kSize then replicate (kSize - length init) 0 @ init else replicate kSize 0)"
  using Hash_bytes_short by (simp add: Hash_bytes_def)

lemma length_Hash_bytes [simp]: "length (Hash_bytes kSize init) = kSize"
  by (simp add: Hash_bytes_def Let_def)

lemma nat_be_Hash_bytes: "length init \<le> kSize \<Longrightarrow> nat_be (Hash_bytes kSize init) = nat_be init"
  by (simp add: Hash_bytes_short nat_be_zeroes)

lemma Hash_compare_be:
  "length as = length bs \<Longrightarrow> Hash_compare as bs =
     (if nat_be as < nat_be bs then -1 else if nat_be bs < nat_be as then 1 else 0)"
proof (induction as bs rule: list_induct2)
  case (Cons a as b bs)
  let ?B = "256 ^ length bs :: nat"
  have lt: "nat_be as < ?B" "nat_be bs < ?B"
    using nat_be_less [of as] nat_be_less [of bs] Cons.hyps by simp_all
  have less: "unat x * ?B + i < unat y * ?B + j" if "x < y" "i < ?B" for x y :: byte and i j
  proof -
    have "Suc (unat x) * ?B \<le> unat y * ?B"
      using that(1) by (intro mult_le_mono1) (simp add: word_less_nat_alt)
    with that(2) show ?thesis by simp
  qed
  consider "a < b" | "b < a" | "a = b" by fastforce
  then show ?case
  proof cases
    case 1
    with less [OF 1 lt(1), of "nat_be bs"] show ?thesis
      using Cons.hyps by (simp add: nat_be_Cons)
  next
    case 2
    with less [OF 2 lt(2), of "nat_be as"] show ?thesis
      using Cons.hyps by (simp add: nat_be_Cons)
  next
    case 3
    with Cons show ?thesis by (simp add: nat_be_Cons)
  qed
qed (simp add: nat_be_def)

lemma length_chunks: "n > 0 \<Longrightarrow> length (chunks n xs) = length xs div n"
proof (induction n xs rule: chunks.induct)
  case (1 n xs)
  then show ?case
    by (cases "length xs < n") (simp_all add: chunks_full le_div_geq)
qed

lemma as_words_middle:
  assumes "length p = 4 * i" and "length x = 4" and "length y = 4"
  shows "as_words (p @ y @ q) = (as_words (p @ x @ q))[i := of_le y]"
proof -
  have one: "chunks 4 (z @ q) = z # chunks 4 q" if "length z = 4" for z
    using that chunks_full [of 4 "z @ q"] by simp
  have "chunks 4 (p @ z @ q) = chunks 4 p @ z # chunks 4 q" if "length z = 4" for z
    using chunks_append [of 4 p "z @ q"] one [OF that] assms(1) by simp
  moreover have "length (chunks 4 p) = i" using assms(1) by (simp add: length_chunks)
  ultimately show ?thesis
    using assms by (simp add: as_words_def list_update_append)
qed

text \<open>The class invariant: the array has \<open>kSize\<close> bytes.\<close>

definition Hash_wf :: "nat \<Rightarrow> Hash \<Rightarrow> bool" where
  "Hash_wf kSize h \<longleftrightarrow> length h = kSize"

lemma Hash_u64_wf:
  assumes "intx_endian E" and "8 \<le> kSize"
  shows "\<exists>h. Hash_u64 E kSize v = Ret h \<and> Hash_wf kSize h \<and> nat_be h = unat v"
proof -
  have len: "length (be_store v) = 8" by (simp add: be_store_def)
  have "memcpy_at (replicate kSize 0) (kSize - 8) (be_store v) = replicate (kSize - 8) 0 @ be_store v"
    using assms(2) len by (simp add: memcpy_at_def min_def)
  then have "Hash_u64 E kSize v = Ret (replicate (kSize - 8) 0 @ be_store v)"
    using assms(2) intx_endian.store_big_eq(2) [OF assms(1)] by (simp add: Hash_u64_def)
  then show ?thesis using len assms(2) be64.store_value [of v] by (simp add: nat_be_zeroes Hash_wf_def)
qed

lemma Hash_hash_returns:
  assumes "Hash_wf (4 * m) salt" and "Hash_wf (4 * m) bytes" and "0 < m"
  shows "\<exists>r. Hash_hash salt bytes = Ret r"
proof -
  have "length (as_words bytes) = m" and "length (as_words salt) = m"
    using assms(1,2) by (simp_all add: as_words_def length_chunks Hash_wf_def)
  from Jenkins_word_ignored [OF this assms(3)] assms(2) show ?thesis by (simp add: Hash_hash_def Hash_wf_def)
qed

subsection \<open>Properties\<close>

text \<open>
  C25: A hash of \<open>kSize\<close> bytes stands for the number its bytes are in big endian order, and every operation agrees on it. The default hash and \<open>reset\<close> are
  zero; bytes give the number they denote, or zero when there are too many; an integer gives itself; a text gives the number of its digits, zero when there are
  too many of them, or the error of the decoder, and the text of a hash gives the hash. Comparison is that of the numbers, and the table hash reads
  inside the arrays.
\<close>

theorem hash_denotes_number:
  assumes "intx_endian E" and "kSize = 4 * m" and "8 \<le> kSize" and "Hash_wf kSize a" and "Hash_wf kSize b"
  shows "Hash_wf kSize (Hash_default kSize) \<and> nat_be (Hash_default kSize) = 0
    \<and> Hash_wf kSize (Hash_bytes kSize init) \<and> nat_be (Hash_bytes kSize init) = (if length init \<le> kSize then nat_be init else 0)
    \<and> (\<exists>h. Hash_u64 E kSize v = Ret h \<and> Hash_wf kSize h \<and> nat_be h = unat v)
    \<and> (case decode_ref input of
         Inl e \<Rightarrow> from_hex kSize input = Ret (Inl e)
       | Inr bs \<Rightarrow> \<exists>h. from_hex kSize input = Ret (Inr h) \<and> Hash_wf kSize h \<and> nat_be h = (if length bs \<le> kSize then nat_be bs else 0))
    \<and> from_hex kSize (to_hex with_prefix a) = Ret (Inr a)
    \<and> Hash_wf kSize (Hash_reset a) \<and> nat_be (Hash_reset a) = 0
    \<and> Hash_compare a b = (if nat_be a < nat_be b then -1 else if nat_be b < nat_be a then 1 else 0)
    \<and> (\<exists>x. Hash_hash b a = Ret x)"
proof (intro conjI)
  have zero: "nat_be (replicate n 0) = 0" for n using nat_be_zeroes [of n "[]"] by (simp add: nat_be_def)
  have bytes: "nat_be (Hash_bytes kSize bs) = (if length bs \<le> kSize then nat_be bs else 0)" for bs
    by (simp add: Hash_bytes_eq nat_be_zeroes zero)
  show "Hash_wf kSize (Hash_default kSize)" "Hash_wf kSize (Hash_bytes kSize init)" "Hash_wf kSize (Hash_reset a)"
    "nat_be (Hash_default kSize) = 0" "nat_be (Hash_reset a) = 0"
    using assms(4) by (simp_all add: Hash_wf_def Hash_default_def Hash_reset_def zero)
  show "nat_be (Hash_bytes kSize init) = (if length init \<le> kSize then nat_be init else 0)" by (rule bytes)
  show "\<exists>h. Hash_u64 E kSize v = Ret h \<and> Hash_wf kSize h \<and> nat_be h = unat v" by (rule Hash_u64_wf [OF assms(1,3)])
  show "case decode_ref input of
         Inl e \<Rightarrow> from_hex kSize input = Ret (Inl e)
       | Inr bs \<Rightarrow> \<exists>h. from_hex kSize input = Ret (Inr h) \<and> Hash_wf kSize h \<and> nat_be h = (if length bs \<le> kSize then nat_be bs else 0)"
    by (simp add: from_hex_def decode_eq_ref Hash_wf_def bytes split: sum.split)
  show "from_hex kSize (to_hex with_prefix a) = Ret (Inr a)"
    using assms(4) by (simp add: from_hex_def to_hex_def decode_encode_run Hash_bytes_eq Hash_wf_def)
  have len: "length a = length b" using assms(4,5) by (simp add: Hash_wf_def)
  show "Hash_compare a b = (if nat_be a < nat_be b then -1 else if nat_be b < nat_be a then 1 else 0)" by (rule Hash_compare_be [OF len])
  show "\<exists>x. Hash_hash b a = Ret x" using assms by (intro Hash_hash_returns [of m]) simp_all
qed

theorem hash_denotes_number_witness:
  "\<exists>h. Hash_u64 reference_endian h160_size 5 = Ret h \<and> Hash_wf h160_size h \<and> nat_be h = 5"
  using hash_denotes_number [of reference_endian h160_size 5 "replicate 20 1" "replicate 20 2" "[]" 5 "[]"]
  by (simp add: ref_endian.intx_endian_axioms h160_size_def Hash_wf_def)

text \<open>
  the text of a hash, with or without prefix, reads back as the hash; and any text that decodes
  gives a hash of the right size: the number the text denotes, or zero when it has more digits than
  fit.
\<close>

theorem from_hex_correct:
  "from_hex (length bytes) (to_hex with_prefix bytes) = Ret (Inr bytes) \<and>
   from_hex kSize input =
     Ret (case decode_ref input of
            Inl e \<Rightarrow> Inl e
          | Inr bs \<Rightarrow> Inr (if length bs \<le> kSize then replicate (kSize - length bs) 0 @ bs else replicate kSize 0))"
proof
  show "from_hex (length bytes) (to_hex with_prefix bytes) = Ret (Inr bytes)"
    by (simp add: from_hex_def to_hex_def decode_encode_run Hash_bytes_eq)
  show "from_hex kSize input =
     Ret (case decode_ref input of
            Inl e \<Rightarrow> Inl e
          | Inr bs \<Rightarrow> Inr (if length bs \<le> kSize then replicate (kSize - length bs) 0 @ bs else replicate kSize 0))"
    by (simp add: from_hex_def decode_eq_ref Hash_bytes_eq split: sum.splits)
qed

text \<open>
  ordering, integer construction and bytes agree: comparing two hashes of the same size
  compares their big endian numbers, and the hash made from an integer denotes that integer.
\<close>

theorem Hash_order_numeric:
  assumes "intx_endian E" and "8 \<le> kSize" and "length as = length bs"
  shows "Hash_compare as bs = (if nat_be as < nat_be bs then -1 else if nat_be bs < nat_be as then 1 else 0) \<and>
    (\<exists>h. Hash_u64 E kSize v = Ret h \<and> length h = kSize \<and> nat_be h = unat v)"
  using Hash_compare_be [OF assms(3)] Hash_u64_wf [OF assms(1,2)] by (simp add: Hash_wf_def)

theorem Hash_order_numeric_witness:
  "Hash_compare [0, 1] [1, 0] = (if nat_be [0, 1] < nat_be [1, 0] then -1 else if nat_be [1, 0] < nat_be [0, 1] then 1 else 0) \<and>
    (\<exists>h. Hash_u64 reference_endian h256_size 5 = Ret h \<and> length h = h256_size \<and> nat_be h = unat (5 :: u64))"
  by (rule Hash_order_numeric) (simp_all add: ref_endian.intx_endian_axioms h256_size_def)

text \<open>
  the salted table hash of a \<open>Hash\<close> of \<open>4 * m\<close> bytes ignores four of its bytes: two hashes that
  differ only in the word at index \<open>3 * ((m - 1) div 3)\<close> collide under every salt. For \<open>h256\<close> these
  are the bytes 24 to 27, for \<open>h160\<close> the bytes 12 to 15.
\<close>

theorem Hash_hash_ignores_bytes:
  assumes "length p = 4 * (3 * ((m - 1) div 3))" and "length x = 4" and "length y = 4"
    and "length (p @ x @ q) = 4 * m" and "0 < m" and "length salt = 4 * m"
  shows "(\<exists>r. Hash_hash salt (p @ x @ q) = Ret r) \<and> Hash_hash salt (p @ y @ q) = Hash_hash salt (p @ x @ q)"
proof -
  have "length (as_words (p @ x @ q)) = m" and "length (as_words salt) = m"
    using assms(4,6) by (simp_all add: as_words_def length_chunks del: length_append)
  from Jenkins_word_ignored [OF this assms(5)] assms
  show ?thesis
    unfolding Hash_hash_def as_words_middle [OF assms(1-3)] by simp
qed

theorem Hash_hash_ignores_bytes_witness:
  "(\<exists>r. Hash_hash (Hash_default h256_size) (replicate 24 1 @ [1, 2, 3, 4] @ replicate 4 1) = Ret r) \<and>
   Hash_hash (Hash_default h256_size) (replicate 24 1 @ [9, 9, 9, 9] @ replicate 4 1) =
   Hash_hash (Hash_default h256_size) (replicate 24 1 @ [1, 2, 3, 4] @ replicate 4 1)"
  by (rule Hash_hash_ignores_bytes [where m = 8]) (simp_all add: Hash_default_def h256_size_def)

text \<open>
  the conversion of a hash to \<open>bool\<close> is true exactly when no byte is zero: so of the hashes of a
  size greater than one, one that is not all zeroes can be false, as is every hash made from an
  integer below \<open>2 ^ 56\<close>.
\<close>

theorem Hash_bool_no_zero_byte:
  assumes "intx_endian E" and "8 \<le> kSize" and "unat v < 2 ^ 56"
  shows "(Hash_bool bytes \<longleftrightarrow> 0 \<notin> set bytes) \<and> (\<exists>h. Hash_u64 E kSize v = Ret h \<and> \<not> Hash_bool h)"
proof -
  have bool: "Hash_bool bs \<longleftrightarrow> 0 \<notin> set bs" for bs
    by (auto simp: Hash_bool_def find_None_iff)
  let ?h = "memcpy_at (replicate kSize 0) (kSize - 8) (be_store v)"
  have len: "length (be_store v) = 8" by (simp add: be_store_def)
  then obtain b bs where st: "be_store v = b # bs" "length bs = 7" by (cases "be_store v") auto
  have "nat_be (be_store v) = unat v" by (rule be64.store_value)
  with st have "unat b * 256 ^ 7 \<le> unat v" by (simp add: nat_be_Cons)
  with assms(3) have "b = 0" by (cases "unat b") (simp_all add: unsigned_eq_0_iff)
  with st have "0 \<in> set ?h" by (simp add: memcpy_at_def)
  then show ?thesis
    using assms(2) intx_endian.store_big_eq(2) [OF assms(1)] bool by (simp add: Hash_u64_def)
qed

theorem Hash_bool_no_zero_byte_witness:
  "(Hash_bool [1, 2] \<longleftrightarrow> 0 \<notin> set [1, 2 :: byte]) \<and>
   (\<exists>h. Hash_u64 reference_endian h256_size 1 = Ret h \<and> \<not> Hash_bool h)"
  by (rule Hash_bool_no_zero_byte) (simp_all add: ref_endian.intx_endian_axioms h256_size_def)

end
