(* ===== verification/Decimal_Text.thy ===== *)
theory Decimal_Text
  imports Moria_Prelude
begin

section \<open>Decimal text\<close>

text \<open>
  Text of numbers, shared by the amounts, the human readable sizes, the stop watch and the messages:
  \<open>show_nat\<close> writes a number in base ten, as \<^verbatim>\<open>std::to_string\<close> and the stream operators do; \<open>dec_val\<close> is the value of a
  text of digits, what \<^verbatim>\<open>strtoull\<close> computes when it does not overflow; \<open>pad_left\<close> is a field of minimum
  width filled with zeros. \<open>show_nat_digits\<close> says that they are inverse.
\<close>

definition digit :: "nat \<Rightarrow> char" where
  "digit d = char_of (48 + d)"

text \<open>\<^verbatim>\<open>std::to_string\<close> of an unsigned number.\<close>

fun show_nat :: "nat \<Rightarrow> string" where
  "show_nat n = (if n < 10 then [digit n] else show_nat (n div 10) @ [digit (n mod 10)])"

declare show_nat.simps [simp del]

definition is_digit :: "char \<Rightarrow> bool" where
  "is_digit c \<longleftrightarrow> 48 \<le> (of_char c :: nat) \<and> of_char c \<le> (57 :: nat)"

definition digit_val :: "char \<Rightarrow> nat" where
  "digit_val c = of_char c - 48"

definition show_int :: "int \<Rightarrow> string" where
  "show_int i = (if i < 0 then CHR ''-'' # show_nat (nat (- i)) else show_nat (nat i))"

definition dec_val :: "string \<Rightarrow> nat" where
  "dec_val s = foldl (\<lambda>v c. 10 * v + digit_val c) 0 s"

definition pad_left :: "nat \<Rightarrow> string \<Rightarrow> string" where
  "pad_left k s = replicate (k - length s) CHR ''0'' @ s"

lemma digit_digit_val [simp]: "d < 10 \<Longrightarrow> digit_val (digit d) = d" "d < 10 \<Longrightarrow> is_digit (digit d)"
  by (simp_all add: digit_val_def digit_def is_digit_def)

lemma digit_chars [simp]:
  "is_digit CHR ''0''" "\<not> is_digit CHR ''.''" "digit_val CHR ''0'' = 0"
  by (simp_all add: is_digit_def digit_val_def)

lemma digit_val_less: "is_digit c \<Longrightarrow> digit_val c < 10"
  unfolding is_digit_def digit_val_def by linarith

lemma dec_val_append: "dec_val (s @ t) = dec_val s * 10 ^ length t + dec_val t"
proof -
  have "foldl (\<lambda>v c. 10 * v + digit_val c) a t = a * 10 ^ length t + dec_val t" for a
  proof (induction t arbitrary: a)
    case (Cons c t)
    have "dec_val (c # t) = foldl (\<lambda>v c. 10 * v + digit_val c) (digit_val c) t"
      by (simp add: dec_val_def)
    with Cons [of "10 * a + digit_val c"] Cons [of "digit_val c"] show ?case
      by (simp add: algebra_simps)
  qed (simp add: dec_val_def)
  from this [of "dec_val s"] show ?thesis
    unfolding dec_val_def [of "s @ t"] foldl_append dec_val_def [of s, symmetric] .
qed

lemma dec_val_simps [simp]: "dec_val [] = 0" "dec_val [c] = digit_val c"
  by (simp_all add: dec_val_def)

lemma dec_val_zeroes: "dec_val (replicate k CHR ''0'') = 0"
  by (induction k) (simp_all add: dec_val_def digit_val_def)

lemma show_nat_digits: "list_all is_digit (show_nat n) \<and> show_nat n \<noteq> [] \<and> dec_val (show_nat n) = n"
proof (induction n rule: show_nat.induct)
  case (1 n)
  then show ?case
    by (cases "n < 10") (subst (1 2 3) show_nat.simps; auto simp: dec_val_append)+
qed

lemma show_nat_length: "n < 10 ^ k \<Longrightarrow> 0 < k \<Longrightarrow> length (show_nat n) \<le> k"
proof (induction k arbitrary: n)
  case (Suc k)
  then show ?case
    by (cases "n < 10"; cases "k = 0") (subst show_nat.simps; simp)+
qed simp

lemma dec_val_less: "list_all is_digit s \<Longrightarrow> dec_val s < 10 ^ length s"
proof (induction s rule: rev_induct)
  case (snoc c s)
  then have "digit_val c < 10" by (simp add: digit_val_less)
  with snoc show ?case by (simp add: dec_val_append)
qed simp

lemma length_pad_left: "length s \<le> k \<Longrightarrow> length (pad_left k s) = k"
  by (simp add: pad_left_def)

lemma pad_left_digits:
  "list_all is_digit s \<Longrightarrow> list_all is_digit (pad_left k s)" "dec_val (pad_left k s) = dec_val s"
  by (simp_all add: pad_left_def dec_val_append dec_val_zeroes list_all_iff ball_Un)

end
