(* ===== verification/Amounts.thy ===== *)
theory Amounts
  imports Common_Base Decimal_Text "HOL-Library.Signed_Division"
begin

section \<open>Amounts and fee rates\<close>

text \<open>
  \<^verbatim>\<open>zen/core/types/amounts.hpp\<close> and \<^verbatim>\<open>amounts.cpp\<close>. An \<open>Amount\<close> wraps an \<^verbatim>\<open>int64_t\<close>, here an \<open>int\<close>: every
  arithmetic result goes through \<open>i64\<close>, which is \<open>Undef\<close> when the exact result does not fit, as signed
  overflow is in C++. Division truncates towards zero (\<open>sdiv\<close>, \<open>smod\<close>).

  Two functions of boost are parameters, collected in the record \<open>Boost\<close>: \<open>format_amount\<close> is
  \<^verbatim>\<open>boost::format("%s%i.%08i")\<close> applied to its three arguments and \<open>lexical_cast\<close> is
  \<^verbatim>\<open>boost::lexical_cast<int64_t>\<close>. Their documented behaviour on the arguments the code gives them is the
  locale \<open>boost_text\<close>. The regular expression is the one the format string builds from the two
  constants, eight and eight digits: \<^verbatim>\<open>^(\d{0,8})(\.\d{0,8})?$\<close>.
\<close>

type_synonym Amount = int

record Boost =
  format_amount :: "string \<Rightarrow> int \<Rightarrow> int \<Rightarrow> string"
  lexical_cast :: "string \<Rightarrow> int run"

definition i64 :: "int \<Rightarrow> int run" where
  "i64 x = (if - (2 ^ 63) \<le> x \<and> x < 2 ^ 63 then Ret x else Undef)"

text \<open>\<^verbatim>\<open>static_cast<int64_t>\<close> of a \<^verbatim>\<open>size_t\<close>.\<close>

definition to_i64 :: "nat \<Rightarrow> int" where
  "to_i64 n = (if int n mod 2 ^ 64 < 2 ^ 63 then int n mod 2 ^ 64 else int n mod 2 ^ 64 - 2 ^ 64)"

definition kMax :: Amount where
  "kMax = kCoinMaxSupply * kCoin"

definition valid_money :: "Amount \<Rightarrow> bool" where
  "valid_money a \<longleftrightarrow> a \<ge> 0 \<and> a \<le> kMax"

definition Amount_bool :: "Amount \<Rightarrow> bool" where
  "Amount_bool a \<longleftrightarrow> a \<noteq> 0"

definition Amount_add :: "Amount \<Rightarrow> int \<Rightarrow> Amount run" where
  "Amount_add a value = i64 (a + value)"

definition Amount_mult :: "Amount \<Rightarrow> int \<Rightarrow> Amount run" where
  "Amount_mult a value = i64 (a * value)"

definition Amount_sub :: "Amount \<Rightarrow> int \<Rightarrow> Amount run" where
  "Amount_sub a value = i64 (a - value)"

definition Amount_inc :: "Amount \<Rightarrow> Amount run" where
  "Amount_inc a = i64 (a + 1)"

definition Amount_dec :: "Amount \<Rightarrow> Amount run" where
  "Amount_dec a = i64 (a - 1)"

definition Amount_plus :: "Amount \<Rightarrow> Amount \<Rightarrow> Amount run" where
  "Amount_plus l r = i64 (l + r)"

definition Amount_minus :: "Amount \<Rightarrow> Amount \<Rightarrow> Amount run" where
  "Amount_minus l r = i64 (l - r)"

definition Amount_times :: "Amount \<Rightarrow> Amount \<Rightarrow> Amount run" where
  "Amount_times l r = i64 (l * r)"

definition Amount_div :: "Amount \<Rightarrow> Amount \<Rightarrow> Amount run" where
  "Amount_div l r = (if r = 0 then Undef else i64 (l sdiv r))"

definition Amount_mod :: "Amount \<Rightarrow> Amount \<Rightarrow> Amount run" where
  "Amount_mod l r = (if r = 0 then Undef else run_bind (i64 (l sdiv r)) (\<lambda>_. i64 (l smod r)))"

subsection \<open>Text of an amount\<close>

text \<open>The loop that strips trailing zeroes; \<^verbatim>\<open>back()\<close> of an empty string is undefined.\<close>

function strip_zeroes :: "string \<Rightarrow> string run" where
  "strip_zeroes formatted =
     (if formatted = [] then Undef
      else if last formatted = CHR 0x00 then Ret formatted
      else if last formatted = CHR ''0'' then strip_zeroes (butlast formatted)
      else if last formatted = CHR ''.'' then Ret (butlast formatted)
      else Ret formatted)"
  by pat_completeness auto
termination
  by (relation "measure length") auto

declare strip_zeroes.simps [simp del]

definition Amount_to_string :: "Boost \<Rightarrow> Amount \<Rightarrow> string run" where
  "Amount_to_string B a =
     (if a = 0 then Ret (''0 '' @ kCurrency)
      else
        let sign = (if a < 0 then ''-'' else []);
            quot = a sdiv kCoin;
            rem = (if a < 0 then (a smod kCoin) * -1 else a smod kCoin)
        in map_ret (\<lambda>formatted. formatted @ '' '' @ kCurrency) (strip_zeroes (format_amount B sign quot rem)))"

subsection \<open>Parsing\<close>

text \<open>
  The two groups \<^verbatim>\<open>regex_search\<close> captures, when the pattern matches: both are greedy, and a digit
  cannot match the point, so there is one way to match.
\<close>

definition match_amount :: "string \<Rightarrow> (string \<times> string) option" where
  "match_amount input =
     (let whole = takeWhile is_digit input; rest = dropWhile is_digit input in
      if length whole > 8 then None
      else
        case rest of
          [] \<Rightarrow> Some (whole, [])
        | c # ds \<Rightarrow> if c = CHR ''.'' \<and> list_all is_digit ds \<and> length ds \<le> 8 then Some (whole, rest) else None)"

definition parse :: "Boost \<Rightarrow> string \<Rightarrow> (DecodingError + Amount) run" where
  "parse B input =
     (case match_amount input of
        None \<Rightarrow> Ret (Inl kInvalidInput)
      | Some (whole_part, fract) \<Rightarrow>
          let fract_part = (if fract \<noteq> [] then take 8 (tl fract) @ replicate (8 - length (tl fract)) CHR ''0'' else fract) in
          run_bind (if whole_part = [] then Ret 0 else lexical_cast B whole_part) (\<lambda>whole.
          run_bind (if fract_part = [] then Ret 0 else lexical_cast B fract_part) (\<lambda>fract.
          run_bind (i64 (whole * kCoin)) (\<lambda>x.
          run_bind (i64 (x + fract)) (\<lambda>value.
          if \<not> valid_money value then Ret (Inl kInvalidAmountRange) else Ret (Inr value))))))"

subsection \<open>Fee rates\<close>

type_synonym FeeRate = Amount

definition FeeRate_paid :: "Amount \<Rightarrow> nat \<Rightarrow> FeeRate run" where
  "FeeRate_paid paid sz =
     (if wrap64 sz \<noteq> 0 then
        run_bind (i64 (paid * 1000)) (\<lambda>x. i64 (x sdiv to_i64 sz))
      else Ret 0)"

definition FeeRate_to_string :: "Boost \<Rightarrow> FeeRate \<Rightarrow> string run" where
  "FeeRate_to_string B rate = map_ret (\<lambda>s. s @ ''/K'') (Amount_to_string B rate)"

definition fee :: "FeeRate \<Rightarrow> nat \<Rightarrow> Amount run" where
  "fee rate bytes_size =
     run_bind (i64 (rate * to_i64 bytes_size)) (\<lambda>x.
     run_bind (i64 (x sdiv 1000)) (\<lambda>ret.
     Ret (if \<not> Amount_bool ret \<and> Amount_bool rate then rate else ret)))"

subsection \<open>What the code relies on in boost\<close>

locale boost_text =
  fixes B :: Boost
  assumes format_law: "0 \<le> r \<Longrightarrow>
      format_amount B sign q r = sign @ show_int q @ ''.'' @ pad_left 8 (show_int r)"
    and lexical_cast_law: "s \<noteq> [] \<Longrightarrow> list_all is_digit s \<Longrightarrow> length s \<le> 18 \<Longrightarrow>
      lexical_cast B s = Ret (int (dec_val s))"

definition reference_boost :: Boost where
  "reference_boost =
     \<lparr>format_amount = (\<lambda>sign q r. sign @ show_int q @ ''.'' @ pad_left 8 (show_int r)),
      lexical_cast = (\<lambda>s. if s \<noteq> [] \<and> list_all is_digit s \<and> length s \<le> 18 then Ret (int (dec_val s))
        else Throw Bad_lexical_cast)\<rparr>"

interpretation ref_boost: boost_text reference_boost
  by unfold_locales (simp_all add: reference_boost_def)

subsection \<open>Parsing computes the value of the text\<close>

text \<open>The accepted texts: up to eight digits, optionally a point and up to eight more.\<close>

definition amount_text :: "string \<Rightarrow> string \<Rightarrow> string option \<Rightarrow> bool" where
  "amount_text input w f \<longleftrightarrow> list_all is_digit w \<and> length w \<le> 8 \<and>
     (case f of None \<Rightarrow> input = w
      | Some ds \<Rightarrow> list_all is_digit ds \<and> length ds \<le> 8 \<and> input = w @ ''.'' @ ds)"

definition amount_value :: "string \<Rightarrow> string option \<Rightarrow> nat" where
  "amount_value w f = dec_val w * 10 ^ 8 + (case f of None \<Rightarrow> 0 | Some ds \<Rightarrow> dec_val ds * 10 ^ (8 - length ds))"

lemma match_amount_text:
  assumes "amount_text input w f"
  shows "match_amount input = Some (w, case f of None \<Rightarrow> [] | Some ds \<Rightarrow> CHR ''.'' # ds)"
proof -
  have w: "\<And>c. c \<in> set w \<Longrightarrow> is_digit c" "length w \<le> 8"
    using assms by (simp_all add: amount_text_def list_all_iff)
  show ?thesis
  proof (cases f)
    case None
    with assms w have "takeWhile is_digit input = w" and d: "dropWhile is_digit input = []"
      by (simp_all add: amount_text_def)
    with w(2) None show ?thesis unfolding match_amount_def Let_def d by simp
  next
    case (Some ds)
    with assms w have "takeWhile is_digit input = w" "dropWhile is_digit input = CHR ''.'' # ds"
      by (simp_all add: amount_text_def)
    with w Some assms show ?thesis by (simp add: match_amount_def amount_text_def)
  qed
qed

lemma match_amount_None:
  assumes "\<nexists>w f. amount_text input w f"
  shows "match_amount input = None"
proof (rule ccontr)
  assume "match_amount input \<noteq> None"
  then obtain w r where m: "match_amount input = Some (w, r)" by auto
  have split: "input = takeWhile is_digit input @ dropWhile is_digit input" by simp
  have digits: "list_all is_digit (takeWhile is_digit input)"
    by (simp add: list_all_iff) (metis set_takeWhileD)
  show False
  proof (cases "dropWhile is_digit input")
    case Nil
    with m split digits have "amount_text input w None"
      by (auto simp: match_amount_def amount_text_def Let_def split: if_splits)
    with assms show False by blast
  next
    case (Cons c ds)
    with m have "c = CHR ''.''" "list_all is_digit ds" "length ds \<le> 8" "length (takeWhile is_digit input) \<le> 8"
      by (auto simp: match_amount_def Let_def split: if_splits)
    with Cons split digits have "amount_text input (takeWhile is_digit input) (Some ds)"
      by (simp add: amount_text_def)
    with assms show False by blast
  qed
qed

lemma amount_value_less:
  assumes "amount_text input w f"
  shows "dec_val w * 10 ^ 8 < 10 ^ 16" and "amount_value w f < 10 ^ 16"
proof -
  have "10 ^ length w \<le> (10 ^ 8 :: nat)"
    using assms by (intro power_increasing) (simp_all add: amount_text_def)
  then have w: "dec_val w < 10 ^ 8"
    using assms dec_val_less [of w] by (simp add: amount_text_def)
  then show "dec_val w * 10 ^ 8 < 10 ^ 16" by simp
  have "dec_val ds * 10 ^ (8 - length ds) < 10 ^ 8" if "f = Some ds" for ds
  proof -
    have "dec_val ds < 10 ^ length ds" "length ds \<le> 8"
      using that assms dec_val_less [of ds] by (auto simp: amount_text_def)
    then have "dec_val ds * 10 ^ (8 - length ds) < 10 ^ length ds * 10 ^ (8 - length ds)" by simp
    also have "\<dots> = 10 ^ 8" using \<open>length ds \<le> 8\<close> by (simp flip: power_add)
    finally show ?thesis .
  qed
  with w show "amount_value w f < 10 ^ 16"
    by (cases f) (fastforce simp: amount_value_def)+
qed

lemma parse_text:
  assumes "boost_text B" and "amount_text input w f"
  shows "parse B input = Ret (if amount_value w f \<le> 2100000000000000 then Inr (int (amount_value w f))
    else Inl kInvalidAmountRange)"
proof -
  let ?fv = "case f of None \<Rightarrow> 0 | Some ds \<Rightarrow> dec_val ds * 10 ^ (8 - length ds)"
  note lc = boost_text.lexical_cast_law [OF assms(1)]
  have w: "(if w = [] then Ret 0 else lexical_cast B w) = Ret (int (dec_val w))"
    using lc [of w] assms(2) by (simp add: amount_text_def)
  let ?fr = "case f of None \<Rightarrow> [] | Some ds \<Rightarrow> CHR ''.'' # ds"
  let ?fp = "if ?fr \<noteq> [] then take 8 (tl ?fr) @ replicate (8 - length (tl ?fr)) CHR ''0'' else ?fr"
  have fp: "(if ?fp = [] then Ret 0 else lexical_cast B ?fp) = Ret (int ?fv)"
  proof (cases f)
    case (Some ds)
    then have ds: "list_all is_digit ds" "length ds \<le> 8"
      using assms(2) by (simp_all add: amount_text_def)
    have "list_all is_digit (ds @ replicate (8 - length ds) CHR ''0'')"
      using ds(1) by (simp add: list_all_iff ball_Un)
    with ds lc [of "ds @ replicate (8 - length ds) CHR ''0''"] show ?thesis
      by (auto simp: Some dec_val_append dec_val_zeroes)
  qed simp
  have v: "int (dec_val w) * kCoin + int ?fv = int (amount_value w f)"
    by (simp add: amount_value_def kCoin_def split: option.splits)
  have i: "i64 (int (dec_val w) * kCoin) = Ret (int (dec_val w) * kCoin)"
    "i64 (int (amount_value w f)) = Ret (int (amount_value w f))"
    using amount_value_less [OF assms(2)] by (simp_all add: i64_def kCoin_def)
  have valid: "valid_money (int (amount_value w f)) \<longleftrightarrow> amount_value w f \<le> 2100000000000000"
    by (simp add: valid_money_def kMax_def kCoin_def kCoinMaxSupply_def)
  show ?thesis
    unfolding parse_def match_amount_text [OF assms(2)] option.case prod.case Let_def w fp run_bind.simps i v
    using valid by simp
qed

subsection \<open>Printing\<close>

definition rstrip :: "string \<Rightarrow> string" where
  "rstrip s = rev (dropWhile (\<lambda>c. c = CHR ''0'') (rev s))"

lemma rstrip_snoc: "rstrip (s @ [c]) = (if c = CHR ''0'' then rstrip s else s @ [c])"
  by (simp add: rstrip_def)

lemma rstrip_pad: "rstrip s @ replicate (length s - length (rstrip s)) CHR ''0'' = s"
proof (induction s rule: rev_induct)
  case (snoc c s)
  have "length (rstrip s) \<le> length s"
    using arg_cong [OF snoc, of length] by simp
  moreover have "rstrip s @ CHR ''0'' # replicate (length s - length (rstrip s)) CHR ''0'' = s @ ''0''"
    using arg_cong [OF snoc, of "\<lambda>t. t @ ''0''"] by (simp add: replicate_append_same)
  ultimately show ?case by (simp add: rstrip_snoc Suc_diff_le)
qed (simp add: rstrip_def)

lemma rstrip_digits: "list_all is_digit s \<Longrightarrow> list_all is_digit (rstrip s)"
  using rstrip_pad [of s] by (metis list_all_append)

lemma strip_zeroes_fraction:
  assumes "list_all is_digit s"
  shows "strip_zeroes (pre @ CHR ''.'' # s) =
    Ret (if rstrip s = [] then pre else pre @ CHR ''.'' # rstrip s)"
  using assms
proof (induction s rule: rev_induct)
  case Nil
  show ?case by (subst strip_zeroes.simps) (simp add: rstrip_def butlast_append)
next
  case (snoc c s)
  have b: "butlast (pre @ CHR ''.'' # s @ [d]) = pre @ CHR ''.'' # s" for d
    by (simp add: butlast_append)
  have "c \<noteq> CHR 0x00" "c \<noteq> CHR ''.''"
    using snoc.prems by (auto simp: is_digit_def)
  with snoc b show ?case
    by (subst strip_zeroes.simps) (simp add: rstrip_snoc)
qed

lemma signed_div_nonneg:
  assumes "0 \<le> a" and "0 < (b :: int)"
  shows "a sdiv b = a div b" "a smod b = a mod b"
  using assms
  by (cases "a = 0"; simp add: signed_divide_int_def signed_modulo_int_def minus_mult_div_eq_mod
    minus_div_mult_eq_mod)+

lemma amount_split:
  assumes "0 \<le> a"
  shows "a sdiv kCoin = int (nat a div 10 ^ 8)" "a smod kCoin = int (nat a mod 10 ^ 8)"
  using assms
  by (simp_all add: kCoin_def signed_div_nonneg zmod_int zdiv_int)

lemma to_string_pos:
  assumes "boost_text B" and "0 < a" and "a \<le> kMax"
  defines "q \<equiv> show_nat (nat a div 10 ^ 8)" and "f \<equiv> rstrip (pad_left 8 (show_nat (nat a mod 10 ^ 8)))"
  shows "Amount_to_string B a = Ret ((if f = [] then q else q @ ''.'' @ f) @ '' '' @ kCurrency)"
proof -
  have "format_amount B [] (a sdiv kCoin) (a smod kCoin) =
      q @ CHR ''.'' # pad_left 8 (show_nat (nat a mod 10 ^ 8))"
    using boost_text.format_law [OF assms(1), of "a smod kCoin" "[]" "a sdiv kCoin"] assms(2)
    by (simp add: amount_split show_int_def q_def)
  moreover have "list_all is_digit (pad_left 8 (show_nat (nat a mod 10 ^ 8)))"
    using show_nat_digits by (intro pad_left_digits) blast
  ultimately show ?thesis
    using assms(2) strip_zeroes_fraction [of "pad_left 8 (show_nat (nat a mod 10 ^ 8))" q]
    by (simp add: Amount_to_string_def f_def)
qed

lemma printed_text:
  assumes "0 < a" and "a \<le> kMax"
  defines "q \<equiv> show_nat (nat a div 10 ^ 8)" and "f \<equiv> rstrip (pad_left 8 (show_nat (nat a mod 10 ^ 8)))"
  shows "amount_text (if f = [] then q else q @ ''.'' @ f) q (if f = [] then None else Some f) \<and>
    amount_value q (if f = [] then None else Some f) = nat a"
proof -
  let ?r = "nat a mod 10 ^ 8" let ?s = "pad_left 8 (show_nat ?r)"
  have "nat a div 10 ^ 8 < 10 ^ 8"
    using assms(2) by (simp add: kMax_def kCoin_def kCoinMaxSupply_def)
  then have q: "length q \<le> 8" "list_all is_digit q" "dec_val q = nat a div 10 ^ 8"
    using show_nat_length [of "nat a div 10 ^ 8" 8] show_nat_digits [of "nat a div 10 ^ 8"]
    by (simp_all add: q_def)
  have s: "length ?s = 8" "list_all is_digit ?s" "dec_val ?s = ?r"
    using show_nat_length [of ?r 8] show_nat_digits [of ?r]
    by (simp_all add: length_pad_left pad_left_digits)
  have fs: "f @ replicate (8 - length f) CHR ''0'' = ?s"
    using rstrip_pad [of ?s] s(1) by (simp add: f_def)
  have f: "list_all is_digit f" "length f \<le> 8"
    using rstrip_digits [OF s(2)] arg_cong [OF fs, of length] s(1) by (simp_all add: f_def)
  have "dec_val f * 10 ^ (8 - length f) = ?r"
    using arg_cong [OF fs, of dec_val] s(3) by (simp add: dec_val_append dec_val_zeroes)
  then have "amount_value q (if f = [] then None else Some f) = nat a div 10 ^ 8 * 10 ^ 8 + ?r"
    using q(3) by (auto simp: amount_value_def)
  with q f show ?thesis by (simp add: amount_text_def)
qed

subsection \<open>Properties\<close>

text \<open>
  C13: every valid amount survives printing and parsing: its text is some \<open>s\<close> followed by the currency,
  and parsing \<open>s\<close> gives the amount back.
\<close>

theorem amount_text_round_trip:
  assumes "boost_text B" and "valid_money a"
  shows "\<exists>s. Amount_to_string B a = Ret (s @ '' '' @ kCurrency) \<and> parse B s = Ret (Inr a)"
proof (cases "a = 0")
  case True
  have "amount_text ''0'' ''0'' None" by (simp add: amount_text_def)
  from parse_text [OF assms(1) this] True show ?thesis
    by (intro exI [of _ "''0''"]) (simp add: Amount_to_string_def amount_value_def)
next
  case False
  with assms(2) have a: "0 < a" "a \<le> kMax" by (simp_all add: valid_money_def)
  then have "nat a \<le> 2100000000000000"
    by (simp add: kMax_def kCoin_def kCoinMaxSupply_def)
  with to_string_pos [OF assms(1) a] parse_text [OF assms(1) printed_text [OF a, THEN conjunct1]]
    printed_text [OF a, THEN conjunct2] a
  show ?thesis by (intro exI) (simp only: if_True int_nat_eq, simp)
qed

theorem amount_text_round_trip_witness:
  "\<exists>s. Amount_to_string reference_boost 125000000 = Ret (s @ '' '' @ kCurrency) \<and>
     parse reference_boost s = Ret (Inr 125000000)"
  by (rule amount_text_round_trip)
    (simp_all add: ref_boost.boost_text_axioms valid_money_def kMax_def kCoin_def kCoinMaxSupply_def)

text \<open>
  C19: parsing never overflows and never throws. A text of at most eight digits, optionally followed
  by a point and at most eight more, gives the exact value in satoshis when it does not exceed the
  maximum supply and the range error otherwise; every other text is invalid input.
\<close>

theorem parse_correct:
  assumes "boost_text B"
  shows "(amount_text input w f \<longrightarrow>
      parse B input = Ret (if int (amount_value w f) \<le> kMax then Inr (int (amount_value w f))
        else Inl kInvalidAmountRange)) \<and>
    ((\<nexists>w f. amount_text input w f) \<longrightarrow> parse B input = Ret (Inl kInvalidInput))"
proof -
  have "int (amount_value w f) \<le> kMax \<longleftrightarrow> amount_value w f \<le> 2100000000000000"
    by (simp add: kMax_def kCoin_def kCoinMaxSupply_def)
  with parse_text [OF assms, of input w f] match_amount_None [of input] show ?thesis
    by (auto simp: parse_def)
qed

theorem parse_correct_witness:
  "parse reference_boost ''21000001'' = Ret (Inl kInvalidAmountRange) \<and>
   parse reference_boost ''.5'' = Ret (Inr 50000000)"
proof -
  have "amount_text ''21000001'' ''21000001'' None" "amount_text ''.5'' [] (Some ''5'')"
    by (simp_all add: amount_text_def is_digit_def)
  moreover have "amount_value ''21000001'' None = 2100000100000000" "amount_value [] (Some ''5'') = 50000000"
    by (simp_all add: amount_value_def dec_val_def digit_val_def)
  ultimately show ?thesis
    using parse_correct [OF ref_boost.boost_text_axioms, of "''21000001''" "''21000001''" None]
      parse_correct [OF ref_boost.boost_text_axioms, of "''.5''" "[]" "Some ''5''"]
    by (simp add: kMax_def kCoin_def kCoinMaxSupply_def)
qed

text \<open>
  the text of an amount of minus one coin or less starts with two minus signs: the quotient is
  negative and prints its own sign after the one the code adds.
\<close>

theorem negative_amount_two_signs:
  assumes "boost_text B" and "a \<le> - kCoin" and "- (2 ^ 63) \<le> a"
  shows "\<exists>s. Amount_to_string B a = Ret (''--'' @ s)"
proof -
  let ?q = "a sdiv kCoin" and ?r = "(a smod kCoin) * -1"
  have q: "?q < 0"
    using assms(2) by (simp add: kCoin_def signed_divide_int_def)
  have r: "0 \<le> ?r"
    using assms(2) by (simp add: kCoin_def signed_modulo_int_def signed_divide_int_def)
  have "list_all is_digit (pad_left 8 (show_int ?r))"
    using r show_nat_digits pad_left_digits(1) by (simp add: show_int_def)
  from strip_zeroes_fraction [OF this, of "''-'' @ show_int ?q"]
  have "\<exists>t. strip_zeroes (format_amount B ''-'' ?q ?r) = Ret (''-'' @ show_int ?q @ t)"
    using boost_text.format_law [OF assms(1) r, of "''-''" ?q] by auto
  moreover have "\<exists>t. show_int ?q = CHR ''-'' # t" using q by (simp add: show_int_def)
  ultimately show ?thesis
    using assms(2) by (auto simp: Amount_to_string_def kCoin_def)
qed

theorem negative_amount_two_signs_witness:
  "\<exists>s. Amount_to_string reference_boost (-150000000) = Ret (''--'' @ s)"
  by (rule negative_amount_two_signs) (simp_all add: ref_boost.boost_text_axioms kCoin_def)

lemma fee_rate_exact:
  assumes "0 \<le> rate" and "rate * int n < 2 ^ 63" and "n < 2 ^ 63"
    and "0 \<le> paid" and "paid * 1000 < 2 ^ 63" and "0 < sz" and "sz < 2 ^ 63"
  shows "fee rate n = Ret (if rate * int n div 1000 = 0 then rate else rate * int n div 1000)"
    and "FeeRate_paid paid sz = Ret (paid * 1000 div int sz)"
proof -
  have c: "to_i64 n = int n" "to_i64 sz = int sz"
    using assms(3,7) by (simp_all add: to_i64_def)
  have x: "0 \<le> rate * int n" using assms(1) by simp
  have y: "rate * int n div 1000 < 2 ^ 63" using assms(2) x by linarith
  have d: "(rate * int n) sdiv 1000 = rate * int n div 1000"
    by (rule signed_div_nonneg(1) [OF x]) simp
  show "fee rate n = Ret (if rate * int n div 1000 = 0 then rate else rate * int n div 1000)"
    using x y assms(2) by (auto simp: fee_def c d i64_def Amount_bool_def)
  show "FeeRate_paid paid sz = Ret (paid * 1000 div int sz)"
  proof -
    have "(paid * 1000) sdiv int sz = paid * 1000 div int sz"
      using assms(4,6) by (intro signed_div_nonneg) simp_all
    moreover have "paid * 1000 div int sz \<le> paid * 1000" "0 \<le> paid * 1000 div int sz"
      using assms(4,6) zdiv_mono2 [of "paid * 1000" 1 "int sz"] by (simp_all add: pos_imp_zdiv_nonneg_iff)
    ultimately show ?thesis
      using assms(4-7) by (simp add: FeeRate_paid_def c i64_def)
  qed
qed

text \<open>
  for a non-negative rate and a size whose product fits, the fee of a transaction is the rate per
  thousand bytes rounded down, except that a rate that is not zero never gives a zero fee: it gives
  the rate itself. The rate of a payment never charges more than was paid, unless it is that minimum.
\<close>

theorem fee_correct:
  assumes "0 \<le> rate" and "rate * int n < 2 ^ 63" and "n < 2 ^ 63"
    and "0 \<le> paid" and "paid * 1000 < 2 ^ 63" and "0 < sz" and "sz < 2 ^ 63"
  shows "fee rate n = Ret (if rate * int n div 1000 = 0 then rate else rate * int n div 1000) \<and>
    FeeRate_paid paid sz = Ret (paid * 1000 div int sz) \<and>
    (paid * 1000 div int sz) * int sz div 1000 \<le> paid"
proof -
  have "(paid * 1000 div int sz) * int sz div 1000 \<le> paid"
  proof -
    have "(paid * 1000 div int sz) * int sz \<le> paid * 1000"
      using minus_mod_eq_div_mult [of "paid * 1000" "int sz"] pos_mod_sign [of "int sz" "paid * 1000"] assms(6)
      by linarith
    then show ?thesis by linarith
  qed
  with fee_rate_exact [OF assms] show ?thesis by blast
qed

theorem fee_correct_witness:
  "fee 1000 250 = Ret 250 \<and> FeeRate_paid 10 2000 = Ret 5 \<and> (10 * 1000 div int 2000) * int 2000 div 1000 \<le> (10 :: int)"
  using fee_correct [of 1000 250 10 2000] by simp

subsection \<open>How much arithmetic valid amounts stand\<close>

lemma kMax_value: "kMax = 2100000000000000"
  by (simp add: kMax_def kCoinMaxSupply_def kCoin_def)

lemma each_add_valid:
  assumes "list_all valid_money as" and "0 \<le> a" and "a + int (length as) * kMax < 2 ^ 63"
  shows "each (\<lambda>v a. Amount_add a v) as (Ret a) = Ret (a + sum_list as)"
  using assms
proof (induction as arbitrary: a)
  case (Cons v as)
  have v: "0 \<le> v" "v \<le> kMax" using Cons.prems(1) by (simp_all add: valid_money_def)
  have rest: "a + v + int (length as) * kMax < 2 ^ 63" using Cons.prems(3) v by (simp add: algebra_simps)
  moreover have "0 \<le> int (length as) * kMax" by (simp add: kMax_value)
  ultimately have "Amount_add a v = Ret (a + v)" using Cons.prems(2) v(1) by (simp add: Amount_add_def i64_def)
  then show ?case using Cons.IH [of "a + v"] Cons.prems(1,2) v(1) rest by (simp add: algebra_simps)
qed simp

lemma each_add_max: "each (\<lambda>v a. Amount_add a v) (replicate 4393 kMax) (Ret 0) = Undef"
proof -
  have "replicate 4393 kMax = replicate 4392 kMax @ [kMax]"
    by (simp add: replicate_append_same flip: replicate_Suc)
  moreover have "each (\<lambda>v a. Amount_add a v) (replicate 4392 kMax) (Ret 0) = Ret (4392 * kMax)"
    using each_add_valid [of "replicate 4392 kMax" 0] by (simp add: list_all_length valid_money_def kMax_value sum_list_replicate)
  ultimately show ?thesis by (simp add: Amount_add_def i64_def kMax_value)
qed

text \<open>
  C26: valid amounts leave room in 64 bits: two of them can be added and subtracted, and multiplied when one is at most 4392; up to 4392 of
  them can be summed; the fee of up to 4392 bytes and the rate of a payment are computed without overflow. The bound is sharp: one more of the
  largest amount overflows the sum and one more byte overflows the fee.
\<close>

theorem money_arithmetic_bounds:
  assumes "valid_money a" and "valid_money b" and "list_all valid_money as" and "length as \<le> 4392" and "n \<le> 4392" and "0 < sz" and "sz < 2 ^ 63"
  shows "Amount_plus a b = Ret (a + b) \<and> Amount_minus a b = Ret (a - b) \<and> Amount_times a (int n) = Ret (a * int n)
    \<and> each (\<lambda>v a. Amount_add a v) as (Ret 0) = Ret (sum_list as)
    \<and> (\<exists>r. fee a n = Ret r \<and> 0 \<le> r) \<and> (\<exists>r. FeeRate_paid a sz = Ret r \<and> 0 \<le> r)
    \<and> each (\<lambda>v a. Amount_add a v) (replicate 4393 kMax) (Ret 0) = Undef \<and> fee kMax 4393 = Undef"
proof -
  have a: "0 \<le> a" "a \<le> 2100000000000000" and b: "0 \<le> b" "b \<le> 2100000000000000"
    using assms(1,2) by (simp_all add: valid_money_def kMax_value)
  have "a * int n \<le> 2100000000000000 * 4392" using a assms(5) by (intro mult_mono) simp_all
  then have times: "0 \<le> a * int n" "a * int n < 2 ^ 63" using a(1) by simp_all
  have "int (length as) * kMax < 2 ^ 63" using assms(4) by (simp add: kMax_value)
  then have "each (\<lambda>v a. Amount_add a v) as (Ret 0) = Ret (sum_list as)" using each_add_valid [OF assms(3), of 0] by simp
  moreover have "\<exists>r. fee a n = Ret r \<and> 0 \<le> r" "\<exists>r. FeeRate_paid a sz = Ret r \<and> 0 \<le> r"
    using fee_rate_exact [OF a(1) times(2) _ a(1) _ assms(6,7)] assms(5,6) a times(1) by (simp_all add: pos_imp_zdiv_nonneg_iff)
  moreover have "fee kMax 4393 = Undef" by (simp add: fee_def to_i64_def i64_def kMax_value)
  moreover have "Amount_times a (int n) = Ret (a * int n)"
    unfolding Amount_times_def i64_def using times by (intro if_P conjI; linarith)
  moreover have "Amount_plus a b = Ret (a + b)" "Amount_minus a b = Ret (a - b)"
    using a b by (simp_all add: Amount_plus_def Amount_minus_def i64_def)
  ultimately show ?thesis using each_add_max by (intro conjI)
qed

theorem money_arithmetic_bounds_witness:
  "Amount_plus kMax kMax = Ret (kMax + kMax) \<and> each (\<lambda>v a. Amount_add a v) (replicate 4392 kMax) (Ret 0) = Ret (sum_list (replicate 4392 kMax))"
  using money_arithmetic_bounds [of kMax kMax "replicate 4392 kMax" 4392 1] by (simp add: valid_money_def kMax_value list_all_length)

end
