(* ===== verification/Base64.thy ===== *)
theory Base64
  imports Hasher Common_Base
begin

section \<open>Base64\<close>

text \<open>
  \<^verbatim>\<open>zen/core/encoding/base64.cpp\<close>. The code drives two chains of OpenSSL BIO filters, the record \<open>Bio\<close> over an abstract state: a
  base64 filter that writes to a memory sink, and one that reads from a memory buffer. The locale \<open>base64_bio\<close> states what the
  OpenSSL manual says of them, in terms of RFC 4648, which is defined here (\<open>b64_text\<close>, \<open>b64_value\<close>) and proved to round trip.
  The length goes through a cast to \<^verbatim>\<open>int\<close>. The loop that writes may run for ever, and then has no value.
  A \<^verbatim>\<open>std::string_view\<close> is the memory that starts at its pointer and its length, because the decoder hands only the pointer
  to OpenSSL, which looks for a terminating zero.
\<close>

record 'b Bio =
  new_sink :: 'b
  bio_write :: "Bytes \<Rightarrow> int \<Rightarrow> 'b \<Rightarrow> int \<times> 'b"
  bio_should_retry :: "'b \<Rightarrow> bool"
  bio_flush :: "'b \<Rightarrow> 'b"
  bio_mem_data :: "'b \<Rightarrow> string"
  new_source :: "string \<Rightarrow> 'b"
  bio_read :: "int \<Rightarrow> 'b \<Rightarrow> int \<times> Bytes"

definition cast_int :: "nat \<Rightarrow> int" where
  "cast_int n = sint (of_nat n :: 32 word)"

definition NUL :: char where
  "NUL = CHR 0x00"

partial_function (option) write_loop :: "'b Bio \<Rightarrow> Bytes \<Rightarrow> 'b \<Rightarrow> (EncodingError + 'b) option" where
  "write_loop B bytes s =
     (case bio_write B bytes (cast_int (length bytes)) s of (n, s) \<Rightarrow>
        if n \<le> 0 then if bio_should_retry B s then write_loop B bytes s else Some (Inl kUnexpectedError)
        else Some (Inr s))"

definition base64_encode :: "'b Bio \<Rightarrow> Bytes \<Rightarrow> (EncodingError + string) option" where
  "base64_encode B bytes =
     (if bytes = [] then Some (Inr [])
      else if length bytes > ((2 ^ 64 - 1) div 4) * 3 then Some (Inl kInputTooLong)
      else (case write_loop B bytes (new_sink B) of
              None \<Rightarrow> None
            | Some (Inl e) \<Rightarrow> Some (Inl e)
            | Some (Inr s) \<Rightarrow> Some (Inr (bio_mem_data B (bio_flush B s)))))"

definition base64_encode_string :: "'b Bio \<Rightarrow> string \<Rightarrow> (EncodingError + string) option" where
  "base64_encode_string B data = base64_encode B (string_view_to_byte_view data)"

definition base64_decode :: "'b Bio \<Rightarrow> string \<Rightarrow> nat \<Rightarrow> (DecodingError + Bytes) run" where
  "base64_decode B mem len =
     (if len = 0 then Ret (Inr [])
      else if NUL \<notin> set mem then Undef
      else
        let source = new_source B (takeWhile (\<lambda>c. c \<noteq> NUL) mem);
            maxlen = len div 4 * 3 + 1;
            (effective_len, out) = bio_read B (cast_int maxlen) source;
            ret = memcpy_at (replicate maxlen 0) 0 out
        in if effective_len \<le> 0 then Ret (Inl kInvalidBase64Input)
           else Ret (Inr (take (nat effective_len) ret)))"

subsection \<open>RFC 4648\<close>

definition b64_alphabet :: string where
  "b64_alphabet = ''ABCDEFGHIJKLMNOPQRSTUVWXYZabcdefghijklmnopqrstuvwxyz0123456789+/''"

definition b64_char :: "nat \<Rightarrow> char" where
  "b64_char i = b64_alphabet ! i"

definition b64_index :: "char \<Rightarrow> nat option" where
  "b64_index c = map_of (zip b64_alphabet [0..<64]) c"

text \<open>A group of three bytes is a number of 24 bits, four digits in base 64.\<close>

definition group_value :: "byte \<Rightarrow> byte \<Rightarrow> byte \<Rightarrow> nat" where
  "group_value a b c = unat a * 65536 + unat b * 256 + unat c"

fun b64_text :: "Bytes \<Rightarrow> string" where
  "b64_text [] = []"
| "b64_text [a] =
     (let v = group_value a 0 0 in [b64_char (v div 262144), b64_char (v div 4096 mod 64), CHR ''='', CHR ''=''])"
| "b64_text [a, b] =
     (let v = group_value a b 0
      in [b64_char (v div 262144), b64_char (v div 4096 mod 64), b64_char (v div 64 mod 64), CHR ''=''])"
| "b64_text (a # b # c # bs) =
     (let v = group_value a b c
      in b64_char (v div 262144) # b64_char (v div 4096 mod 64) # b64_char (v div 64 mod 64) # b64_char (v mod 64) # b64_text bs)"

fun b64_quad :: "nat list \<Rightarrow> Bytes" where
  "b64_quad ds =
     (let v = foldl (\<lambda>v d. 64 * v + d) 0 (take 4 (ds @ [0, 0, 0, 0]))
      in take (length ds - 1) [of_nat (v div 65536), of_nat (v div 256 mod 256), of_nat (v mod 256)])"

fun b64_value :: "string \<Rightarrow> Bytes option" where
  "b64_value [] = Some []"
| "b64_value (p # q # r # s # t) =
     (if s = CHR ''='' then
        if t \<noteq> [] then None
        else (case those (map b64_index (if r = CHR ''='' then [p, q] else [p, q, r])) of
                None \<Rightarrow> None | Some ds \<Rightarrow> Some (b64_quad ds))
      else (case those (map b64_index [p, q, r, s]) of
              None \<Rightarrow> None
            | Some ds \<Rightarrow> (case b64_value t of None \<Rightarrow> None | Some bs \<Rightarrow> Some (b64_quad ds @ bs))))"
| "b64_value _ = None"

lemma b64_index_char: "i < 64 \<Longrightarrow> b64_index (b64_char i) = Some i"
proof -
  have "list_all (\<lambda>i. b64_index (b64_char i) = Some i) [0..<64]" by code_simp
  then show "i < 64 \<Longrightarrow> b64_index (b64_char i) = Some i" by (simp add: list_all_iff)
qed

lemma b64_char_ok: "i < 64 \<Longrightarrow> b64_char i \<noteq> CHR ''='' \<and> b64_char i \<noteq> NUL \<and> b64_char i \<in> set b64_alphabet"
proof -
  have "list_all (\<lambda>i. b64_char i \<noteq> CHR ''='' \<and> b64_char i \<noteq> NUL \<and> b64_char i \<in> set b64_alphabet) [0..<64]" by code_simp
  then show "i < 64 \<Longrightarrow> b64_char i \<noteq> CHR ''='' \<and> b64_char i \<noteq> NUL \<and> b64_char i \<in> set b64_alphabet" by (simp add: list_all_iff)
qed

lemma unat_byte_less: "unat (a :: byte) < 256"
  using unsigned_less [where w = a] by simp

lemma group_value_less: "group_value a b c < 16777216"
  using unat_byte_less [of a] unat_byte_less [of b] unat_byte_less [of c] by (simp add: group_value_def)

lemma group_value_alt: "group_value a b c = (unat a * 256 + unat b) * 256 + unat c"
  by (simp add: group_value_def)

lemma div_byte: "r < 256 \<Longrightarrow> (q * 256 + r) div 256 = (q :: nat)" "r < 256 \<Longrightarrow> (q * 256 + r) mod 256 = r"
  by simp_all

lemma group_value_bytes:
  "of_nat (group_value a b c div 65536) = a" "of_nat (group_value a b c div 256 mod 256) = b" "of_nat (group_value a b c mod 256) = c"
proof -
  have "group_value a b c div 65536 = group_value a b c div 256 div 256" by (simp add: div_mult2_eq [symmetric])
  then show "of_nat (group_value a b c div 65536) = a" "of_nat (group_value a b c div 256 mod 256) = b"
    "of_nat (group_value a b c mod 256) = c"
    using unat_byte_less [of a] unat_byte_less [of b] unat_byte_less [of c]
    by (simp_all only: group_value_alt div_byte of_nat_unat ucast_id)
qed

lemma digits_64:
  fixes v :: nat
  shows "64 * (64 * (64 * (v div 262144) + v div 4096 mod 64) + v div 64 mod 64) + v mod 64 = v"
proof -
  have d: "v div 4096 = v div 64 div 64" "v div 262144 = v div 64 div 64 div 64" by (simp_all add: div_mult2_eq [symmetric])
  show ?thesis unfolding d by (simp only: mult_div_mod_eq)
qed

lemma group_value_digits:
  "group_value a b c div 262144 < 64" "n mod 64 < (64 :: nat)"
  using group_value_less [of a b c] by (simp_all add: less_mult_imp_div_less)

lemma group_value_zeros:
  "group_value a b 0 mod 64 = 0" "group_value a 0 0 div 64 mod 64 = 0"
proof -
  have "group_value a b 0 = 64 * ((unat a * 256 + unat b) * 4)" "group_value a 0 0 div 64 = 64 * (unat a * 16)"
    by (simp_all add: group_value_def)
  then show "group_value a b 0 mod 64 = 0" "group_value a 0 0 div 64 mod 64 = 0" by (simp_all only: mod_mult_self1_is_0)
qed

lemma group_value_foldl:
  "foldl (\<lambda>v d. 64 * v + d) 0 [v div 262144, v div 4096 mod 64, v div 64 mod 64, v mod 64] = (v :: nat)"
  using digits_64 [of v] by simp

lemma b64_quad_group:
  fixes a b c :: byte
  assumes "v = group_value a b c"
  shows "b64_quad [v div 262144, v div 4096 mod 64, v div 64 mod 64, v mod 64] = [a, b, c]"
  using group_value_foldl [of v] assms group_value_bytes [of a b c] by simp

lemma b64_quad_group2:
  assumes "v = group_value a b 0"
  shows "b64_quad [v div 262144, v div 4096 mod 64, v div 64 mod 64] = [a, b]"
  using group_value_foldl [of v] assms group_value_bytes [of a b 0] group_value_zeros(1) [of a b] by simp

lemma b64_quad_group1:
  assumes "v = group_value a 0 0"
  shows "b64_quad [v div 262144, v div 4096 mod 64] = [a]"
  using group_value_foldl [of v] assms group_value_bytes [of a 0 0] group_value_zeros [of a] group_value_zeros(1) [of a 0] by simp

declare b64_quad.simps [simp del]

lemma b64_value_text: "b64_value (b64_text bs) = Some bs"
proof (induction bs rule: b64_text.induct)
  case (2 a)
  show ?case
    using b64_char_ok [OF group_value_digits(1) [of a 0 0]] b64_char_ok [OF group_value_digits(2)] b64_index_char [OF group_value_digits(1) [of a 0 0]]
      b64_index_char [OF group_value_digits(2)] b64_quad_group1 [OF refl, of a]
    by (simp add: Let_def)
next
  case (3 a b)
  show ?case
    using b64_char_ok [OF group_value_digits(1) [of a b 0]] b64_char_ok [OF group_value_digits(2)] b64_index_char [OF group_value_digits(1) [of a b 0]]
      b64_index_char [OF group_value_digits(2)] b64_quad_group2 [OF refl, of a b]
    by (simp add: Let_def)
next
  case (4 a b c bs)
  then show ?case
    using b64_char_ok [OF group_value_digits(1) [of a b c]] b64_char_ok [OF group_value_digits(2)] b64_index_char [OF group_value_digits(1) [of a b c]]
      b64_index_char [OF group_value_digits(2)] b64_quad_group [OF refl, of a b c]
    by (simp add: Let_def)
qed simp

lemma length_b64_text: "length (b64_text bs) = 4 * ((length bs + 2) div 3)"
proof (induction bs rule: b64_text.induct)
  case (4 a b c bs)
  have "(length bs + 5) div 3 = Suc ((length bs + 2) div 3)" by linarith
  with 4 show ?case by (simp add: Let_def add.commute)
qed (simp_all add: Let_def)

lemma b64_text_chars: "set (b64_text bs) \<subseteq> insert CHR ''='' (set b64_alphabet)" "NUL \<notin> set (b64_text bs)"
proof -
  have "list_all (\<lambda>c. c \<noteq> NUL \<and> c \<in> insert CHR ''='' (set b64_alphabet)) (b64_text bs)"
    by (induction bs rule: b64_text.induct)
      (use b64_char_ok [OF group_value_digits(1)] b64_char_ok [OF group_value_digits(2)] in \<open>simp_all add: Let_def NUL_def\<close>)
  then show "set (b64_text bs) \<subseteq> insert CHR ''='' (set b64_alphabet)" "NUL \<notin> set (b64_text bs)"
    by (auto simp: list_all_iff)
qed

lemma cast_int_small: "n < 2 ^ 31 \<Longrightarrow> cast_int n = int n"
  by (simp add: cast_int_def signed_of_nat signed_take_bit_int_eq_self)

lemma cast_int_negative:
  assumes "2 ^ 31 \<le> n" "n < 2 ^ 32"
  shows "cast_int n < 0"
proof -
  have "n div 2 ^ 31 = 1" using assms by (intro div_nat_eqI) simp_all
  then have "int n div 2 ^ 31 = 1" by (metis int_ops(2) of_nat_numeral of_nat_power zdiv_int)
  then have "bit (int n) 31" unfolding bit_iff_odd by simp
  then show ?thesis by (simp add: cast_int_def signed_of_nat signed_take_bit_negative_iff)
qed

subsection \<open>The contract of the filters\<close>

locale base64_bio =
  fixes B :: "'b Bio" and written :: "'b \<Rightarrow> Bytes"
  assumes sink_law: "written (new_sink B) = []"
    and write_law: "0 < n \<Longrightarrow> fst (bio_write B bs n s) = n \<and> written (snd (bio_write B bs n s)) = written s @ take (nat n) bs"
    and write_refused: "n \<le> 0 \<Longrightarrow> fst (bio_write B bs n s) \<le> 0 \<and> \<not> bio_should_retry B (snd (bio_write B bs n s))"
    and flush_law: "bio_mem_data B (bio_flush B s) = b64_text (written s)"
    and read_law: "b64_value t = Some bs \<Longrightarrow> 0 < n \<Longrightarrow>
      bio_read B n (new_source B t) = (int (min (nat n) (length bs)), take (nat n) bs)"
begin

lemma write_loop_ok:
  assumes "bs \<noteq> []" "length bs < 2 ^ 31"
  obtains s' where "write_loop B bs s = Some (Inr s')" "written s' = written s @ bs"
proof -
  have n: "cast_int (length bs) = int (length bs)" "0 < int (length bs)" using assms by (simp_all add: cast_int_small)
  obtain k s' where w: "bio_write B bs (int (length bs)) s = (k, s')" by fastforce
  from write_law [OF n(2), of bs s] w have "k = int (length bs)" "written s' = written s @ bs" by simp_all
  moreover from this w n have "write_loop B bs s = Some (Inr s')" by (subst write_loop.simps) simp
  ultimately show ?thesis using that by blast
qed

lemma encode_ok: "length bs < 2 ^ 31 \<Longrightarrow> base64_encode B bs = Some (Inr (b64_text bs))"
proof (cases "bs = []")
  case False
  assume l: "length bs < 2 ^ 31"
  obtain s' where "write_loop B bs (new_sink B) = Some (Inr s')" "written s' = bs"
    using write_loop_ok [OF False l, of "new_sink B"] sink_law by auto
  with l False show ?thesis by (simp add: base64_encode_def flush_law)
qed (simp add: base64_encode_def)

lemma encode_refused:
  assumes "cast_int (length bs) < 0" "length bs \<le> ((2 ^ 64 - 1) div 4) * 3" "bs \<noteq> []"
  shows "base64_encode B bs = Some (Inl kUnexpectedError)"
proof -
  obtain k s' where w: "bio_write B bs (cast_int (length bs)) (new_sink B) = (k, s')" by fastforce
  with write_refused [of "cast_int (length bs)" bs "new_sink B"] assms(1) have "k \<le> 0" "\<not> bio_should_retry B s'" by auto
  with w have "write_loop B bs (new_sink B) = Some (Inl kUnexpectedError)" by (subst write_loop.simps) simp
  with assms(2,3) show ?thesis by (simp add: base64_encode_def)
qed

lemma decode_view:
  assumes "bs \<noteq> []" "0 < len" "len div 4 * 3 + 1 < 2 ^ 31"
  shows "base64_decode B (b64_text bs @ NUL # rest) len = Ret (Inr (take (len div 4 * 3 + 1) bs))"
proof -
  define m where "m = len div 4 * 3 + 1"
  have t: "takeWhile (\<lambda>c. c \<noteq> NUL) (b64_text bs @ NUL # rest) = b64_text bs"
    using b64_text_chars(2) [of bs] by (subst takeWhile_append2) auto
  have m: "0 < m" "m < 2 ^ 31" using assms(3) by (simp_all add: m_def)
  then have r: "bio_read B (cast_int m) (new_source B (b64_text bs)) = (int (min m (length bs)), take m bs)"
    using read_law [OF b64_value_text [of bs], of "int m"] by (simp add: cast_int_small)
  have "take (min m (length bs)) (memcpy_at (replicate m 0) 0 (take m bs)) = take m bs"
    by (simp add: memcpy_at_def min_def)
  moreover have "0 < min m (length bs)" using assms(1) m by simp
  ultimately show ?thesis
    unfolding base64_decode_def Let_def m_def [symmetric] using assms(2) t r by (simp del: min_less_iff_conj)
qed

end

text \<open>The filters as RFC 4648 describes them.\<close>

definition rfc_bio :: "(Bytes \<times> string) Bio" where
  "rfc_bio =
     \<lparr>new_sink = ([], []),
      bio_write = (\<lambda>bs n (w, t). if n \<le> 0 then (0, (w, t)) else (n, (w @ take (nat n) bs, t))),
      bio_should_retry = (\<lambda>_. False),
      bio_flush = (\<lambda>(w, t). (w, b64_text w)),
      bio_mem_data = snd,
      new_source = (\<lambda>t. ([], t)),
      bio_read = (\<lambda>n (w, t). case b64_value t of None \<Rightarrow> (- 1, []) | Some bs \<Rightarrow> (int (min (nat n) (length bs)), take (nat n) bs))\<rparr>"

interpretation rfc: base64_bio rfc_bio fst
  by unfold_locales (auto simp: rfc_bio_def split: prod.splits)

subsection \<open>Properties\<close>

text \<open>
  C12: Encoding and decoding again gives the bytes, for every byte string short enough for the casts to \<^verbatim>\<open>int\<close>; both return, and
  the text has four characters for every three bytes begun, from the alphabet and the padding only.
\<close>

theorem base64_round_trip:
  assumes "base64_bio B written" and "length bs < 2 ^ 31 - 4"
  shows "\<exists>t. base64_encode B bs = Some (Inr t) \<and> base64_decode B (t @ NUL # rest) (length t) = Ret (Inr bs)
    \<and> length t = 4 * ((length bs + 2) div 3) \<and> set t \<subseteq> insert CHR ''='' (set b64_alphabet)"
proof -
  let ?t = "b64_text bs"
  have e: "base64_encode B bs = Some (Inr ?t)" using assms(2) by (intro base64_bio.encode_ok [OF assms(1)]) simp
  have "base64_decode B (?t @ NUL # rest) (length ?t) = Ret (Inr bs)"
  proof (cases "bs = []")
    case False
    define k where "k = (length bs + 2) div 3"
    have k: "length bs \<le> 3 * k" "3 * k \<le> length bs + 2" "0 < k" using False by (cases bs; auto simp: k_def div_greater_zero_iff)+
    have l: "length ?t = 4 * k" by (simp add: length_b64_text k_def)
    with k assms(2) have "base64_decode B (?t @ NUL # rest) (length ?t) = Ret (Inr (take (length ?t div 4 * 3 + 1) bs))"
      by (intro base64_bio.decode_view [OF assms(1) False]) simp_all
    with k l show ?thesis by simp
  qed (simp add: base64_decode_def)
  with e show ?thesis using length_b64_text [of bs] b64_text_chars(1) [of bs] by auto
qed

theorem base64_round_trip_witness:
  "\<exists>t. base64_encode rfc_bio [1, 2, 3, 255] = Some (Inr t) \<and> base64_decode rfc_bio (t @ NUL # ''xyz'') (length t) = Ret (Inr [1, 2, 3, 255])"
  using base64_round_trip [OF rfc.base64_bio_axioms, of "[1, 2, 3, 255]" "''xyz''"] by auto

text \<open>
  The decoder reads past the end of its view: from a view of the first characters of a longer text it decodes one byte
  that the view does not encode, because OpenSSL is given no length.
\<close>

theorem base64_view_overread:
  assumes "base64_bio B written" and "3 * k < length bs" and "0 < k" and "3 * k + 1 < 2 ^ 31"
  shows "base64_decode B (b64_text bs @ NUL # rest) (4 * k) = Ret (Inr (take (3 * k) bs @ [bs ! (3 * k)]))"
proof -
  have "bs \<noteq> []" using assms(2) by auto
  from base64_bio.decode_view [OF assms(1) this, of "4 * k" rest] assms show ?thesis
    by (simp add: take_Suc_conv_app_nth mult.commute)
qed

theorem base64_view_overread_witness:
  "base64_decode rfc_bio (''QUJDREVG'' @ NUL # []) 4 = Ret (Inr [65, 66, 67, 68])"
proof -
  have "b64_text [65, 66, 67, 68, 69, 70] = ''QUJDREVG''"
    by (simp add: group_value_def b64_char_def b64_alphabet_def Let_def)
  with base64_view_overread [OF rfc.base64_bio_axioms, of 1 "[65, 66, 67, 68, 69, 70]" "[]"] show ?thesis by simp
qed

text \<open>
  An input of \<open>2 ^ 31\<close> bytes or more, up to \<open>2 ^ 32\<close>, passes the check of the length but is refused with
  \<^verbatim>\<open>kUnexpectedError\<close>: its length is negative as an \<^verbatim>\<open>int\<close>.
\<close>

theorem base64_long_input:
  assumes "base64_bio B written" and "2 ^ 31 \<le> length bs" and "length bs < 2 ^ 32"
  shows "base64_encode B bs = Some (Inl kUnexpectedError)"
proof (rule base64_bio.encode_refused [OF assms(1)])
  show "cast_int (length bs) < 0" by (rule cast_int_negative [OF assms(2,3)])
  show "length bs \<le> ((2 ^ 64 - 1) div 4) * 3" using assms(3) by simp
  show "bs \<noteq> []" using assms(2) by auto
qed

theorem base64_long_input_witness:
  "base64_encode rfc_bio (replicate (2 ^ 31) 0) = Some (Inl kUnexpectedError)"
  by (rule base64_long_input [OF rfc.base64_bio_axioms]; unfold length_replicate; simp)

lemma rfc4648_vectors:
  "b64_text [102] = ''Zg==''" "b64_text [102, 111] = ''Zm8=''" "b64_text [102, 111, 111] = ''Zm9v''"
  "b64_text [102, 111, 111, 98, 97, 114] = ''Zm9vYmFy''"
  by (simp_all add: group_value_def b64_char_def b64_alphabet_def Let_def)

end
