(* ===== verification/Human_Bytes.thy ===== *)
theory Human_Bytes
  imports Complex_Main Common_Base Decimal_Text
begin

section \<open>Human readable sizes and small text helpers\<close>

text \<open>
  \<^verbatim>\<open>zen/core/common/misc.cpp\<close>. The regular expression of \<^verbatim>\<open>parse_human_bytes\<close>,
  \<^verbatim>\<open>^(\d{0,10})(\.\d{1,3})?\ *?(B|KB|MB|GB|TB|KiB|MiB|GiB|TiB)?$\<close> without regard to case, is \<open>match_human\<close>: no
  character can belong to two of its parts, so there is at most one way to match. The arithmetic is
  on \<^verbatim>\<open>uint64_t\<close> and wraps.

  \<^verbatim>\<open>to_human_bytes\<close> computes in \<^verbatim>\<open>double\<close> and prints with \<^verbatim>\<open>boost::format\<close>; both are parameters, the record
  \<open>Float_ops\<close> over a type \<open>'d\<close> of numbers. The locale \<open>exact_binary\<close> states the part of IEEE 754 the
  binary scale needs: integers up to \<open>2 ^ 53\<close> are exact, and so is a division by 1024. The random
  generator of \<^verbatim>\<open>get_random_alpha_string\<close> is a function on a state of its own.
\<close>

subsection \<open>Operations\<close>

definition abridge :: "string \<Rightarrow> nat \<Rightarrow> string" where
  "abridge input len =
     (if len = 0 \<or> input = [] then input
      else if length input \<le> len then input
      else take len input @ ''...'')"

definition to_lower :: "char \<Rightarrow> char" where
  "to_lower c =
     (if 65 \<le> (of_char c :: nat) \<and> of_char c \<le> (90 :: nat) then char_of (of_char c + 32 :: nat) else c)"

definition iequals :: "string \<Rightarrow> string \<Rightarrow> bool" where
  "iequals s t \<longleftrightarrow> map to_lower s = map to_lower t"

definition size_suffixes :: "string list" where
  "size_suffixes = [''B'', ''KB'', ''MB'', ''GB'', ''TB'', ''KiB'', ''MiB'', ''GiB'', ''TiB'']"

definition suffix_ok :: "string \<Rightarrow> bool" where
  "suffix_ok s \<longleftrightarrow> s = [] \<or> list_ex (iequals s) size_suffixes"

definition match_tail :: "string \<Rightarrow> string option" where
  "match_tail rest =
     (let suffix = dropWhile (\<lambda>c. c = CHR '' '') rest in if suffix_ok suffix then Some suffix else None)"

definition match_human :: "string \<Rightarrow> (string \<times> string \<times> string) option" where
  "match_human input =
     (let whole = takeWhile is_digit input; rest = dropWhile is_digit input in
      if length whole > 10 then None
      else
        case rest of
          [] \<Rightarrow> Some (whole, [], [])
        | c # cs \<Rightarrow>
            if c = CHR ''.'' then
              (let fract = takeWhile is_digit cs in
               if fract = [] \<or> length fract > 3 then None
               else map_option (\<lambda>suffix. (whole, c # fract, suffix)) (match_tail (dropWhile is_digit cs)))
            else map_option (\<lambda>suffix. (whole, [], suffix)) (match_tail rest))"

definition suffix_multiplier :: "string \<Rightarrow> u64" where
  "suffix_multiplier suffix =
     (if iequals suffix ''KB'' then kKB
      else if iequals suffix ''MB'' then kMB
      else if iequals suffix ''GB'' then kGB
      else if iequals suffix ''TB'' then kTB
      else if iequals suffix ''KiB'' then kKiB
      else if iequals suffix ''MiB'' then kMiB
      else if iequals suffix ''GiB'' then kGiB
      else if iequals suffix ''TiB'' then kTiB
      else 1)"

function base_loop :: "nat \<Rightarrow> nat \<Rightarrow> u32 \<Rightarrow> u32" where
  "base_loop i sz base = (if i < sz then base_loop (Suc i) sz (base * 10) else base)"
  by pat_completeness auto
termination by (relation "measure (\<lambda>(i, sz, _). sz - i)") auto

declare base_loop.simps [simp del]

definition parse_human_bytes :: "string \<Rightarrow> DecodingError + u64" where
  "parse_human_bytes input =
     (if input = [] then Inr 0
      else
        case match_human input of
          None \<Rightarrow> Inl kInvalidInput
        | Some (whole_part, fract, suffix) \<Rightarrow>
            let fract_part = (if fract \<noteq> [] then tl fract else fract);
                multiplier = suffix_multiplier suffix;
                v = of_nat (dec_val whole_part) * multiplier
            in Inr (if multiplier > 1 \<and> fract_part \<noteq> [] then
                      let base = base_loop 1 (length fract_part) 10;
                          fract = of_nat (dec_val fract_part)
                      in v + multiplier * fract div ucast base
                    else v))"

record 'd Float_ops =
  of_size :: "u64 \<Rightarrow> 'd"
  at_least :: "'d \<Rightarrow> u64 \<Rightarrow> bool"
  divide_by :: "'d \<Rightarrow> u64 \<Rightarrow> 'd"
  format_value :: "string \<Rightarrow> 'd \<Rightarrow> string \<Rightarrow> string"

function scale_loop :: "'d Float_ops \<Rightarrow> u64 \<Rightarrow> 'd \<Rightarrow> nat \<Rightarrow> 'd \<times> nat" where
  "scale_loop F divisor v index =
     (if at_least F v divisor \<and> index < 5 then scale_loop F divisor (divide_by F v divisor) (index + 1)
      else (v, index))"
  by pat_completeness auto
termination by (relation "measure (\<lambda>(_, _, _, index). 5 - index)") auto

declare scale_loop.simps [simp del]

definition to_human_bytes :: "'d Float_ops \<Rightarrow> u64 \<Rightarrow> bool \<Rightarrow> string run" where
  "to_human_bytes F input binary =
     (let suffixes = [''B'', ''KB'', ''MB'', ''GB'', ''TB''];
          binary_suffixes = [''B'', ''KiB'', ''MiB'', ''GiB'', ''TiB''];
          divisor = (if binary then kKiB else kKB);
          (v, index) = scale_loop F divisor (of_size F input) 0;
          formatter = (if index \<noteq> 0 then ''%.02f %s'' else ''%.0f %s'')
      in if index < 5 then Ret (format_value F formatter v ((if binary then binary_suffixes else suffixes) ! index))
         else Undef)"

definition kAlphaNum :: string where
  "kAlphaNum = ''0123456789abcdefghijklmnopqrstuvwxyz''"

function random_loop :: "('g \<Rightarrow> nat \<times> 'g) \<Rightarrow> nat \<Rightarrow> nat \<Rightarrow> 'g \<Rightarrow> string \<Rightarrow> (string \<times> 'g) run" where
  "random_loop uniform_dist len i engine ret =
     (if i < len then
        let (random_number, engine) = uniform_dist engine in
        if random_number < length kAlphaNum
        then random_loop uniform_dist len (Suc i) engine (ret[i := kAlphaNum ! random_number])
        else Undef
      else Ret (ret, engine))"
  by pat_completeness auto
termination by (relation "measure (\<lambda>(_, len, i, _, _). len - i)") auto

declare random_loop.simps [simp del]

definition get_random_alpha_string :: "('g \<Rightarrow> nat \<times> 'g) \<Rightarrow> nat \<Rightarrow> 'g \<Rightarrow> (string \<times> 'g) run" where
  "get_random_alpha_string uniform_dist len engine =
     random_loop uniform_dist len 0 engine (replicate len CHR ''0'')"

subsection \<open>Parsing a size\<close>

text \<open>
  The accepted texts and what they mean. The units are those of the documentation, each with its letters in lower case and its number of bytes; each
  letter may be written in either case.
\<close>

definition units :: "(string \<times> nat) list" where
  "units = [([], 1), (''b'', 1),
     (''kb'', 1000), (''mb'', 1000000), (''gb'', 1000000000), (''tb'', 1000000000000),
     (''kib'', 1024), (''mib'', 1048576), (''gib'', 1073741824), (''tib'', 1099511627776)]"

definition same_letter :: "char \<Rightarrow> char \<Rightarrow> bool" where
  "same_letter c l \<longleftrightarrow> c = l \<or> (c, l) \<in> set (zip ''BKMGTI'' ''bkmgti'')"

definition unit_bytes :: "string \<Rightarrow> nat option" where
  "unit_bytes s = map_option snd (find (\<lambda>(u, n). list_all2 same_letter s u) units)"

definition human_text :: "string \<Rightarrow> string \<Rightarrow> string \<Rightarrow> nat \<Rightarrow> string \<Rightarrow> bool" where
  "human_text input w f k suffix \<longleftrightarrow>
     list_all is_digit w \<and> length w \<le> 10 \<and> list_all is_digit f \<and> length f \<le> 3 \<and> unit_bytes suffix \<noteq> None \<and>
     input = w @ (if f = [] then [] else CHR ''.'' # f) @ replicate k CHR '' '' @ suffix"

definition human_value :: "string \<Rightarrow> string \<Rightarrow> string \<Rightarrow> nat" where
  "human_value w f suffix =
     (let m = the (unit_bytes suffix)
      in dec_val w * m + (if m = 1 then 0 else m * dec_val f div 10 ^ length f))"

lemma to_lower_suffix:
  "to_lower CHR ''B'' = CHR ''b''" "to_lower CHR ''K'' = CHR ''k''" "to_lower CHR ''M'' = CHR ''m''"
  "to_lower CHR ''G'' = CHR ''g''" "to_lower CHR ''T'' = CHR ''t''" "to_lower CHR ''i'' = CHR ''i''"
  by code_simp+

lemma to_lower_letter:
  assumes "97 \<le> (of_char d :: nat)" "of_char d \<le> (122 :: nat)" "of_char u + 32 = (of_char d :: nat)"
  shows "to_lower c = d \<longleftrightarrow> c = d \<or> c = u"
proof -
  have n: "x = y \<longleftrightarrow> (of_char x :: nat) = of_char y" for x y :: char by (rule of_char_eq_iff [symmetric])
  have "(of_char (to_lower c) :: nat) = (if 65 \<le> (of_char c :: nat) \<and> of_char c \<le> (90 :: nat) then of_char c + 32 else of_char c)"
    by (simp add: to_lower_def)
  then show ?thesis using assms unfolding n [of "to_lower c" d] n [of c d] n [of c u] by (simp del: of_char_eq_iff) linarith
qed

lemma to_lower_letters:
  "to_lower c = CHR ''b'' \<longleftrightarrow> c = CHR ''b'' \<or> c = CHR ''B''" "to_lower c = CHR ''k'' \<longleftrightarrow> c = CHR ''k'' \<or> c = CHR ''K''"
  "to_lower c = CHR ''m'' \<longleftrightarrow> c = CHR ''m'' \<or> c = CHR ''M''" "to_lower c = CHR ''g'' \<longleftrightarrow> c = CHR ''g'' \<or> c = CHR ''G''"
  "to_lower c = CHR ''t'' \<longleftrightarrow> c = CHR ''t'' \<or> c = CHR ''T''" "to_lower c = CHR ''i'' \<longleftrightarrow> c = CHR ''i'' \<or> c = CHR ''I''"
  by (rule to_lower_letter; simp)+

text \<open>The pattern's suffixes and the chain of comparisons agree with the table of units.\<close>

lemma same_letter_simps:
  "same_letter c CHR ''b'' \<longleftrightarrow> c = CHR ''b'' \<or> c = CHR ''B''" "same_letter c CHR ''k'' \<longleftrightarrow> c = CHR ''k'' \<or> c = CHR ''K''"
  "same_letter c CHR ''m'' \<longleftrightarrow> c = CHR ''m'' \<or> c = CHR ''M''" "same_letter c CHR ''g'' \<longleftrightarrow> c = CHR ''g'' \<or> c = CHR ''G''"
  "same_letter c CHR ''t'' \<longleftrightarrow> c = CHR ''t'' \<or> c = CHR ''T''" "same_letter c CHR ''i'' \<longleftrightarrow> c = CHR ''i'' \<or> c = CHR ''I''"
  by (auto simp: same_letter_def)

lemma iequals_letters:
  "iequals s ''B'' \<longleftrightarrow> list_all2 same_letter s ''b''"
  "iequals s ''KB'' \<longleftrightarrow> list_all2 same_letter s ''kb''" "iequals s ''MB'' \<longleftrightarrow> list_all2 same_letter s ''mb''"
  "iequals s ''GB'' \<longleftrightarrow> list_all2 same_letter s ''gb''" "iequals s ''TB'' \<longleftrightarrow> list_all2 same_letter s ''tb''"
  "iequals s ''KiB'' \<longleftrightarrow> list_all2 same_letter s ''kib''" "iequals s ''MiB'' \<longleftrightarrow> list_all2 same_letter s ''mib''"
  "iequals s ''GiB'' \<longleftrightarrow> list_all2 same_letter s ''gib''" "iequals s ''TiB'' \<longleftrightarrow> list_all2 same_letter s ''tib''"
  by (simp_all add: iequals_def to_lower_suffix list_all2_Cons2 map_eq_Cons_conv same_letter_simps to_lower_letters)

lemma suffix_ok_units: "suffix_ok s \<longleftrightarrow> unit_bytes s \<noteq> None"
  by (auto simp: suffix_ok_def size_suffixes_def unit_bytes_def units_def iequals_letters)

lemma suffix_multiplier_units: "unit_bytes s = Some n \<Longrightarrow> unat (suffix_multiplier s) = n"
proof -
  assume u: "unit_bytes s = Some n"
  consider "s = []" | "list_all2 same_letter s ''b''" | "s \<noteq> []" "\<not> list_all2 same_letter s ''b''" by blast
  then show ?thesis
  proof cases
    case 1
    with u show ?thesis by (simp add: suffix_multiplier_def unit_bytes_def units_def iequals_letters)
  next
    case 2
    then obtain c where "s = [c]" by (auto simp: list_all2_Cons2)
    with u 2 show ?thesis by (simp add: suffix_multiplier_def unit_bytes_def units_def iequals_letters)
  next
    case 3
    with u show ?thesis
      by (simp add: suffix_multiplier_def unit_bytes_def units_def iequals_letters size_constants_values split: if_splits)
  qed
qed

lemma suffix_chars:
  assumes "suffix_ok (c # cs)"
  shows "\<not> is_digit c \<and> c \<noteq> CHR '' '' \<and> c \<noteq> CHR ''.''"
proof -
  have low: "to_lower c \<in> set ''bkmgt''"
    using assms by (auto simp: suffix_ok_def size_suffixes_def iequals_def to_lower_suffix)
  have "to_lower x = x" if "is_digit x \<or> x = CHR '' '' \<or> x = CHR ''.''" for x
    using that by (auto simp: to_lower_def is_digit_def)
  with low show ?thesis by (fastforce simp: is_digit_def)
qed

lemma match_tail_ok:
  assumes "suffix_ok suffix"
  shows "match_tail (replicate k CHR '' '' @ suffix) = Some suffix"
proof -
  have "dropWhile (\<lambda>c. c = CHR '' '') suffix = suffix"
    using assms suffix_chars by (cases suffix) auto
  then have "dropWhile (\<lambda>c. c = CHR '' '') (replicate k CHR '' '' @ suffix) = suffix"
    by (induction k) auto
  then show ?thesis using assms by (simp add: match_tail_def)
qed

lemma match_tailD:
  assumes "match_tail rest = Some suffix"
  obtains k where "rest = replicate k CHR '' '' @ suffix" "suffix_ok suffix"
proof -
  have "takeWhile (\<lambda>c. c = CHR '' '') rest = replicate (length (takeWhile (\<lambda>c. c = CHR '' '') rest)) CHR '' ''"
    by (induction rest) auto
  then have "rest = replicate (length (takeWhile (\<lambda>c. c = CHR '' '') rest)) CHR '' '' @ dropWhile (\<lambda>c. c = CHR '' '') rest"
    by (metis takeWhile_dropWhile_id)
  with assms show ?thesis
    by (intro that) (auto simp: match_tail_def Let_def split: if_splits)
qed

lemma tail_no_digit:
  assumes "suffix_ok suffix"
  shows "takeWhile is_digit (replicate k CHR '' '' @ suffix) = []"
    and "replicate k CHR '' '' @ suffix \<noteq> CHR ''.'' # cs"
proof -
  have "\<not> is_digit CHR '' ''" by (simp add: is_digit_def)
  then show "takeWhile is_digit (replicate k CHR '' '' @ suffix) = []"
    and "replicate k CHR '' '' @ suffix \<noteq> CHR ''.'' # cs"
    using assms suffix_chars by (cases k; cases suffix; fastforce)+
qed

lemma take_digits:
  assumes "list_all is_digit w" "takeWhile is_digit r = []"
  shows "takeWhile is_digit (w @ r) = w" "dropWhile is_digit (w @ r) = r"
proof -
  have "dropWhile is_digit r = r" using assms(2) by (metis append_Nil takeWhile_dropWhile_id)
  then show "takeWhile is_digit (w @ r) = w" "dropWhile is_digit (w @ r) = r"
    using assms by (simp_all add: list_all_iff)
qed

lemma match_human_text:
  assumes "human_text input w f k suffix"
  shows "match_human input = Some (w, if f = [] then [] else CHR ''.'' # f, suffix)"
proof -
  note h = assms [unfolded human_text_def, folded suffix_ok_units]
  let ?t = "replicate k CHR '' '' @ suffix"
  note t = tail_no_digit [of suffix k] match_tail_ok [of suffix k]
  show ?thesis
  proof (cases "f = []")
    case True
    with h have i: "input = w @ ?t" by simp
    show ?thesis
    proof (cases ?t)
      case Nil
      with i have td: "takeWhile is_digit input = w" "dropWhile is_digit input = []"
        using h take_digits [of w "[]"] by simp_all
      from h True Nil show ?thesis unfolding match_human_def Let_def td by simp
    next
      case (Cons c cs)
      with h t have "c \<noteq> CHR ''.''" by auto
      with h True i t Cons show ?thesis
        using take_digits [of w ?t] by (simp add: match_human_def Let_def)
    qed
  next
    case False
    with h have i: "input = w @ CHR ''.'' # f @ ?t" by simp
    with h t False show ?thesis
      using take_digits [of w "CHR ''.'' # f @ ?t"] take_digits [of f ?t] by (simp add: match_human_def Let_def)
  qed
qed

lemma match_humanD:
  assumes "match_human input = Some (w, fr, suffix)"
  shows "\<exists>f k. human_text input w f k suffix \<and> fr = (if f = [] then [] else CHR ''.'' # f)"
proof -
  have d: "list_all is_digit (takeWhile is_digit xs)" for xs
    by (simp add: list_all_iff) (metis set_takeWhileD)
  let ?w = "takeWhile is_digit input" and ?r = "dropWhile is_digit input"
  have i: "input = ?w @ ?r" by simp
  from assms have w: "w = ?w" "length ?w \<le> 10"
    by (auto simp: match_human_def Let_def split: if_splits list.splits)
  show ?thesis
  proof (cases ?r)
    case Nil
    with assms w i d [of input] have "human_text input w [] 0 suffix \<and> fr = []"
      by (auto simp: match_human_def Let_def human_text_def unit_bytes_def units_def)
    then show ?thesis by fastforce
  next
    case (Cons c cs)
    show ?thesis
    proof (cases "c = CHR ''.''")
      case True
      let ?f = "takeWhile is_digit cs"
      from assms Cons True w have f: "?f \<noteq> []" "length ?f \<le> 3" "fr = CHR ''.'' # ?f"
        "match_tail (dropWhile is_digit cs) = Some suffix"
        by (auto simp: match_human_def Let_def split: if_splits)
      from f(4) obtain k where "dropWhile is_digit cs = replicate k CHR '' '' @ suffix" "suffix_ok suffix"
        by (rule match_tailD)
      then have "cs = ?f @ replicate k CHR '' '' @ suffix" by (metis takeWhile_dropWhile_id)
      with i Cons True have "input = ?w @ CHR ''.'' # ?f @ replicate k CHR '' '' @ suffix" by metis
      with f w d \<open>suffix_ok suffix\<close> have "human_text input w ?f k suffix"
        unfolding human_text_def suffix_ok_units [symmetric] by simp
      with f show ?thesis by auto
    next
      case False
      with assms Cons w have f: "fr = []" "match_tail ?r = Some suffix"
        by (auto simp: match_human_def Let_def split: if_splits)
      from f(2) obtain k where "?r = replicate k CHR '' '' @ suffix" "suffix_ok suffix"
        by (rule match_tailD)
      with i w d [of input] have "human_text input w [] k suffix"
        unfolding human_text_def suffix_ok_units [symmetric] by simp
      with f show ?thesis by fastforce
    qed
  qed
qed

lemma multiplier_bound: "unat (suffix_multiplier suffix) \<le> 2 ^ 40 \<and> 0 < unat (suffix_multiplier suffix)"
  by (simp add: suffix_multiplier_def size_constants_values)

lemma base_loop_power: "1 \<le> n \<Longrightarrow> n \<le> 3 \<Longrightarrow> unat (ucast (base_loop 1 n 10) :: u64) = 10 ^ n"
proof -
  assume "1 \<le> n" "n \<le> 3"
  then consider "n = 1" | "n = 2" | "n = 3" by linarith
  then show ?thesis by cases (simp_all add: base_loop.simps)
qed

lemma fract_part_value:
  assumes "list_all is_digit f" "f \<noteq> []" "length f \<le> 3"
  shows "unat (suffix_multiplier suffix * of_nat (dec_val f) div ucast (base_loop 1 (length f) 10))
    = unat (suffix_multiplier suffix) * dec_val f div 10 ^ length f"
proof -
  let ?m = "suffix_multiplier suffix"
  have "10 ^ length f \<le> (10 ^ 3 :: nat)" by (rule power_increasing) (use assms in simp_all)
  then have f: "dec_val f < 1000" using dec_val_less [OF assms(1)] by simp
  then have "unat (of_nat (dec_val f) :: u64) = dec_val f" by (simp add: unat_of_nat)
  moreover have "unat ?m * dec_val f < 2 ^ 64"
    using mult_le_mono [OF multiplier_bound [of suffix, THEN conjunct1] less_imp_le [OF f]] by simp
  ultimately have "unat (?m * of_nat (dec_val f)) = unat ?m * dec_val f"
    by (simp add: unat_mult_no_wrap)
  then show ?thesis
    using base_loop_power [of "length f"] assms by (simp add: unat_div_distrib Suc_le_eq)
qed

lemma parse_human_value:
  assumes "human_text input w f k suffix"
  shows "\<exists>v. parse_human_bytes input = Inr v \<and> unat v = human_value w f suffix mod 2 ^ 64"
proof (cases "input = []")
  case True
  with assms have "w = []" "f = []" "suffix = []" by (auto simp: human_text_def split: if_splits)
  then show ?thesis using True by (simp add: parse_human_bytes_def human_value_def Let_def)
next
  case False
  have m: "the (unit_bytes suffix) = unat (suffix_multiplier suffix)"
    using assms suffix_multiplier_units by (auto simp: human_text_def)
  let ?m = "suffix_multiplier suffix"
  have one: "?m > 1 \<longleftrightarrow> unat ?m \<noteq> 1"
    using multiplier_bound [of suffix] by (auto simp: word_less_nat_alt)
  have v: "unat (of_nat (dec_val w) * ?m) = dec_val w * unat ?m mod 2 ^ 64"
    by (simp add: unat_word_ariths unat_of_nat mod_mult_left_eq)
  let ?p = "?m * of_nat (dec_val f) div ucast (base_loop 1 (length f) 10)"
  have "unat (of_nat (dec_val w) * ?m + ?p) = (dec_val w * unat ?m + unat ?p) mod 2 ^ 64"
    unfolding unat_word_ariths(1) v by (simp add: mod_add_left_eq)
  with assms False one v match_human_text [OF assms] fract_part_value [of f suffix] show ?thesis
    by (auto simp: parse_human_bytes_def human_value_def human_text_def m Let_def)
qed

subsection \<open>Printing a size\<close>

locale exact_binary =
  fixes F :: "'d Float_ops" and val :: "'d \<Rightarrow> real"
  assumes of_size_law: "unat x \<le> 2 ^ 53 \<Longrightarrow> val (of_size F x) = of_nat (unat x)"
    and at_least_law: "at_least F d n \<longleftrightarrow> of_nat (unat n) \<le> val d"
    and divide_law: "1 \<le> val d \<Longrightarrow> val (divide_by F d kKiB) = val d / 1024"
begin

lemma scale_loop_exact:
  assumes "scale_loop F kKiB v i = (v', j)" and "i \<le> 5" and "i = 0 \<or> 1 \<le> val v"
  shows "val v' * 1024 ^ j = val v * 1024 ^ i \<and> i \<le> j \<and> j \<le> 5 \<and> (j < 5 \<longrightarrow> val v' < 1024) \<and> (j = 0 \<or> 1 \<le> val v')"
  using assms
proof (induction "5 - i" arbitrary: i v)
  case 0
  then show ?case by (subst (asm) scale_loop.simps) simp
next
  case (Suc k)
  then have i: "i < 5" by linarith
  show ?case
  proof (cases "1024 \<le> val v")
    case True
    then have next_step: "scale_loop F kKiB (divide_by F v kKiB) (Suc i) = (v', j)"
      using Suc.prems(1) i
      by (subst (asm) scale_loop.simps) (simp add: at_least_law size_constants_values)
    have d: "val (divide_by F v kKiB) = val v / 1024" using True by (simp add: divide_law)
    from i Suc.hyps(2) have "k = 5 - Suc i" "Suc i \<le> 5" by simp_all
    from Suc.hyps(1) [OF this(1) next_step this(2)] True d show ?thesis by (auto simp: field_simps)
  next
    case False
    with Suc.prems(1) have "v' = v" "j = i"
      by (subst (asm) scale_loop.simps; simp add: at_least_law size_constants_values)+
    with False Suc.prems show ?thesis by simp
  qed
qed

lemma human_binary:
  assumes "unat input \<le> 2 ^ 53"
  shows "if unat input < 1024 ^ 5
    then \<exists>i v. i < 5 \<and> (i = 0 \<or> 1024 ^ i \<le> unat input) \<and> unat input < 1024 ^ (i + 1)
        \<and> val v * 1024 ^ i = of_nat (unat input)
        \<and> to_human_bytes F input True
            = Ret (format_value F (if i \<noteq> 0 then ''%.02f %s'' else ''%.0f %s'') v
                    ([''B'', ''KiB'', ''MiB'', ''GiB'', ''TiB''] ! i))
    else to_human_bytes F input True = Undef"
proof -
  obtain v j where l: "scale_loop F kKiB (of_size F input) 0 = (v, j)" by fastforce
  from scale_loop_exact [OF l] of_size_law [OF assms]
  have x: "val v * 1024 ^ j = real (unat input)" "j \<le> 5" "j < 5 \<longrightarrow> val v < 1024" "j = 0 \<or> 1 \<le> val v"
    by simp_all
  have low: "1024 ^ j \<le> unat input" if "j \<noteq> 0"
  proof -
    have "1 * 1024 ^ j \<le> val v * 1024 ^ j" using x(4) that by (intro mult_right_mono) auto
    then have "real (1024 ^ j) \<le> real (unat input)" using x(1) by simp
    then show ?thesis by (simp only: of_nat_le_iff)
  qed
  have high: "unat input < 1024 ^ (j + 1)" if "j < 5"
  proof -
    have "val v * 1024 ^ j < 1024 * 1024 ^ j" using x(3) that by (intro mult_strict_right_mono) auto
    then have "real (unat input) < real (1024 ^ (j + 1))" using x(1) by simp
    then show ?thesis by (simp only: of_nat_less_iff)
  qed
  show ?thesis
  proof (cases "j = 5")
    case True
    with low l show ?thesis by (simp add: to_human_bytes_def)
  next
    case False
    then have j: "j < 5" using x(2) by simp
    then have "(1024 :: nat) ^ (j + 1) \<le> 1024 ^ 5" by (intro power_increasing) auto
    with high j have "unat input < 1024 ^ 5" by simp
    moreover have "to_human_bytes F input True
        = Ret (format_value F (if j \<noteq> 0 then ''%.02f %s'' else ''%.0f %s'') v
                ([''B'', ''KiB'', ''MiB'', ''GiB'', ''TiB''] ! j))"
      using j l by (simp add: to_human_bytes_def)
    ultimately show ?thesis using x(1) low high j by (auto intro!: exI [of _ j] exI [of _ v])
  qed
qed

end

text \<open>Arithmetic without rounding satisfies the laws.\<close>

definition exact_floats :: "real Float_ops" where
  "exact_floats =
     \<lparr>of_size = (\<lambda>x. of_nat (unat x)), at_least = (\<lambda>d n. of_nat (unat n) \<le> d),
      divide_by = (\<lambda>d n. d / of_nat (unat n)), format_value = (\<lambda>fmt d unit. unit)\<rparr>"

interpretation exact_floats: exact_binary exact_floats "\<lambda>d. d"
  by unfold_locales (simp_all add: exact_floats_def size_constants_defs)

subsection \<open>Random text\<close>

lemma random_loop_alnum:
  assumes "\<And>g. fst (udist g) < length kAlphaNum" "length ret = len" "i \<le> len" "set (take i ret) \<subseteq> set kAlphaNum"
  shows "\<exists>s g'. random_loop udist len i g ret = Ret (s, g') \<and> length s = len \<and> set s \<subseteq> set kAlphaNum"
  using assms(2-)
proof (induction "len - i" arbitrary: i g ret)
  case 0
  then show ?case by (subst random_loop.simps) simp
next
  case (Suc k)
  then have i: "i < len" by linarith
  obtain n g1 where d: "udist g = (n, g1)" by fastforce
  with assms(1) [of g] have n: "n < length kAlphaNum" by simp
  let ?r = "ret[i := kAlphaNum ! n]"
  have "take (Suc i) ?r = take i ret @ [kAlphaNum ! n]"
    using Suc.hyps(2) Suc.prems by (simp add: take_Suc_conv_app_nth)
  with Suc.prems n have "set (take (Suc i) ?r) \<subseteq> set kAlphaNum" by auto
  with Suc.hyps(1) [of "Suc i" ?r g1] Suc.hyps(2) Suc.prems d n i show ?case
    by (subst random_loop.simps) simp
qed

lemma random_loop_chars:
  "random_loop udist len i g ret = Ret (s, g') \<Longrightarrow> length ret = len \<Longrightarrow> i \<le> len \<Longrightarrow>
    set (take i ret) \<subseteq> set kAlphaNum \<Longrightarrow> length s = len \<and> set s \<subseteq> set kAlphaNum"
proof (induction udist len i g ret rule: random_loop.induct)
  case (1 udist len i g ret)
  show ?case
  proof (cases "i < len")
    case True
    obtain n g1 where d: "udist g = (n, g1)" by fastforce
    from "1.prems"(1) True d have n: "n < length kAlphaNum"
      by (subst (asm) random_loop.simps) (simp split: if_splits)
    have "take (Suc i) (ret[i := kAlphaNum ! n]) = take i ret @ [kAlphaNum ! n]"
      using True "1.prems"(2) by (simp add: take_Suc_conv_app_nth)
    with "1.prems" True d n "1.IH" [OF True d [symmetric] refl n] show ?thesis
      by (subst (asm) random_loop.simps) auto
  qed (use "1.prems" in \<open>subst (asm) random_loop.simps, auto\<close>)
qed

lemma random_alpha_chars:
  "get_random_alpha_string udist len g = Ret (s, g') \<Longrightarrow> length s = len \<and> set s \<subseteq> set kAlphaNum"
  unfolding get_random_alpha_string_def by (erule random_loop_chars) simp_all

subsection \<open>Properties\<close>

text \<open>
  C36: \<^verbatim>\<open>parse_human_bytes\<close> accepts exactly the texts of the form of its pattern (up to ten digits, optionally a
  point and one to three digits, spaces, optionally one of the nine units with letters of either case) and returns their value
  reduced modulo \<open>2 ^ 64\<close>: the whole part times the unit plus the fraction of the unit rounded down, the
  fraction ignored when the unit is the byte. Everything else is \<^verbatim>\<open>kInvalidInput\<close>.
\<close>

theorem parse_human_bytes_spec:
  "(\<forall>w f k suffix. human_text input w f k suffix \<longrightarrow>
      (\<exists>v. parse_human_bytes input = Inr v \<and> unat v = human_value w f suffix mod 2 ^ 64))
   \<and> ((\<nexists>w f k suffix. human_text input w f k suffix) \<longrightarrow> parse_human_bytes input = Inl kInvalidInput)"
proof (intro conjI allI impI)
  assume n: "\<nexists>w f k suffix. human_text input w f k suffix"
  then have "match_human input = None"
    using match_humanD by (cases "match_human input") fastforce+
  moreover have "human_text [] [] [] 0 []" by (simp add: human_text_def unit_bytes_def units_def)
  with n have "input \<noteq> []" by blast
  ultimately show "parse_human_bytes input = Inl kInvalidInput" by (simp add: parse_human_bytes_def)
qed (rule parse_human_value)

theorem parse_human_bytes_spec_witness:
  "parse_human_bytes ''1.5 KiB'' = Inr 1536"
proof -
  have "human_text ''1.5 KiB'' ''1'' ''5'' 1 ''KiB''"
    by (simp add: human_text_def is_digit_def unit_bytes_def units_def same_letter_simps)
  then obtain v where "parse_human_bytes ''1.5 KiB'' = Inr v" "unat v = human_value ''1'' ''5'' ''KiB'' mod 2 ^ 64"
    using parse_human_bytes_spec [of "''1.5 KiB''"] by blast
  moreover have "human_value ''1'' ''5'' ''KiB'' = 1536"
    by (simp add: human_value_def unit_bytes_def units_def same_letter_simps digit_val_def Let_def)
  ultimately show ?thesis by (simp add: word_unat_eq_iff)
qed

text \<open>
  The product of the whole part and the unit is not checked for overflow: a text the pattern
  accepts can be parsed, without an error, to a size smaller than the one it writes.
\<close>

theorem parse_human_bytes_wraps:
  "\<exists>v. parse_human_bytes ''9999999999TB'' = Inr v \<and> unat v < human_value ''9999999999'' [] ''TB''"
proof -
  have "human_text ''9999999999TB'' ''9999999999'' [] 0 ''TB''"
    by (simp add: human_text_def is_digit_def unit_bytes_def units_def same_letter_simps)
  then obtain v where "parse_human_bytes ''9999999999TB'' = Inr v"
    "unat v = human_value ''9999999999'' [] ''TB'' mod 2 ^ 64"
    using parse_human_value by blast
  moreover have "human_value ''9999999999'' [] ''TB'' = 9999999999 * 10 ^ 12"
    by (simp add: human_value_def unit_bytes_def units_def same_letter_simps digit_val_def dec_val_def Let_def)
  ultimately show ?thesis by simp
qed

text \<open>
  With exact arithmetic (which IEEE doubles give for a division by 1024), \<^verbatim>\<open>to_human_bytes\<close> in binary
  units prints a size below \<open>1024 ^ 5\<close> with the unit it belongs to; from \<open>1024 ^ 5\<close> on the loop
  runs one step too far and the code reads the array of units out of bounds.
\<close>

theorem to_human_bytes_binary:
  assumes "exact_binary F val" and "unat input \<le> 2 ^ 53"
  shows "if unat input < 1024 ^ 5
    then \<exists>i v. i < 5 \<and> (i = 0 \<or> 1024 ^ i \<le> unat input) \<and> unat input < 1024 ^ (i + 1)
        \<and> val v * 1024 ^ i = of_nat (unat input)
        \<and> to_human_bytes F input True
            = Ret (format_value F (if i \<noteq> 0 then ''%.02f %s'' else ''%.0f %s'') v
                    ([''B'', ''KiB'', ''MiB'', ''GiB'', ''TiB''] ! i))
    else to_human_bytes F input True = Undef"
  by (rule exact_binary.human_binary [OF assms])

theorem to_human_bytes_binary_witness:
  "to_human_bytes exact_floats 1125899906842624 True = Undef"
  using to_human_bytes_binary [OF exact_floats.exact_binary_axioms, of 1125899906842624] by simp

text \<open>
  \<^verbatim>\<open>get_random_alpha_string\<close> returns for every generator whose numbers stay in the range of the
  distribution, and its result has the requested length and only lower case letters and digits.
\<close>

theorem random_alpha_string:
  assumes "\<And>g. fst (uniform_dist g) < length kAlphaNum"
  shows "\<exists>s g'. get_random_alpha_string uniform_dist len engine = Ret (s, g') \<and> length s = len
    \<and> set s \<subseteq> set kAlphaNum"
  unfolding get_random_alpha_string_def by (rule random_loop_alnum [OF assms]) simp_all

theorem random_alpha_string_witness:
  "\<exists>s g'. get_random_alpha_string (\<lambda>g :: nat. (g mod 36, g * 7 + 3)) 8 1 = Ret (s, g') \<and> length s = 8
    \<and> set s \<subseteq> set kAlphaNum"
  by (rule random_alpha_string) (simp add: kAlphaNum_def)

end
