(* ===== verification/Locked_Pages.thy ===== *)
theory Locked_Pages
  imports Moria_Prelude
begin

unbundle bit_operations_syntax

section \<open>Locked memory pages and the secure allocator\<close>

text \<open>
  \<^verbatim>\<open>zen/core/common/memory.hpp\<close> and \<^verbatim>\<open>secure_bytes.hpp\<close>: a counter per memory page of how many ranges want
  it locked. Addresses are 64-bit words and wrap. The template parameter \<^verbatim>\<open>Locker\<close> (which calls \<^verbatim>\<open>mlock\<close>) is
  the record \<open>Locker\<close>, whose functions work on a state of their own. The map \<^verbatim>\<open>locked_pages_\<close> is a partial
  function from page addresses to counts, which are of type \<^verbatim>\<open>intptr_t\<close>: incrementing the largest one is undefined. Every operation
  holds the mutex and is one step.

  The loops over the pages of a range run while \<^verbatim>\<open>page <= end\<close>. They are \<open>partial_function (option)\<close>:
  \<open>None\<close> means that the loop does not end. They leave it whenever the last page of the range is not the last
  page of the address space (\<open>lock_loop_returns\<close>, \<open>unlock_loop_ok\<close>).
\<close>

record 'l Locker =
  lk_lock :: "u64 \<Rightarrow> u64 \<Rightarrow> 'l \<Rightarrow> bool \<times> 'l"
  lk_unlock :: "u64 \<Rightarrow> u64 \<Rightarrow> 'l \<Rightarrow> bool \<times> 'l"

record 'l LockedPages =
  locker :: 'l
  page_size :: u64
  page_mask :: u64
  locked_pages :: "u64 \<rightharpoonup> int"

definition new_LockedPages :: "'l \<Rightarrow> u64 \<Rightarrow> 'l LockedPages run" where
  "new_LockedPages l ps =
     ZEN_ASSERT (512 \<le> ps \<and> ps \<le> 1073741824)
       (ZEN_ASSERT (ps AND (ps - 1) = 0)
         (Ret \<lparr>locker = l, page_size = ps, page_mask = NOT (ps - 1), locked_pages = Map.empty\<rparr>))"

definition get_range_boundaries :: "'l LockedPages \<Rightarrow> u64 \<Rightarrow> u64 \<Rightarrow> u64 \<times> u64" where
  "get_range_boundaries m address sz =
     (let base_address = address;
          start_page = base_address AND page_mask m;
          end_page = (base_address + sz - 1) AND page_mask m
      in (start_page, end_page))"

partial_function (option) lock_loop ::
  "'l Locker \<Rightarrow> u64 \<Rightarrow> u64 \<Rightarrow> 'l LockedPages \<Rightarrow> (bool \<times> 'l LockedPages) run option" where
  "lock_loop L page end_page m =
     (if page \<le> end_page then
        case locked_pages m page of
          Some n \<Rightarrow>
            if n + 1 < 2 ^ 63
            then lock_loop L (page + page_size m) end_page (m\<lparr>locked_pages := (locked_pages m)(page \<mapsto> n + 1)\<rparr>)
            else Some Undef
        | None \<Rightarrow>
            (case lk_lock L page (page_size m) (locker m) of (ok, l) \<Rightarrow>
               if ok then
                 lock_loop L (page + page_size m) end_page
                   (m\<lparr>locker := l, locked_pages := (locked_pages m)(page \<mapsto> 1)\<rparr>)
               else Some (Ret (False, m\<lparr>locker := l\<rparr>)))
      else Some (Ret (True, m)))"

definition lock_range ::
  "'l Locker \<Rightarrow> u64 \<Rightarrow> u64 \<Rightarrow> 'l LockedPages \<Rightarrow> (bool \<times> 'l LockedPages) run option" where
  "lock_range L address sz m =
     (if address = 0 \<or> sz = 0 then Some (Ret (False, m))
      else case get_range_boundaries m address sz of (start, end_page) \<Rightarrow> lock_loop L start end_page m)"

partial_function (option) unlock_loop ::
  "'l Locker \<Rightarrow> u64 \<Rightarrow> u64 \<Rightarrow> 'l LockedPages \<Rightarrow> (bool \<times> 'l LockedPages) run option" where
  "unlock_loop L page end_page m =
     (if page \<le> end_page then
        case locked_pages m page of
          None \<Rightarrow> unlock_loop L (page + page_size m) end_page m
        | Some n \<Rightarrow>
            if \<not> n > 0 then Some Abort
            else if n - 1 = 0 then
              (case lk_unlock L page (page_size m) (locker m) of (ok, l) \<Rightarrow>
                 if \<not> ok then Some (Ret (False, m\<lparr>locker := l, locked_pages := (locked_pages m)(page \<mapsto> n - 1 + 1)\<rparr>))
                 else
                   unlock_loop L (page + page_size m) end_page
                     (m\<lparr>locker := l, locked_pages := (locked_pages m)(page := None)\<rparr>))
            else
              unlock_loop L (page + page_size m) end_page
                (m\<lparr>locked_pages := (locked_pages m)(page \<mapsto> n - 1)\<rparr>)
      else Some (Ret (True, m)))"

definition unlock_range ::
  "'l Locker \<Rightarrow> u64 \<Rightarrow> u64 \<Rightarrow> 'l LockedPages \<Rightarrow> (bool \<times> 'l LockedPages) run option" where
  "unlock_range L address sz m =
     (if address = 0 \<or> sz = 0 then Some (Ret (False, m))
      else case get_range_boundaries m address sz of (start, end_page) \<Rightarrow> unlock_loop L start end_page m)"

definition pages_size :: "'l LockedPages \<Rightarrow> nat" where
  "pages_size m = card (dom (locked_pages m))"

definition pages_empty :: "'l LockedPages \<Rightarrow> bool" where
  "pages_empty m \<longleftrightarrow> dom (locked_pages m) = {}"

definition pages_contain :: "u64 \<Rightarrow> 'l LockedPages \<Rightarrow> bool" where
  "pages_contain address m \<longleftrightarrow> address AND page_mask m \<in> dom (locked_pages m)"

definition pages_clear :: "'l Locker \<Rightarrow> 'l LockedPages \<Rightarrow> 'l LockedPages" where
  "pages_clear L m =
     fold (\<lambda>page m.
       case lk_unlock L page (page_size m) (locker m) of (ok, l) \<Rightarrow>
         if ok then m\<lparr>locker := l, locked_pages := (locked_pages m)(page := None)\<rparr>
         else m\<lparr>locker := l\<rparr>)
       (sorted_list_of_set (dom (locked_pages m))) m"

text \<open>The destructor clears; what is left of the object is the state of its locker.\<close>

definition delete_LockedPages :: "'l Locker \<Rightarrow> 'l LockedPages \<Rightarrow> 'l" where
  "delete_LockedPages L m = locker (pages_clear L m)"

subsection \<open>The secure allocator\<close>

text \<open>
  Memory is a function from addresses to bytes. The base allocator's choice of an address is the
  argument \<open>ptr\<close>, 0 being a null pointer. The results of \<open>lock_range\<close> and \<open>unlock_range\<close> are ignored.
\<close>

definition memory_cleanse :: "u64 \<Rightarrow> nat \<Rightarrow> (u64 \<Rightarrow> byte) \<Rightarrow> (u64 \<Rightarrow> byte)" where
  "memory_cleanse ptr n mem = fold (\<lambda>i mem. mem(ptr + of_nat i := 0)) [0..<n] mem"

definition secure_allocate ::
  "'l Locker \<Rightarrow> u64 \<Rightarrow> nat \<Rightarrow> 'l LockedPages \<Rightarrow> (u64 \<times> 'l LockedPages) run option" where
  "secure_allocate L ptr n m =
     (if ptr \<noteq> 0 then map_option (map_ret (\<lambda>(ret, m1). (ptr, m1))) (lock_range L ptr (of_nat n) m) else Some (Ret (0, m)))"

definition secure_deallocate ::
  "'l Locker \<Rightarrow> u64 \<Rightarrow> nat \<Rightarrow> (u64 \<Rightarrow> byte) \<Rightarrow> 'l LockedPages \<Rightarrow> ((u64 \<Rightarrow> byte) \<times> 'l LockedPages) run option" where
  "secure_deallocate L ptr n mem m =
     (if ptr \<noteq> 0 then
        map_option (map_ret (\<lambda>(ret, m1). (memory_cleanse ptr n mem, m1))) (unlock_range L ptr (of_nat n) m)
      else Some (Ret (mem, m)))"

subsection \<open>The pages of a range\<close>

text \<open>The addresses \<open>start, start + ps, ...\<close> of \<open>j\<close> pages, none of which wraps.\<close>

definition page_list :: "u64 \<Rightarrow> u64 \<Rightarrow> nat \<Rightarrow> u64 list" where
  "page_list start ps j = map (\<lambda>i. start + of_nat i * ps) [0..<j]"

lemma page_list_Suc: "page_list start ps (Suc j) = start # page_list (start + ps) ps j"
  by (simp add: page_list_def upt_conv_Cons map_Suc_upt [symmetric] comp_def algebra_simps del: upt_Suc)

lemma page_list_0 [simp]: "page_list start ps 0 = []"
  by (simp add: page_list_def)

text \<open>\<open>lst\<close> is \<open>j\<close> pages after \<open>page\<close>, and the page after it does not wrap.\<close>

definition run_of_pages :: "u64 \<Rightarrow> u64 \<Rightarrow> nat \<Rightarrow> u64 \<Rightarrow> bool" where
  "run_of_pages ps page j lst \<longleftrightarrow>
     0 < unat ps \<and> unat lst = unat page + j * unat ps \<and> unat lst + unat ps < 2 ^ 64"

lemma unat_add_page:
  assumes "unat page + unat ps < 2 ^ 64"
  shows "unat (page + ps) = unat page + unat (ps :: u64)"
  using assms by (simp add: unat_word_ariths)

lemma run_of_pages_Suc:
  assumes "run_of_pages ps page (Suc j) lst"
  shows "run_of_pages ps (page + ps) j lst" and "page \<le> lst" and "page < page + ps"
proof -
  have "unat page + unat ps \<le> unat lst" and "unat lst + unat ps < 2 ^ 64"
    using assms by (simp_all add: run_of_pages_def)
  then have "unat (page + ps) = unat page + unat ps"
    by (intro unat_add_page) simp
  then show "run_of_pages ps (page + ps) j lst" and "page \<le> lst" and "page < page + ps"
    using assms by (simp_all add: run_of_pages_def word_le_nat_alt word_less_nat_alt)
qed

lemma run_of_pages_0:
  assumes "run_of_pages ps page 0 lst"
  shows "page = lst" and "lst < lst + ps"
proof -
  have "unat (lst + ps) = unat lst + unat ps"
    using assms by (intro unat_add_page) (simp add: run_of_pages_def)
  then show "page = lst" and "lst < lst + ps"
    using assms by (simp_all add: run_of_pages_def word_less_nat_alt word_unat_eq_iff)
qed

lemma page_list_greater:
  "run_of_pages ps page j lst \<Longrightarrow> q \<in> set (page_list page ps (Suc j)) \<Longrightarrow> page \<le> q"
proof (induction j arbitrary: page)
  case (Suc j)
  from run_of_pages_Suc [OF Suc.prems(1)] Suc.IH [of "page + ps"] Suc.prems(2) show ?case
    by (auto simp: page_list_Suc [of page ps "Suc j"])
qed (simp add: page_list_Suc)

lemma distinct_page_list: "run_of_pages ps page j lst \<Longrightarrow> distinct (page_list page ps (Suc j))"
proof (induction j arbitrary: page)
  case (Suc j)
  from run_of_pages_Suc [OF Suc.prems] have r: "run_of_pages ps (page + ps) j lst" "page < page + ps"
    by simp_all
  with Suc.IH page_list_greater [OF r(1), of page] show ?case
    by (auto simp: page_list_Suc [of page ps "Suc j"])
qed (simp add: page_list_Suc)

subsection \<open>What the loops do\<close>

definition bump :: "u64 \<Rightarrow> (u64 \<rightharpoonup> int) \<Rightarrow> (u64 \<rightharpoonup> int)" where
  "bump p c = c(p \<mapsto> (case c p of None \<Rightarrow> 1 | Some n \<Rightarrow> n + 1))"

definition unbump :: "u64 \<Rightarrow> (u64 \<rightharpoonup> int) \<Rightarrow> (u64 \<rightharpoonup> int)" where
  "unbump p c = (case c p of None \<Rightarrow> c | Some n \<Rightarrow> if n = 1 then c(p := None) else c(p \<mapsto> n - 1))"

definition counts_ok :: "(u64 \<rightharpoonup> int) \<Rightarrow> bool" where
  "counts_ok c \<longleftrightarrow> (\<forall>p n. c p = Some n \<longrightarrow> 0 < n)"

definition always_locks :: "'l Locker \<Rightarrow> bool" where
  "always_locks L \<longleftrightarrow> (\<forall>p s l. fst (lk_lock L p s l) \<and> fst (lk_unlock L p s l))"

lemma counts_ok_bump: "counts_ok c \<Longrightarrow> counts_ok (bump p c)"
  by (auto simp: counts_ok_def bump_def intro: less_imp_le split: option.splits if_splits)

lemma counts_ok_fold_bump: "counts_ok c \<Longrightarrow> counts_ok (fold bump ps c)"
  by (induction ps arbitrary: c) (simp_all add: counts_ok_bump)

lemma counts_ok_unbump: "counts_ok c \<Longrightarrow> counts_ok (unbump p c)"
  by (fastforce simp: counts_ok_def unbump_def split: option.splits if_splits)

lemma fold_bump_at:
  "distinct ps \<Longrightarrow> fold bump ps c q =
     (if q \<in> set ps then Some (case c q of None \<Rightarrow> 1 | Some n \<Rightarrow> n + 1) else c q)"
  by (induction ps arbitrary: c) (auto simp: bump_def)

lemma fold_unbump_at:
  "distinct ps \<Longrightarrow> fold unbump ps c q = (if q \<in> set ps then unbump q c q else c q)"
proof (induction ps arbitrary: c)
  case (Cons p ps)
  have other: "unbump p c q = c q" if "q \<noteq> p" for q
    using that by (simp add: unbump_def split: option.splits)
  then have "unbump q (unbump p c) q = unbump q c q" if "q \<noteq> p"
    using that by (simp add: unbump_def split: option.splits)
  with Cons other show ?case by auto
qed simp

lemma unbump_bump:
  assumes "distinct ps" and "counts_ok c"
  shows "fold unbump ps (fold bump ps c) = c"
proof
  fix q
  show "fold unbump ps (fold bump ps c) q = c q"
    using assms(2)
    by (auto simp: fold_unbump_at [OF assms(1)] unbump_def fold_bump_at [OF assms(1)] counts_ok_def
      split: option.splits)
qed

text \<open>A count that can be incremented.\<close>

definition has_room :: "(u64 \<rightharpoonup> int) \<Rightarrow> u64 \<Rightarrow> bool" where
  "has_room c p \<longleftrightarrow> (case c p of None \<Rightarrow> True | Some n \<Rightarrow> n + 1 < 2 ^ 63)"

lemma has_room_bump: "q \<noteq> p \<Longrightarrow> has_room (bump p c) q = has_room c q"
  by (simp add: has_room_def bump_def)

text \<open>One turn of each loop, and its end.\<close>

lemma lock_turn:
  assumes "page \<le> lst"
  obtains (stops) l where "lock_loop L page lst m = Some (Ret (False, m\<lparr>locker := l\<rparr>))"
    | (overflows) "lock_loop L page lst m = Some Undef" "\<not> has_room (locked_pages m) page"
    | (goes_on) l where "has_room (locked_pages m) page" "lock_loop L page lst m =
        lock_loop L (page + page_size m) lst (m\<lparr>locker := l, locked_pages := bump page (locked_pages m)\<rparr>)"
proof (cases "locked_pages m page")
  case (Some n)
  show ?thesis
  proof (cases "n + 1 < 2 ^ 63")
    case True
    with Some assms have "lock_loop L page lst m = lock_loop L (page + page_size m) lst
        (m\<lparr>locker := locker m, locked_pages := bump page (locked_pages m)\<rparr>)"
      by (subst lock_loop.simps) (simp add: bump_def)
    with Some True show ?thesis by (intro goes_on [of "locker m"]) (simp_all add: has_room_def)
  next
    case False
    with Some assms have "lock_loop L page lst m = Some Undef" by (subst lock_loop.simps) simp
    with Some False show ?thesis by (intro overflows) (simp_all add: has_room_def)
  qed
next
  case None
  obtain ok l where l: "lk_lock L page (page_size m) (locker m) = (ok, l)" by fastforce
  show ?thesis
  proof (cases ok)
    case True
    with None l assms have "lock_loop L page lst m = lock_loop L (page + page_size m) lst
        (m\<lparr>locker := l, locked_pages := bump page (locked_pages m)\<rparr>)"
      by (subst lock_loop.simps) (simp add: bump_def)
    with None show ?thesis by (intro goes_on [of l]) (simp_all add: has_room_def)
  next
    case False
    with None l assms have "lock_loop L page lst m = Some (Ret (False, m\<lparr>locker := l\<rparr>))" by (subst lock_loop.simps) simp
    then show ?thesis by (rule stops)
  qed
qed

lemma lock_turn_ok:
  assumes "always_locks L" and "page \<le> lst" and "has_room (locked_pages m) page"
  shows "\<exists>l. lock_loop L page lst m =
    lock_loop L (page + page_size m) lst (m\<lparr>locker := l, locked_pages := bump page (locked_pages m)\<rparr>)"
proof (cases "locked_pages m page")
  case (Some n)
  with assms(2,3) show ?thesis
    by (intro exI [of _ "locker m"], subst lock_loop.simps) (simp add: bump_def has_room_def)
next
  case None
  obtain l where "lk_lock L page (page_size m) (locker m) = (True, l)"
    using assms(1) by (metis always_locks_def prod.collapse)
  with None assms(2) show ?thesis
    by (intro exI [of _ l], subst lock_loop.simps) (simp add: bump_def)
qed

lemma unlock_turn_ok:
  assumes "always_locks L" and "page \<le> lst" and "counts_ok (locked_pages m)"
  shows "\<exists>l. unlock_loop L page lst m =
    unlock_loop L (page + page_size m) lst (m\<lparr>locker := l, locked_pages := unbump page (locked_pages m)\<rparr>)"
proof (cases "locked_pages m page")
  case None
  with assms(2) show ?thesis
    by (intro exI [of _ "locker m"], subst unlock_loop.simps) (simp add: unbump_def)
next
  case (Some n)
  with assms(3) have "0 < n" by (simp add: counts_ok_def)
  show ?thesis
  proof (cases "n = 1")
    case True
    obtain l where "lk_unlock L page (page_size m) (locker m) = (True, l)"
      using assms(1) by (metis always_locks_def prod.collapse)
    with Some True assms(2) show ?thesis
      by (intro exI [of _ l], subst unlock_loop.simps) (simp add: unbump_def)
  next
    case False
    with Some \<open>0 < n\<close> assms(2) show ?thesis
      by (intro exI [of _ "locker m"], subst unlock_loop.simps) (simp add: unbump_def)
  qed
qed

lemma loop_stop:
  assumes "\<not> page \<le> lst"
  shows "lock_loop L page lst m = Some (Ret (True, m))" and "unlock_loop L page lst m = Some (Ret (True, m))"
  using assms by (subst lock_loop.simps unlock_loop.simps; simp)+

lemma next_room:
  assumes "run_of_pages ps page (Suc j) lst" and "\<forall>q \<in> set (page_list page ps (Suc (Suc j))). has_room c q"
  shows "\<forall>q \<in> set (page_list (page + ps) ps (Suc j)). has_room (bump page c) q"
proof
  fix q
  assume q: "q \<in> set (page_list (page + ps) ps (Suc j))"
  then have "q \<noteq> page" using distinct_page_list [OF assms(1)] unfolding page_list_Suc [of page ps "Suc j"] by auto
  moreover have "has_room c q" using q assms(2) unfolding page_list_Suc [of page ps "Suc j"] by simp
  ultimately show "has_room (bump page c) q" by (simp add: has_room_bump)
qed

lemma lock_loop_ok:
  assumes "always_locks L" and "run_of_pages (page_size m) page j lst"
    and "\<forall>q \<in> set (page_list page (page_size m) (Suc j)). has_room (locked_pages m) q"
  shows "\<exists>l. lock_loop L page lst m =
    Some (Ret (True, m\<lparr>locker := l, locked_pages := fold bump (page_list page (page_size m) (Suc j)) (locked_pages m)\<rparr>))"
  using assms(2,3)
proof (induction j arbitrary: page m)
  case 0
  from run_of_pages_0 [OF 0(1)] lock_turn_ok [OF assms(1), of page lst m] 0(2) show ?case
    by (auto simp: loop_stop page_list_Suc)
next
  case (Suc j)
  note r = run_of_pages_Suc [OF Suc.prems(1)]
  have room: "has_room (locked_pages m) page" using Suc.prems(2) by (simp add: page_list_Suc [of page "page_size m" "Suc j"])
  from lock_turn_ok [OF assms(1) r(2) room] obtain l where
    "lock_loop L page lst m = lock_loop L (page + page_size m) lst (m\<lparr>locker := l, locked_pages := bump page (locked_pages m)\<rparr>)"
    by blast
  with Suc.IH [of "m\<lparr>locker := l, locked_pages := bump page (locked_pages m)\<rparr>"] r(1) next_room [OF Suc.prems] show ?case
    by (simp add: page_list_Suc [of page "page_size m" "Suc j"])
qed

lemma unlock_loop_ok:
  assumes "always_locks L" and "run_of_pages (page_size m) page j lst" and "counts_ok (locked_pages m)"
  shows "\<exists>l. unlock_loop L page lst m =
    Some (Ret (True, m\<lparr>locker := l, locked_pages := fold unbump (page_list page (page_size m) (Suc j)) (locked_pages m)\<rparr>))"
  using assms(2,3)
proof (induction j arbitrary: page m)
  case 0
  from run_of_pages_0 [OF 0(1)] unlock_turn_ok [OF assms(1) _ 0(2), of page lst] show ?case
    by (auto simp: loop_stop page_list_Suc)
next
  case (Suc j)
  note r = run_of_pages_Suc [OF Suc.prems(1)]
  from unlock_turn_ok [OF assms(1) r(2) Suc.prems(2)] obtain l where
    "unlock_loop L page lst m = unlock_loop L (page + page_size m) lst (m\<lparr>locker := l, locked_pages := unbump page (locked_pages m)\<rparr>)"
    by blast
  with Suc.IH [of "m\<lparr>locker := l, locked_pages := unbump page (locked_pages m)\<rparr>"] r(1)
    counts_ok_unbump [OF Suc.prems(2)] show ?case
    by (simp add: page_list_Suc [of page "page_size m" "Suc j"])
qed

text \<open>Whatever the locker answers, locking returns if no count is at its end.\<close>

lemma lock_loop_returns:
  assumes "run_of_pages (page_size m) page j lst" and "\<forall>q \<in> set (page_list page (page_size m) (Suc j)). has_room (locked_pages m) q"
  shows "\<exists>ok m'. lock_loop L page lst m = Some (Ret (ok, m'))"
  using assms
proof (induction j arbitrary: page m)
  case 0
  have p: "page \<le> lst" "has_room (locked_pages m) page" "\<not> page + page_size m \<le> lst"
    using run_of_pages_0 [OF 0(1)] 0(2) by (auto simp: page_list_Suc)
  from p(1) show ?case by (cases rule: lock_turn [where L = L and m = m]) (use p in \<open>auto simp: loop_stop\<close>)
next
  case (Suc j)
  note r = run_of_pages_Suc [OF Suc.prems(1)]
  have room: "has_room (locked_pages m) page" using Suc.prems(2) by (simp add: page_list_Suc [of page "page_size m" "Suc j"])
  from r(2) show ?case
  proof (cases rule: lock_turn [where L = L and m = m])
    case (goes_on l)
    with Suc.IH [of "m\<lparr>locker := l, locked_pages := bump page (locked_pages m)\<rparr>" "page + page_size m"] r(1) next_room [OF Suc.prems]
    show ?thesis by simp
  qed (use room in auto)
qed

text \<open>
  Every turn of the locking loop increments a count or ends the loop, so it ends in any case, if only by overflow.
\<close>

definition headroom :: "(u64 \<rightharpoonup> int) \<Rightarrow> nat" where
  "headroom c = (\<Sum>p\<in>UNIV. nat (2 ^ 63 - (case c p of None \<Rightarrow> 0 | Some n \<Rightarrow> n)))"

lemma headroom_bump: "has_room c p \<Longrightarrow> headroom (bump p c) < headroom c"
  unfolding headroom_def
proof (rule sum_strict_mono_ex1)
  assume room: "has_room c p"
  show "\<forall>q\<in>UNIV. nat (2 ^ 63 - (case bump p c q of None \<Rightarrow> 0 | Some n \<Rightarrow> n)) \<le> nat (2 ^ 63 - (case c q of None \<Rightarrow> 0 | Some n \<Rightarrow> n))"
    by (auto simp: bump_def split: option.splits)
  show "\<exists>q\<in>UNIV. nat (2 ^ 63 - (case bump p c q of None \<Rightarrow> 0 | Some n \<Rightarrow> n)) < nat (2 ^ 63 - (case c q of None \<Rightarrow> 0 | Some n \<Rightarrow> n))"
    using room by (intro bexI [of _ p]) (auto simp: bump_def has_room_def split: option.splits)
qed simp

lemma lock_loop_ends: "\<exists>r. lock_loop L page lst m = Some r"
proof (induction "headroom (locked_pages m)" arbitrary: page m rule: less_induct)
  case less
  show ?case
  proof (cases "page \<le> lst")
    case True
    then show ?thesis
    proof (cases rule: lock_turn [where L = L and m = m])
      case (goes_on l)
      with less [of "m\<lparr>locker := l, locked_pages := bump page (locked_pages m)\<rparr>"] headroom_bump show ?thesis by simp
    qed auto
  qed (simp add: loop_stop)
qed

subsection \<open>Ranges\<close>

definition manager_ok :: "nat \<Rightarrow> 'l LockedPages \<Rightarrow> bool" where
  "manager_ok k m \<longleftrightarrow> 9 \<le> k \<and> k \<le> 30 \<and> page_size m = 2 ^ k \<and> page_mask m = NOT (2 ^ k - 1) \<and>
     counts_ok (locked_pages m)"

lemma two_power_unat:
  assumes "k < 64"
  shows "unat (2 ^ k :: u64) = 2 ^ k"
proof -
  have "(2 :: nat) ^ k < 2 ^ 64" by (rule power_strict_increasing) (use assms in simp_all)
  moreover have "(2 ^ k :: u64) = of_nat (2 ^ k)" by simp
  ultimately show ?thesis by (simp only: unat_of_nat) simp
qed

lemma div_times_less: "x < b \<Longrightarrow> x div c * c < (b :: nat)"
  by (rule le_less_trans [OF div_times_less_eq_dividend])

lemma unat_page_of:
  assumes "k < 64"
  shows "unat (x AND NOT (2 ^ k - 1 :: u64)) = unat x div 2 ^ k * 2 ^ k"
proof -
  have "x AND NOT (2 ^ k - 1) = push_bit k (drop_bit k x)"
    by (rule bit_word_eqI) (auto simp: bit_simps simp flip: mask_eq_exp_minus_1)
  moreover have "unat (drop_bit k x) = unat x div 2 ^ k"
    unfolding unat_drop_bit_eq by (rule drop_bit_eq_div)
  moreover have "unat x div 2 ^ k * 2 ^ k < 2 ^ 64"
    using unsigned_less [where w = x and 'a = nat] by (intro div_times_less) simp
  ultimately show ?thesis
    using assms by (simp add: push_bit_eq_mult unat_word_ariths two_power_unat)
qed

text \<open>
  A range that does not reach the last page of the address space: its pages, and that the page of
  every byte of the range is among them.
\<close>

definition range_ok :: "nat \<Rightarrow> u64 \<Rightarrow> u64 \<Rightarrow> bool" where
  "range_ok k address sz \<longleftrightarrow> address \<noteq> 0 \<and> sz \<noteq> 0 \<and> unat address + unat sz + 2 ^ k \<le> 2 ^ 64"

definition range_pages :: "nat \<Rightarrow> u64 \<Rightarrow> u64 \<Rightarrow> u64 list" where
  "range_pages k address sz = page_list (address AND NOT (2 ^ k - 1)) (2 ^ k)
     (Suc ((unat address + unat sz - 1) div 2 ^ k - unat address div 2 ^ k))"

lemma range_pos: "range_ok k address sz \<Longrightarrow> 0 < unat sz"
  by (rule gr0I) (simp add: range_ok_def unsigned_eq_0_iff)

lemma range_last:
  assumes "range_ok k address sz"
  shows "unat (address + sz - 1) = unat address + unat sz - 1"
proof -
  note range_pos [OF assms]
  moreover have "unat (address + sz) = unat address + unat sz \<or> unat address + unat sz = 2 ^ 64"
    using assms by (cases "unat address + unat sz < 2 ^ 64") (auto simp: range_ok_def unat_word_ariths)
  ultimately show ?thesis
    using assms by (auto simp: range_ok_def unat_word_ariths unat_sub_if_size word_size)
qed

lemma range_run:
  assumes "k < 64" and "range_ok k address sz"
  shows "run_of_pages (2 ^ k) (address AND NOT (2 ^ k - 1))
    ((unat address + unat sz - 1) div 2 ^ k - unat address div 2 ^ k)
    ((address + sz - 1) AND NOT (2 ^ k - 1))"
proof -
  let ?a = "unat address" and ?e = "unat address + unat sz - 1"
  have "?a \<le> ?e" using range_pos [OF assms(2)] by simp
  then have le: "?a div 2 ^ k \<le> ?e div 2 ^ k" by (rule div_le_mono)
  have "?e div 2 ^ k * 2 ^ k \<le> ?e" by (rule div_times_less_eq_dividend)
  then have "?e div 2 ^ k * 2 ^ k + 2 ^ k < 2 ^ 64"
    using assms(2) range_pos [OF assms(2)] unfolding range_ok_def by linarith
  with le show ?thesis
    using assms(1) unfolding run_of_pages_def
    by (simp add: unat_page_of range_last [OF assms(2)] two_power_unat diff_mult_distrib)
qed

lemma range_pages_distinct: "k < 64 \<Longrightarrow> range_ok k address sz \<Longrightarrow> distinct (range_pages k address sz)"
  unfolding range_pages_def by (rule distinct_page_list) (rule range_run)

lemma byte_page_in_range:
  assumes "k < 64" and "range_ok k address sz" and "i < unat sz"
  shows "(address + of_nat i) AND NOT (2 ^ k - 1) \<in> set (range_pages k address sz)"
proof -
  let ?a = "unat address" let ?t = "(?a + i) div 2 ^ k - ?a div 2 ^ k"
  have i: "i < 2 ^ 64" "?a + i < 2 ^ 64"
    using assms(2,3) by (simp_all add: range_ok_def)
  have addr: "unat (address + of_nat i) = ?a + i"
    using i by (simp add: unat_word_ariths unat_of_nat)
  have le: "?a div 2 ^ k \<le> (?a + i) div 2 ^ k" by (simp add: div_le_mono)
  have "(?a + i) div 2 ^ k \<le> (?a + unat sz - 1) div 2 ^ k"
    using assms(3) by (intro div_le_mono) simp
  then have "?t < Suc ((?a + unat sz - 1) div 2 ^ k - ?a div 2 ^ k)" by simp
  moreover have "(address + of_nat i) AND NOT (2 ^ k - 1) = (address AND NOT (2 ^ k - 1)) + of_nat ?t * 2 ^ k"
  proof -
    have lt: "(?a + i) div 2 ^ k * 2 ^ k < 2 ^ 64"
      using i(2) by (rule div_times_less)
    have t: "?a div 2 ^ k * 2 ^ k + ?t * 2 ^ k = (?a + i) div 2 ^ k * 2 ^ k"
      using le by (simp flip: add_mult_distrib)
    have "(address AND NOT (2 ^ k - 1)) = of_nat (?a div 2 ^ k * 2 ^ k)"
      using unat_page_of [OF assms(1), of address] by (metis of_nat_unat ucast_id)
    then have "(address AND NOT (2 ^ k - 1)) + of_nat ?t * 2 ^ k = of_nat ((?a + i) div 2 ^ k * 2 ^ k)"
      unfolding t [symmetric] by simp
    moreover have "(address + of_nat i) AND NOT (2 ^ k - 1) = of_nat ((?a + i) div 2 ^ k * 2 ^ k)"
      using unat_page_of [OF assms(1), of "address + of_nat i"] addr by (metis of_nat_unat ucast_id)
    ultimately show ?thesis by simp
  qed
  ultimately show ?thesis
    unfolding range_pages_def page_list_def by (auto simp del: upt_Suc)
qed

lemma lock_range_ok:
  assumes "always_locks L" and "manager_ok k m" and "range_ok k address sz" and "\<forall>p. has_room (locked_pages m) p"
  shows "\<exists>l. lock_range L address sz m =
    Some (Ret (True, m\<lparr>locker := l, locked_pages := fold bump (range_pages k address sz) (locked_pages m)\<rparr>))"
proof -
  have "k < 64" using assms(2) by (simp add: manager_ok_def)
  from lock_loop_ok [OF assms(1), of m] range_run [OF this assms(3)] assms(2-4) show ?thesis
    by (simp add: lock_range_def get_range_boundaries_def Let_def manager_ok_def range_ok_def range_pages_def)
qed

lemma unlock_range_ok:
  assumes "always_locks L" and "manager_ok k m" and "range_ok k address sz"
  shows "\<exists>l. unlock_range L address sz m =
    Some (Ret (True, m\<lparr>locker := l, locked_pages := fold unbump (range_pages k address sz) (locked_pages m)\<rparr>))"
proof -
  have "k < 64" using assms(2) by (simp add: manager_ok_def)
  from unlock_loop_ok [OF assms(1), of m] range_run [OF this assms(3)] assms(2,3) show ?thesis
    by (simp add: unlock_range_def get_range_boundaries_def Let_def manager_ok_def range_ok_def range_pages_def)
qed

lemma manager_ok_bump:
  "manager_ok k m \<Longrightarrow> manager_ok k (m\<lparr>locker := l, locked_pages := fold bump ps (locked_pages m)\<rparr>)"
  by (simp add: manager_ok_def counts_ok_fold_bump)

lemma lock_unlock_cycle:
  assumes "always_locks L" and "manager_ok k m" and "range_ok k address sz" and "\<forall>p. has_room (locked_pages m) p"
  obtains m1 m2 where "lock_range L address sz m = Some (Ret (True, m1))" "unlock_range L address sz m1 = Some (Ret (True, m2))"
    "\<And>i. i < unat sz \<Longrightarrow> pages_contain (address + of_nat i) m1" "locked_pages m2 = locked_pages m" "manager_ok k m1" "manager_ok k m2"
proof -
  let ?ps = "range_pages k address sz"
  have k: "k < 64" using assms(2) by (simp add: manager_ok_def)
  note d = range_pages_distinct [OF k assms(3)]
  from lock_range_ok [OF assms] obtain l where
    l: "lock_range L address sz m = Some (Ret (True, m\<lparr>locker := l, locked_pages := fold bump ?ps (locked_pages m)\<rparr>))" by blast
  let ?m1 = "m\<lparr>locker := l, locked_pages := fold bump ?ps (locked_pages m)\<rparr>"
  have ok: "manager_ok k ?m1" by (rule manager_ok_bump [OF assms(2)])
  have undone: "fold unbump ?ps (fold bump ?ps (locked_pages m)) = locked_pages m"
    using d assms(2) by (intro unbump_bump) (simp_all add: manager_ok_def)
  from unlock_range_ok [OF assms(1) ok assms(3)] undone obtain l2 where
    l2: "unlock_range L address sz ?m1 = Some (Ret (True, ?m1\<lparr>locker := l2, locked_pages := locked_pages m\<rparr>))" by auto
  have "pages_contain (address + of_nat i) ?m1" if "i < unat sz" for i
    using byte_page_in_range [OF k assms(3), of i] that assms(2)
    by (simp add: pages_contain_def manager_ok_def dom_def fold_bump_at [OF d])
  moreover have "manager_ok k (?m1\<lparr>locker := l2, locked_pages := locked_pages m\<rparr>)" using assms(2) by (simp add: manager_ok_def)
  ultimately show ?thesis using that [OF l l2] ok by simp
qed

lemma memory_cleanse_at:
  "memory_cleanse ptr n mem a = (if \<exists>i<n. a = ptr + of_nat i then 0 else mem a)"
  unfolding memory_cleanse_def by (induction n) (auto simp: less_Suc_eq)

text \<open>
  When every unlock succeeds, clearing forgets every page and unlocks each of them once, in the order of their addresses.
\<close>

lemma clear_loop:
  assumes "always_locks L" and "distinct ps"
  shows "\<exists>l. fold (\<lambda>page m. case lk_unlock L page (page_size m) (locker m) of (ok, l) \<Rightarrow>
      if ok then m\<lparr>locker := l, locked_pages := (locked_pages m)(page := None)\<rparr> else m\<lparr>locker := l\<rparr>) ps m =
    m\<lparr>locker := l, locked_pages := (locked_pages m) |` (- set ps)\<rparr>
    \<and> l = fold (\<lambda>page l. snd (lk_unlock L page (page_size m) l)) ps (locker m)"
  using assms(2)
proof (induction ps arbitrary: m)
  case (Cons p ps)
  obtain l where l: "lk_unlock L p (page_size m) (locker m) = (True, l)"
    using assms(1) by (metis always_locks_def prod.collapse)
  have "(\<lambda>a. if a = p then None else locked_pages m a) |` (- set ps) = locked_pages m |` (- insert p (set ps))"
    by (auto simp: restrict_map_def fun_eq_iff)
  with Cons.IH [of "m\<lparr>locker := l, locked_pages := (locked_pages m)(p := None)\<rparr>"] Cons.prems l show ?case by simp
qed (simp add: restrict_map_def)

lemma pages_clear_all:
  assumes "always_locks L" and "finite (dom (locked_pages m))"
  shows "pages_empty (pages_clear L m)"
    and "delete_LockedPages L m =
      fold (\<lambda>page l. snd (lk_unlock L page (page_size m) l)) (sorted_list_of_set (dom (locked_pages m))) (locker m)"
proof -
  have "locked_pages m |` (- dom (locked_pages m)) = Map.empty" by (auto simp: restrict_map_def fun_eq_iff domIff)
  with clear_loop [OF assms(1) distinct_sorted_list_of_set, of "dom (locked_pages m)" m] assms(2)
  have "pages_clear L m = m\<lparr>locker := fold (\<lambda>page l. snd (lk_unlock L page (page_size m) l))
      (sorted_list_of_set (dom (locked_pages m))) (locker m), locked_pages := Map.empty\<rparr>"
    unfolding pages_clear_def by simp
  then show "pages_empty (pages_clear L m)"
    "delete_LockedPages L m = fold (\<lambda>page l. snd (lk_unlock L page (page_size m) l)) (sorted_list_of_set (dom (locked_pages m))) (locker m)"
    by (simp_all add: pages_empty_def delete_LockedPages_def)
qed

lemma new_LockedPages_ok:
  assumes "9 \<le> k" and "k \<le> 30"
  shows "\<exists>m. new_LockedPages l (2 ^ k) = Ret m \<and> manager_ok k m \<and> locked_pages m = Map.empty \<and> locker m = l"
proof -
  have u: "unat (2 ^ k :: u64) = 2 ^ k" using assms by (intro two_power_unat) simp
  have "(2 :: nat) ^ 9 \<le> 2 ^ k" "(2 :: nat) ^ k \<le> 2 ^ 30"
    using assms by (simp_all only: power_increasing_iff one_less_numeral_iff semiring_norm)
  then have "(512 :: u64) \<le> 2 ^ k" "(2 ^ k :: u64) \<le> 1073741824"
    by (simp_all add: word_le_nat_alt u)
  moreover have "(2 ^ k :: u64) AND (2 ^ k - 1) = 0"
    by (rule bit_word_eqI) (auto simp: bit_simps simp flip: mask_eq_exp_minus_1)
  ultimately show ?thesis
    using assms by (simp add: new_LockedPages_def manager_ok_def counts_ok_def)
qed

subsection \<open>A range that reaches the last page\<close>

lemma page_below_last:
  assumes "k < 64" and "2 ^ k dvd unat (page :: u64)"
  shows "page \<le> - (2 ^ k)" and "2 ^ k dvd unat (page + 2 ^ k)"
proof -
  have split: "(2 :: nat) ^ 64 = 2 ^ k * 2 ^ (64 - k)"
    using assms(1) by (simp flip: power_add)
  obtain c where c: "unat page = 2 ^ k * c" using assms(2) by blast
  have "2 ^ k * c < 2 ^ k * (2 ^ (64 - k) :: nat)"
    using unsigned_less [where w = page and 'a = nat] unfolding c split [symmetric] by simp
  then have "Suc c \<le> 2 ^ (64 - k)" by simp
  then have "2 ^ k * Suc c \<le> 2 ^ k * (2 ^ (64 - k) :: nat)" by (rule mult_le_mono2)
  then have le: "unat page + 2 ^ k \<le> 2 ^ 64" unfolding c split by (simp add: algebra_simps)
  have "(2 :: nat) ^ k \<le> 2 ^ 64" using assms(1) by (intro power_increasing) simp_all
  then have "(of_nat (2 ^ 64 - 2 ^ k) :: u64) = - (2 ^ k)" by (subst of_nat_diff) simp_all
  moreover have "2 ^ 64 - 2 ^ k < (2 :: nat) ^ 64" by simp
  ultimately have "unat (- (2 ^ k) :: u64) = 2 ^ 64 - 2 ^ k"
    using unat_of_nat [of "2 ^ 64 - 2 ^ k", where 'a = 64] by simp
  with le show "page \<le> - (2 ^ k)" by (simp add: word_le_nat_alt)
  have "unat (page + 2 ^ k) = (unat page + 2 ^ k) mod 2 ^ 64"
    using two_power_unat [OF assms(1)] by (simp add: unat_word_ariths)
  moreover have "2 ^ k dvd (2 :: nat) ^ 64" unfolding split by simp
  ultimately show "2 ^ k dvd unat (page + 2 ^ k)"
    using assms(2) by (metis dvd_add dvd_mod dvd_refl)
qed

lemma lock_loop_overflows:
  assumes "k < 64" and "always_locks L" and "page_size m = 2 ^ k" and "2 ^ k dvd unat page"
  shows "lock_loop L page (- (2 ^ k)) m = Some Undef"
  using assms(3,4)
proof (induction "headroom (locked_pages m)" arbitrary: page m rule: less_induct)
  case less
  note p = page_below_last [OF assms(1) less.prems(2)]
  show ?case
  proof (cases "has_room (locked_pages m) page")
    case True
    from lock_turn_ok [OF assms(2) p(1) True] obtain l where
      l: "lock_loop L page (- (2 ^ k)) m = lock_loop L (page + 2 ^ k) (- (2 ^ k)) (m\<lparr>locker := l, locked_pages := bump page (locked_pages m)\<rparr>)"
      using less.prems(1) by auto
    show ?thesis unfolding l by (rule less.hyps) (use headroom_bump [OF True] less.prems(1) p(2) in simp_all)
  next
    case False
    then obtain n where "locked_pages m page = Some n" "\<not> n + 1 < 2 ^ 63" by (auto simp: has_room_def split: option.splits)
    with p(1) show ?thesis by (subst lock_loop.simps) simp
  qed
qed

subsection \<open>The pages the system holds\<close>

text \<open>
  What the manager relies on: a page that was locked successfully is held in memory, until it is unlocked successfully. \<open>held\<close>
  gives the pages, of \<open>2 ^ k\<close> bytes, by their addresses.
\<close>

locale page_locker =
  fixes L :: "'l Locker" and held :: "'l \<Rightarrow> u64 set" and k :: nat
  assumes lock_law: "2 ^ k dvd unat p \<Longrightarrow> lk_lock L p (2 ^ k) l = (ok, l') \<Longrightarrow> held l' = (if ok then insert p (held l) else held l)"
    and unlock_law: "2 ^ k dvd unat p \<Longrightarrow> lk_unlock L p (2 ^ k) l = (ok, l') \<Longrightarrow> held l' = (if ok then held l - {p} else held l)"

text \<open>The pages held are exactly those that have a count.\<close>

definition synced :: "('l \<Rightarrow> u64 set) \<Rightarrow> nat \<Rightarrow> 'l LockedPages \<Rightarrow> bool" where
  "synced held k m \<longleftrightarrow> page_size m = 2 ^ k \<and> held (locker m) = dom (locked_pages m) \<and> (\<forall>p \<in> dom (locked_pages m). 2 ^ k dvd unat p)"

context page_locker
begin

lemma lock_loop_synced:
  assumes "k < 64" "lock_loop L page lst m = Some r"
  shows "2 ^ k dvd unat page \<longrightarrow> synced held k m \<longrightarrow> (case r of Ret (ok, m') \<Rightarrow> synced held k m' | _ \<Rightarrow> True)"
  using assms(2)
proof (induction "headroom (locked_pages m)" arbitrary: page m rule: less_induct)
  case less
  show ?case
  proof (cases "page \<le> lst \<and> 2 ^ k dvd unat page \<and> synced held k m")
    case True
    then have al: "2 ^ k dvd unat page" and sy: "synced held k m" and le: "page \<le> lst" and ps: "page_size m = 2 ^ k"
      by (simp_all add: synced_def)
    note next_al = page_below_last(2) [OF assms(1) al]
    have IH: "case r of Ret (ok, m') \<Rightarrow> synced held k m' | _ \<Rightarrow> True"
      if "has_room (locked_pages m) page" "lock_loop L (page + 2 ^ k) lst (m\<lparr>locker := l, locked_pages := bump page (locked_pages m)\<rparr>) = Some r"
        "synced held k (m\<lparr>locker := l, locked_pages := bump page (locked_pages m)\<rparr>)" for l
      using less.hyps [of "m\<lparr>locker := l, locked_pages := bump page (locked_pages m)\<rparr>" "page + 2 ^ k"] headroom_bump [OF that(1)] that next_al by simp
    show ?thesis
    proof (cases "locked_pages m page")
      case (Some n)
      then have "synced held k (m\<lparr>locker := locker m, locked_pages := bump page (locked_pages m)\<rparr>)"
        using sy by (auto simp: synced_def bump_def)
      then show ?thesis
        using IH [of "locker m"] less.prems Some le ps
        by (subst (asm) lock_loop.simps) (auto simp: has_room_def bump_def split: if_splits)
    next
      case None
      obtain ok l where l: "lk_lock L page (2 ^ k) (locker m) = (ok, l)" by fastforce
      have h: "held l = (if ok then insert page (held (locker m)) else held (locker m))" by (rule lock_law [OF al l])
      then have "ok \<Longrightarrow> synced held k (m\<lparr>locker := l, locked_pages := bump page (locked_pages m)\<rparr>)"
        "\<not> ok \<Longrightarrow> synced held k (m\<lparr>locker := l\<rparr>)"
        using sy al by (auto simp: synced_def bump_def)
      then show ?thesis
        using IH [of l] less.prems None l le ps
        by (subst (asm) lock_loop.simps) (auto simp: has_room_def bump_def split: if_splits)
    qed
  next
    case False
    then show ?thesis using less.prems by (auto simp: loop_stop)
  qed
qed

lemma unlock_loop_synced:
  assumes "unlock_loop M page lst m = Some r"
  shows "M = L \<longrightarrow> k < 64 \<longrightarrow> 2 ^ k dvd unat page \<longrightarrow> synced held k m \<longrightarrow> (case r of Ret (ok, m') \<Rightarrow> synced held k m' | _ \<Rightarrow> True)"
proof (rule unlock_loop.raw_induct [OF _ assms], intro impI, goal_cases)
  case (1 loop M page lst m r)
  note IH = 1(1) and turn = 1(2) and eq = 1(3) and k = 1(4) and al = 1(5) and sy = 1(6)
  have ps: "page_size m = 2 ^ k" using sy by (simp add: synced_def)
  note next_al = page_below_last(2) [OF k al]
  have rec: "case r of Ret (ok, m') \<Rightarrow> synced held k m' | _ \<Rightarrow> True" if "loop L (page + 2 ^ k) lst m' = Some r" "synced held k m'" for m'
    using IH [OF that(1)] next_al k that(2) by simp
  show ?case
  proof (cases "page \<le> lst")
    case True
    obtain ok l where l: "lk_unlock L page (2 ^ k) (locker m) = (ok, l)" by fastforce
    have h: "held l = (if ok then held (locker m) - {page} else held (locker m))" by (rule unlock_law [OF al l])
    show ?thesis
    proof (cases "locked_pages m page")
      case None
      with turn True ps eq rec [of m] sy show ?thesis by simp
    next
      case (Some n)
      from h Some sy have s1: "ok \<Longrightarrow> synced held k (m\<lparr>locker := l, locked_pages := (locked_pages m)(page := None)\<rparr>)"
        "\<not> ok \<Longrightarrow> synced held k (m\<lparr>locker := l, locked_pages := (locked_pages m)(page \<mapsto> n)\<rparr>)"
        "synced held k (m\<lparr>locked_pages := (locked_pages m)(page \<mapsto> n - 1)\<rparr>)"
        by (auto simp: synced_def)
      with turn True ps eq Some l rec show ?thesis
        by (auto split: if_splits)
    qed
  next
    case False
    with turn sy eq show ?thesis by auto
  qed
qed

lemma ranges_synced:
  assumes "manager_ok k m" "synced held k m"
  shows "lock_range L address sz m = Some (Ret (ok, m')) \<Longrightarrow> synced held k m'"
    and "unlock_range L address sz m = Some (Ret (ok', m'')) \<Longrightarrow> synced held k m''"
proof -
  have k: "k < 64" using assms(1) by (simp add: manager_ok_def)
  have al: "2 ^ k dvd unat (address AND page_mask m)" using assms(1) by (simp add: manager_ok_def unat_page_of)
  show "lock_range L address sz m = Some (Ret (ok, m')) \<Longrightarrow> synced held k m'"
    using lock_loop_synced [OF k, of "address AND page_mask m" _ m "Ret (ok, m')"] al assms(2)
    by (auto simp: lock_range_def get_range_boundaries_def Let_def split: if_splits)
  show "unlock_range L address sz m = Some (Ret (ok', m'')) \<Longrightarrow> synced held k m''"
    using unlock_loop_synced [of L "address AND page_mask m" _ m "Ret (ok', m'')"] k al assms(2)
    by (auto simp: unlock_range_def get_range_boundaries_def Let_def split: if_splits)
qed

lemma clear_synced:
  assumes "synced held k m" "set ps \<subseteq> dom (locked_pages m)" "distinct ps"
  shows "synced held k (fold (\<lambda>page m. case lk_unlock L page (page_size m) (locker m) of (ok, l) \<Rightarrow>
      if ok then m\<lparr>locker := l, locked_pages := (locked_pages m)(page := None)\<rparr> else m\<lparr>locker := l\<rparr>) ps m)"
  using assms
proof (induction ps arbitrary: m)
  case (Cons p ps)
  obtain ok l where l: "lk_unlock L p (2 ^ k) (locker m) = (ok, l)" by fastforce
  have ps: "page_size m = 2 ^ k" and al: "2 ^ k dvd unat p" using Cons.prems by (auto simp: synced_def)
  have "held l = (if ok then held (locker m) - {p} else held (locker m))" by (rule unlock_law [OF al l])
  with Cons.prems(1) have a: "synced held k (if ok then m\<lparr>locker := l, locked_pages := (locked_pages m)(p := None)\<rparr> else m\<lparr>locker := l\<rparr>)"
    by (auto simp: synced_def)
  have b: "set ps \<subseteq> dom (locked_pages (if ok then m\<lparr>locker := l, locked_pages := (locked_pages m)(p := None)\<rparr> else m\<lparr>locker := l\<rparr>))"
    using Cons.prems(2,3) by (cases ok) auto
  from Cons.IH [OF a b] Cons.prems(3) show ?case by (simp add: l ps)
qed simp

text \<open>The destructor gives every page back.\<close>

lemma delete_releases:
  assumes "always_locks L" "synced held k m" "finite (dom (locked_pages m))"
  shows "held (delete_LockedPages L m) = {}"
proof -
  have "synced held k (pages_clear L m)"
    unfolding pages_clear_def by (rule clear_synced [OF assms(2)]) (simp_all add: assms(3))
  with pages_clear_all(1) [OF assms(1,3)] show ?thesis
    by (simp add: synced_def pages_empty_def delete_LockedPages_def)
qed

text \<open>Memory locked and unlocked: held in between, and afterwards as before.\<close>

lemma held_cycle:
  assumes "always_locks L" "manager_ok k m" "range_ok k address sz" "\<forall>p. has_room (locked_pages m) p" "synced held k m"
  obtains m1 m2 where "lock_range L address sz m = Some (Ret (True, m1))" "unlock_range L address sz m1 = Some (Ret (True, m2))"
    "\<And>i. i < unat sz \<Longrightarrow> (address + of_nat i) AND NOT (2 ^ k - 1) \<in> held (locker m1)"
    "locked_pages m2 = locked_pages m" "held (locker m2) = held (locker m)"
proof -
  obtain m1 m2 where c: "lock_range L address sz m = Some (Ret (True, m1))" "unlock_range L address sz m1 = Some (Ret (True, m2))"
    "\<forall>i < unat sz. pages_contain (address + of_nat i) m1" "locked_pages m2 = locked_pages m" "manager_ok k m1" "manager_ok k m2"
    using lock_unlock_cycle [OF assms(1-4)] by metis
  have s1: "synced held k m1" by (rule ranges_synced(1) [OF assms(2,5) c(1)])
  have s2: "synced held k m2" by (rule ranges_synced(2) [OF c(5) s1 c(2)])
  have "page_mask m1 = NOT (2 ^ k - 1)" using c(5) by (simp add: manager_ok_def)
  with that [OF c(1,2) _ c(4)] c(3,4) s1 s2 assms(5) show ?thesis by (simp add: pages_contain_def synced_def)
qed

end

text \<open>A system that grants every lock and remembers the pages.\<close>

definition granting_locker :: "u64 set Locker" where
  "granting_locker = \<lparr>lk_lock = (\<lambda>p s l. (True, insert p l)), lk_unlock = (\<lambda>p s l. (True, l - {p}))\<rparr>"

interpretation granting: page_locker granting_locker id k for k
  by unfold_locales (auto simp: granting_locker_def)

subsection \<open>A failed lock\<close>

lemma two_pages:
  assumes "manager_ok k m" and "2 ^ k dvd unat p" and "range_ok k p (2 * 2 ^ k)"
  shows "get_range_boundaries m p (2 * 2 ^ k) = (p, p + 2 ^ k)" and "p \<le> p + 2 ^ k"
    and "\<not> p + 2 ^ k + 2 ^ k \<le> p + 2 ^ k" and "p \<noteq> p + 2 ^ k"
proof -
  have k: "k < 64" and mask: "page_mask m = NOT (2 ^ k - 1)"
    using assms(1) by (simp_all add: manager_ok_def)
  have "(2 :: nat) ^ Suc k < 2 ^ 64"
    using assms(1) by (intro power_strict_increasing) (simp_all add: manager_ok_def)
  then have sz: "unat (2 * 2 ^ k :: u64) = 2 * 2 ^ k"
    using two_power_unat [OF k] by (simp add: unat_word_ariths)
  have fits: "unat p + 2 * 2 ^ k + 2 ^ k \<le> 2 ^ 64"
    using assms(3) by (simp add: range_ok_def sz)
  have pos: "0 < (2 :: nat) ^ k" by simp
  have q: "unat (p + 2 ^ k) = unat p + 2 ^ k"
    using unat_add_page [of p "2 ^ k"] fits pos unfolding two_power_unat [OF k] by linarith
  have q2: "unat (p + 2 ^ k + 2 ^ k) = unat p + 2 ^ k + 2 ^ k"
    using unat_add_page [of "p + 2 ^ k" "2 ^ k"] fits pos unfolding two_power_unat [OF k] q by linarith
  obtain c where c: "unat p = 2 ^ k * c" using assms(2) by blast
  have e: "unat (p + 2 * 2 ^ k - 1) = 2 ^ k * (c + 1) + (2 ^ k - 1)"
    unfolding range_last [OF assms(3)] sz c using pos by (simp add: algebra_simps)
  have "p AND NOT (2 ^ k - 1) = p"
    by (rule word_unat_eq_iff [THEN iffD2]) (simp add: unat_page_of [OF k] c)
  moreover have "(p + 2 * 2 ^ k - 1) AND NOT (2 ^ k - 1) = p + 2 ^ k"
  proof (rule word_unat_eq_iff [THEN iffD2])
    have "(2 ^ k * (c + 1) + (2 ^ k - 1)) div 2 ^ k = c + (1 :: nat)"
      by (subst div_mult_self4) simp_all
    then show "unat ((p + 2 * 2 ^ k - 1) AND NOT (2 ^ k - 1)) = unat (p + 2 ^ k)"
      unfolding unat_page_of [OF k] e q c by (simp add: algebra_simps)
  qed
  ultimately show "get_range_boundaries m p (2 * 2 ^ k) = (p, p + 2 ^ k)"
    by (simp add: get_range_boundaries_def mask)
  show "p \<le> p + 2 ^ k" "\<not> p + 2 ^ k + 2 ^ k \<le> p + 2 ^ k"
    unfolding word_le_nat_alt q q2 using pos by simp_all
  show "p \<noteq> p + 2 ^ k"
  proof
    assume "p = p + 2 ^ k"
    then have "unat p = unat (p + 2 ^ k)" by (rule arg_cong)
    with q pos show False by simp
  qed
qed

subsection \<open>Properties\<close>

text \<open>
  C20: With a system that grants every lock and keeps a locked page in memory until it is unlocked, every byte obtained from the secure
  allocator is in a page that the system holds. Giving the memory back zeroes every byte of it and no other byte, leaves every page
  with the lock count it had before the allocation, and the system holds the same pages as before.
\<close>

theorem secure_memory_cycle:
  assumes "page_locker L held k" and "always_locks L" and "manager_ok k m" and "synced held k m"
    and "\<forall>p. has_room (locked_pages m) p" and "range_ok k ptr (of_nat n)" and "n < 2 ^ 64"
  shows "\<exists>m1 m2. secure_allocate L ptr n m = Some (Ret (ptr, m1)) \<and>
    (\<forall>i<n. (ptr + of_nat i) AND NOT (2 ^ k - 1) \<in> held (locker m1)) \<and>
    secure_deallocate L ptr n mem m1 =
      Some (Ret (\<lambda>a. if \<exists>i<n. a = ptr + of_nat i then 0 else mem a, m2)) \<and>
    locked_pages m2 = locked_pages m \<and> held (locker m2) = held (locker m)"
proof -
  have un: "unat (of_nat n :: u64) = n" using assms(7) by (simp add: unat_of_nat)
  from page_locker.held_cycle [OF assms(1,2,3,6,5,4)] obtain m1 m2 where
    "lock_range L ptr (of_nat n) m = Some (Ret (True, m1))" "unlock_range L ptr (of_nat n) m1 = Some (Ret (True, m2))"
    "\<forall>i<n. (ptr + of_nat i) AND NOT (2 ^ k - 1) \<in> held (locker m1)" "locked_pages m2 = locked_pages m" "held (locker m2) = held (locker m)"
    unfolding un by metis
  moreover have "memory_cleanse ptr n mem = (\<lambda>a. if \<exists>i<n. a = ptr + of_nat i then 0 else mem a)"
    by (rule ext) (rule memory_cleanse_at)
  ultimately show ?thesis
    using assms(6) by (intro exI [of _ m1] exI [of _ m2]) (simp add: secure_allocate_def secure_deallocate_def range_ok_def)
qed

abbreviation empty_manager :: "u64 set LockedPages" where
  "empty_manager \<equiv> \<lparr>locker = {}, page_size = 2 ^ 12, page_mask = NOT (2 ^ 12 - 1), locked_pages = Map.empty\<rparr>"

theorem secure_memory_cycle_witness:
  "\<exists>m1 m2. secure_allocate granting_locker 5000 100 empty_manager = Some (Ret (5000, m1)) \<and>
    (\<forall>i<100. (5000 + of_nat i) AND NOT (2 ^ 12 - 1) \<in> locker m1) \<and>
    secure_deallocate granting_locker 5000 100 (\<lambda>a. 7) m1 =
      Some (Ret (\<lambda>a. if \<exists>i<100. a = 5000 + of_nat i then 0 else 7, m2)) \<and> locker m2 = {}"
  using secure_memory_cycle [OF granting.page_locker_axioms, of 12 empty_manager 5000 100 "\<lambda>a. 7"]
  by (simp add: always_locks_def granting_locker_def manager_ok_def range_ok_def counts_ok_def synced_def has_room_def) blast

text \<open>
  C38: unlocking a range whose locking failed takes a lock away from somebody else. When the first
  of two pages cannot be locked, \<open>lock_range\<close> reports the failure and locks neither; unlocking the
  same range, which the secure allocator does in any case, then unlocks the second page although
  another range still relies on it.
\<close>

theorem failed_lock_releases_other_page:
  assumes "manager_ok k m" and "2 ^ k dvd unat p" and "range_ok k p (2 * 2 ^ k)"
    and "locked_pages m p = None" and "locked_pages m (p + 2 ^ k) = Some 1"
    and "\<And>l. \<not> fst (lk_lock L p (2 ^ k) l)" and "\<And>l. fst (lk_unlock L (p + 2 ^ k) (2 ^ k) l)"
  shows "\<exists>m1 m2. lock_range L p (2 * 2 ^ k) m = Some (Ret (False, m1)) \<and> locked_pages m1 = locked_pages m \<and>
    unlock_range L p (2 * 2 ^ k) m1 = Some (Ret (True, m2)) \<and> locked_pages m2 (p + 2 ^ k) = None"
proof -
  note t = two_pages [OF assms(1-3)]
  have ps: "page_size m = 2 ^ k" using assms(1) by (simp add: manager_ok_def)
  have nz: "p \<noteq> 0" "2 * 2 ^ k \<noteq> (0 :: u64)" using assms(3) by (simp_all add: range_ok_def)
  obtain l where l: "lk_lock L p (2 ^ k) (locker m) = (False, l)"
    using assms(6) [of "locker m"] by (cases "lk_lock L p (2 ^ k) (locker m)") auto
  let ?m1 = "m\<lparr>locker := l\<rparr>"
  have locked: "lock_range L p (2 * 2 ^ k) m = Some (Ret (False, ?m1))"
    using nz t(1,2) l ps assms(4)
    by (simp add: lock_range_def) (subst lock_loop.simps, simp)
  obtain l2 where l2: "lk_unlock L (p + 2 ^ k) (2 ^ k) l = (True, l2)"
    using assms(7) [of l] by (cases "lk_unlock L (p + 2 ^ k) (2 ^ k) l") auto
  let ?m2 = "?m1\<lparr>locker := l2, locked_pages := (locked_pages m)(p + 2 ^ k := None)\<rparr>"
  have "unlock_loop L p (p + 2 ^ k) ?m1 = unlock_loop L (p + 2 ^ k) (p + 2 ^ k) ?m1"
    using t(2) assms(4) ps by (subst unlock_loop.simps) simp
  also have "\<dots> = unlock_loop L (p + 2 ^ k + 2 ^ k) (p + 2 ^ k) ?m2"
    using assms(5) ps l2 by (subst unlock_loop.simps) simp
  also have "\<dots> = Some (Ret (True, ?m2))" by (rule loop_stop(2) [OF t(3)])
  finally have "unlock_range L p (2 * 2 ^ k) ?m1 = Some (Ret (True, ?m2))"
    using nz t(1) by (simp add: unlock_range_def get_range_boundaries_def Let_def)
  with locked show ?thesis by fastforce
qed

definition failing_locker :: "unit Locker" where
  "failing_locker = \<lparr>lk_lock = (\<lambda>p s l. (p \<noteq> 8192, l)), lk_unlock = (\<lambda>p s l. (True, l))\<rparr>"

theorem failed_lock_releases_other_page_witness:
  "\<exists>m1 m2. lock_range failing_locker 8192 (2 * 2 ^ 12)
      \<lparr>locker = (), page_size = 2 ^ 12, page_mask = NOT (2 ^ 12 - 1), locked_pages = [8192 + 2 ^ 12 \<mapsto> 1]\<rparr> = Some (Ret (False, m1)) \<and>
    locked_pages m1 = [8192 + 2 ^ 12 \<mapsto> 1] \<and>
    unlock_range failing_locker 8192 (2 * 2 ^ 12) m1 = Some (Ret (True, m2)) \<and> locked_pages m2 (8192 + 2 ^ 12) = None"
  using failed_lock_releases_other_page [of 12
      "\<lparr>locker = (), page_size = 2 ^ 12, page_mask = NOT (2 ^ 12 - 1), locked_pages = [8192 + 2 ^ 12 \<mapsto> 1]\<rparr>"
      8192 failing_locker]
  by (simp add: manager_ok_def counts_ok_def range_ok_def failing_locker_def)

text \<open>
  C37: Locking a range that stays clear of the last page of the address space always leaves its loop, whatever the locker answers, and
  returns unless a count of the range is at the end of its type. A range that ends in the last page never leaves it by its condition when pages
  can be locked, because the page address wraps to zero before it exceeds the end: \<open>lock_range\<close> goes round the address space, counting the
  same pages again and again, until a count overflows.
\<close>

theorem lock_range_termination:
  assumes "manager_ok k m"
  shows "(range_ok k address sz \<longrightarrow> (\<exists>r. lock_range L address sz m = Some r
      \<and> ((\<forall>p. has_room (locked_pages m) p) \<longrightarrow> (\<exists>ok m'. r = Ret (ok, m'))))) \<and>
    (always_locks L \<and> address \<noteq> 0 \<and> sz \<noteq> 0 \<and> (address + sz - 1) AND page_mask m = - (2 ^ k) \<longrightarrow>
      lock_range L address sz m = Some Undef)"
proof -
  have k: "k < 64" and ps: "page_size m = 2 ^ k" and mask: "page_mask m = NOT (2 ^ k - 1)"
    using assms by (simp_all add: manager_ok_def)
  have "\<exists>r. lock_range L address sz m = Some r" using lock_loop_ends by (auto simp: lock_range_def split: prod.splits)
  moreover have "\<exists>ok m'. lock_range L address sz m = Some (Ret (ok, m'))"
    if "range_ok k address sz" "\<forall>p. has_room (locked_pages m) p"
    using that lock_loop_returns [of m] range_run [OF k that(1)] ps mask
    by (auto simp: lock_range_def get_range_boundaries_def Let_def)
  moreover have "lock_range L address sz m = Some Undef"
    if "always_locks L" "address \<noteq> 0" "sz \<noteq> 0" "(address + sz - 1) AND page_mask m = - (2 ^ k)"
  proof -
    have "2 ^ k dvd unat (address AND page_mask m)" unfolding mask unat_page_of [OF k] by simp
    with lock_loop_overflows [OF k that(1) ps] that(2-4) show ?thesis
      by (simp add: lock_range_def get_range_boundaries_def Let_def)
  qed
  ultimately show ?thesis by auto
qed

theorem lock_range_termination_witness:
  "(\<exists>ok m'. lock_range granting_locker 5000 100 empty_manager = Some (Ret (ok, m'))) \<and>
   lock_range granting_locker (- 4096) 10 empty_manager = Some Undef"
proof -
  have ok: "manager_ok 12 empty_manager" by (simp add: manager_ok_def counts_ok_def)
  have "range_ok 12 5000 100" by (simp add: range_ok_def)
  moreover have "always_locks granting_locker" by (simp add: always_locks_def granting_locker_def)
  ultimately show ?thesis
    using lock_range_termination [OF ok, of 5000 100 granting_locker]
      lock_range_termination [OF ok, of "- 4096" 10 granting_locker] by (auto simp: has_room_def)
qed

end
