(* ===== verification/Benchmarks.thy ===== *)
theory Benchmarks
  imports Hash_Composed Human_Bytes Base64 Hex
begin

section \<open>The benchmarks\<close>

text \<open>
  \<^verbatim>\<open>zen/core/crypto/hasher_benchmark.cpp\<close> and \<^verbatim>\<open>zen/core/encoding/hex_benchmark.cpp\<close>. The benchmark library decides how many times the
  loop over \<^verbatim>\<open>state\<close> runs: that number is an argument. The record \<open>Bench\<close> holds the two counters of the library's state object. The
  counters of the functions themselves are of type \<^verbatim>\<open>int\<close>, whose overflow is undefined. All loops have the same frame, \<open>bench_loop\<close>,
  around the work of one turn, which returns the number of bytes it counts.
\<close>

record Bench =
  reported_bytes :: int
  reported_items :: int

definition i32 :: "int \<Rightarrow> int run" where
  "i32 x = (if - (2 ^ 31) \<le> x \<and> x < 2 ^ 31 then Ret x else Undef)"

definition kInputSize :: nat where "kInputSize = unat (lit_KiB 4)"
definition kInputSize_hex :: nat where "kInputSize_hex = unat (lit_KiB 8)"

fun bench_loop :: "('s \<Rightarrow> (nat \<times> 's) run) \<Rightarrow> nat \<Rightarrow> int \<Rightarrow> int \<Rightarrow> 's \<Rightarrow> Bench \<Rightarrow> ('s \<times> Bench) run" where
  "bench_loop work 0 bytes_processed items_processed s state = Ret (s, state)"
| "bench_loop work (Suc n) bytes_processed items_processed s state =
     run_bind (work s) (\<lambda>(len, s).
     run_bind (i32 (bytes_processed + cast_int len)) (\<lambda>bytes_processed.
     run_bind (i32 (items_processed + 1)) (\<lambda>items_processed.
     bench_loop work n bytes_processed items_processed s
       (state\<lparr>reported_bytes := bytes_processed, reported_items := items_processed\<rparr>))))"

subsection \<open>Hash functions\<close>

type_synonym ('c, 'g) bench_objects = "('c ObjectPool \<times> 'c Hasher) \<times> 'g"

definition hash_work :: "'c Hash_class \<Rightarrow> ('g \<Rightarrow> nat \<times> 'g) \<Rightarrow> ('c, 'g) bench_objects \<Rightarrow> (nat \<times> ('c, 'g) bench_objects) run" where
  "hash_work K ud = (\<lambda>(hasher, g).
     let (pool, h) = hc_init K hasher in
     run_bind (get_random_alpha_string ud kInputSize g) (\<lambda>(input, g).
     run_bind (hc_update K (string_view_to_byte_view input) h) (\<lambda>h.
     map_ret (\<lambda>(digest, h). (length input, (pool, h), g)) (hc_finalize K h))))"

definition bench_sha1 ::
  "('c, u32) Openssl \<Rightarrow> Endian_ops \<Rightarrow> ('g \<Rightarrow> nat \<times> 'g) \<Rightarrow> nat \<Rightarrow> 'c ObjectPool \<Rightarrow> 'g \<Rightarrow> Bench \<Rightarrow> ('c ObjectPool \<times> Bench) run" where
  "bench_sha1 ossl E ud n pool g state =
     (let hasher = Sha1_new ossl pool in
      map_ret (\<lambda>((hasher, g), state). (Sha1_destroy hasher, state)) (bench_loop (hash_work (Sha1_class ossl E) ud) n 0 0 (hasher, g) state))"

definition bench_sha256 ::
  "('c, u32) Openssl \<Rightarrow> Endian_ops \<Rightarrow> ('g \<Rightarrow> nat \<times> 'g) \<Rightarrow> nat \<Rightarrow> 'c ObjectPool \<Rightarrow> 'g \<Rightarrow> Bench \<Rightarrow> ('c ObjectPool \<times> Bench) run" where
  "bench_sha256 ossl E ud n pool g state =
     (let hasher = Sha256_new ossl pool in
      map_ret (\<lambda>((hasher, g), state). (Sha256_destroy hasher, state)) (bench_loop (hash_work (Sha256_class ossl E) ud) n 0 0 (hasher, g) state))"

definition bench_sha512 ::
  "('c, u64) Openssl \<Rightarrow> Endian_ops \<Rightarrow> ('g \<Rightarrow> nat \<times> 'g) \<Rightarrow> nat \<Rightarrow> 'c ObjectPool \<Rightarrow> 'g \<Rightarrow> Bench \<Rightarrow> ('c ObjectPool \<times> Bench) run" where
  "bench_sha512 ossl E ud n pool g state =
     (let hasher = Sha512_new ossl pool in
      map_ret (\<lambda>((hasher, g), state). (Sha512_destroy hasher, state)) (bench_loop (hash_work (Sha512_class ossl E) ud) n 0 0 (hasher, g) state))"

definition old_work :: "Endian_ops \<Rightarrow> ('g \<Rightarrow> nat \<times> 'g) \<Rightarrow> (Sha256Old \<times> Bytes) \<times> 'g \<Rightarrow> (nat \<times> (Sha256Old \<times> Bytes) \<times> 'g) run" where
  "old_work E ud = (\<lambda>((hasher, hash), g).
     let hasher = Reset hasher in
     run_bind (get_random_alpha_string ud kInputSize g) (\<lambda>(input, g).
     let input_view = string_view_to_byte_view input in
     run_bind (write_old E input_view hasher) (\<lambda>hasher.
     map_ret (\<lambda>(hash, hasher). (length input, (hasher, hash), g)) (Finalize E hasher))))"

definition bench_sha256_old :: "Endian_ops \<Rightarrow> ('g \<Rightarrow> nat \<times> 'g) \<Rightarrow> nat \<Rightarrow> Bytes \<Rightarrow> 'g \<Rightarrow> Bench \<Rightarrow> Bench run" where
  "bench_sha256_old E ud n garbage g state =
     map_ret snd (bench_loop (old_work E ud) n 0 0 ((new_Sha256Old garbage, replicate 32 0), g) state)"

subsection \<open>Hexadecimal text\<close>

definition hex_work :: "string \<Rightarrow> unit \<Rightarrow> (nat \<times> unit) run" where
  "hex_work input s = (let hex_result = encode (string_view_to_byte_view input) False in Ret (length hex_result, s))"

definition bench_hex :: "('g \<Rightarrow> nat \<times> 'g) \<Rightarrow> nat \<Rightarrow> 'g \<Rightarrow> Bench \<Rightarrow> Bench run" where
  "bench_hex ud n g state =
     run_bind (get_random_alpha_string ud kInputSize_hex g) (\<lambda>(input, g).
     map_ret snd (bench_loop (hex_work input) n 0 0 () state))"

subsection \<open>The frame\<close>

text \<open>
  A loop whose turns all count \<open>len\<close> bytes, and keep what the next turn needs, reports the exact totals while they fit, and overflows
  as soon as they do not.
\<close>

lemma bench_loop_counts:
  assumes "\<forall>s. I s \<longrightarrow> (\<exists>s'. work s = Ret (len, s') \<and> I s')" and "0 < len" and "len < 2 ^ 31"
    and "I s" and "0 \<le> i" and "i \<le> b" and "b < 2 ^ 31"
  shows "(b + int (n * len) < 2 ^ 31 \<longrightarrow> (\<exists>s'. I s' \<and>
      bench_loop work n b i s \<lparr>reported_bytes = b, reported_items = i\<rparr> = Ret (s', \<lparr>reported_bytes = b + int (n * len), reported_items = i + int n\<rparr>)))
    \<and> (2 ^ 31 \<le> b + int (n * len) \<longrightarrow> bench_loop work n b i s \<lparr>reported_bytes = b, reported_items = i\<rparr> = Undef)"
  using assms(4-)
proof (induction n arbitrary: b i s)
  case 0
  then show ?case by simp
next
  case (Suc n)
  obtain s1 where s1: "work s = Ret (len, s1)" "I s1" using assms(1) Suc.prems(1) by blast
  have cast: "cast_int len = int len" using assms(3) by (rule cast_int_small)
  show ?case
  proof (cases "b + int len < 2 ^ 31")
    case True
    have items: "i + 1 \<le> b + int len" using Suc.prems(3) assms(2) by linarith
    have "i32 (b + int len) = Ret (b + int len)" "i32 (i + 1) = Ret (i + 1)"
      using Suc.prems True items by (simp_all add: i32_def)
    then have "bench_loop work (Suc n) b i s \<lparr>reported_bytes = b, reported_items = i\<rparr> =
        bench_loop work n (b + int len) (i + 1) s1 \<lparr>reported_bytes = b + int len, reported_items = i + 1\<rparr>"
      by (simp add: s1 cast)
    with Suc.IH [OF s1(2), of "i + 1" "b + int len"] True items Suc.prems show ?thesis
      by (simp add: algebra_simps)
  next
    case False
    then have "i32 (b + int len) = Undef" by (simp add: i32_def)
    then have "bench_loop work (Suc n) b i s \<lparr>reported_bytes = b, reported_items = i\<rparr> = Undef" by (simp add: s1 cast)
    moreover have "int (Suc n * len) \<ge> int len" by simp
    moreover from this have "2 ^ 31 \<le> b + int (Suc n * len)" using False by linarith
    ultimately show ?thesis by linarith
  qed
qed

abbreviation fresh_bench :: Bench where
  "fresh_bench \<equiv> \<lparr>reported_bytes = 0, reported_items = 0\<rparr>"

lemma bench_run:
  assumes "\<forall>s. I s \<longrightarrow> (\<exists>s'. work s = Ret (len, s') \<and> I s')" and "I s" and "0 < len" and "len < 2 ^ 31"
  shows "n * len < 2 ^ 31 \<Longrightarrow> \<exists>s'. bench_loop work n 0 0 s fresh_bench = Ret (s', \<lparr>reported_bytes = int len * int n, reported_items = int n\<rparr>)"
    and "2 ^ 31 \<le> n * len \<Longrightarrow> bench_loop work n 0 0 s fresh_bench = Undef"
proof -
  have c: "0 + int k < 2 ^ 31 \<longleftrightarrow> k < 2 ^ 31" "2 ^ 31 \<le> 0 + int k \<longleftrightarrow> 2 ^ 31 \<le> k" for k :: nat by simp_all
  note run = bench_loop_counts [of I work len s 0 0 n, OF assms(1,3,4,2), unfolded c]
  show "n * len < 2 ^ 31 \<Longrightarrow> \<exists>s'. bench_loop work n 0 0 s fresh_bench = Ret (s', \<lparr>reported_bytes = int len * int n, reported_items = int n\<rparr>)"
    using run by (auto simp: mult.commute)
  show "2 ^ 31 \<le> n * len \<Longrightarrow> bench_loop work n 0 0 s fresh_bench = Undef" using run by simp
qed

lemma kInputSize_values: "kInputSize = 4096" "kInputSize_hex = 8192"
  by (simp_all add: kInputSize_def kInputSize_hex_def lit_KiB_def kKiB_def)

text \<open>The distribution stays in its range.\<close>

definition in_range :: "('g \<Rightarrow> nat \<times> 'g) \<Rightarrow> bool" where
  "in_range ud \<longleftrightarrow> (\<forall>g. fst (ud g) < length kAlphaNum)"

lemma random_input:
  assumes "in_range ud"
  obtains input g' where "get_random_alpha_string ud len g = Ret (input, g')" "length input = len"
proof -
  have "\<exists>s g'. get_random_alpha_string ud len g = Ret (s, g') \<and> length s = len \<and> set s \<subseteq> set kAlphaNum"
    by (rule random_alpha_string) (use assms in \<open>simp add: in_range_def\<close>)
  with that show ?thesis by blast
qed

context hash_class
begin

lemma hash_work_turn:
  assumes "in_range ud" and "\<exists>m. st m (snd (fst s))"
  shows "\<exists>s'. hash_work K ud s = Ret (4096, s') \<and> (\<exists>m. st m (snd (fst s')))"
proof -
  obtain pool h g m where s: "s = ((pool, h), g)" "st m h" using assms(2) by (metis prod.collapse)
  obtain h1 where h1: "hc_init K (pool, h) = (pool, h1)" "st [] h1" using init_law [OF s(2)] by blast
  obtain input g1 where input: "get_random_alpha_string ud 4096 g = Ret (input, g1)" "length input = 4096"
    by (rule random_input [OF assms(1)])
  obtain h2 where h2: "hc_update K (string_view_to_byte_view input) h1 = Ret h2" "st (string_view_to_byte_view input) h2"
    using update_law [OF h1(2)] by fastforce
  have "length (string_view_to_byte_view input) < 2 ^ 61" using input(2) by (simp add: string_view_to_byte_view_def)
  from finalize_law [OF h2(2) this] h1 h2(1) input s(1) show ?thesis
    by (auto simp: hash_work_def kInputSize_values)
qed

lemma bench_hash_counts:
  assumes "in_range ud"
  shows "turns \<le> 524287 \<Longrightarrow> \<exists>s. bench_loop (hash_work K ud) turns 0 0 (hc_new K pool, g) fresh_bench
      = Ret (s, \<lparr>reported_bytes = 4096 * int turns, reported_items = int turns\<rparr>)"
    and "524288 \<le> turns \<Longrightarrow> bench_loop (hash_work K ud) turns 0 0 (hc_new K pool, g) fresh_bench = Undef"
proof -
  have start: "\<exists>m. st m (snd (fst (hc_new K pool, g)))" using new_law by (auto intro: exI [of _ "[]"])
  have turn: "\<forall>s. (\<exists>m. st m (snd (fst s))) \<longrightarrow> (\<exists>s'. hash_work K ud s = Ret (4096, s') \<and> (\<exists>m. st m (snd (fst s'))))"
    using hash_work_turn [OF assms] by blast
  note run = bench_run [OF turn start, of turns]
  show "turns \<le> 524287 \<Longrightarrow> \<exists>s. bench_loop (hash_work K ud) turns 0 0 (hc_new K pool, g) fresh_bench
      = Ret (s, \<lparr>reported_bytes = 4096 * int turns, reported_items = int turns\<rparr>)"
    using run(1) by simp
  show "524288 \<le> turns \<Longrightarrow> bench_loop (hash_work K ud) turns 0 0 (hc_new K pool, g) fresh_bench = Undef"
    using run(2) by simp
qed

end

lemma old_work_turn:
  assumes "intx_endian E" and "in_range ud" and "length (buf (fst (fst s))) = 64"
  shows "\<exists>s'. old_work E ud s = Ret (4096, s') \<and> length (buf (fst (fst s'))) = 64"
proof -
  obtain o1 hash g where s: "s = ((o1, hash), g)" by (metis prod.collapse)
  obtain input g1 where input: "get_random_alpha_string ud 4096 g = Ret (input, g1)" "length input = 4096"
    by (rule random_input [OF assms(2)])
  have "length (string_view_to_byte_view input) < 2 ^ 63" using input(2) by (simp add: string_view_to_byte_view_def)
  from write_old_holds [OF assms(1) old_holds_start(2) this] assms(3) s obtain o2 where
    o2: "write_old E (string_view_to_byte_view input) (Reset o1) = Ret o2" "old_holds (string_view_to_byte_view input) o2" by auto
  from Finalize_keeps [OF assms(1) o2(2)] o2(1) input s show ?thesis
    by (auto simp: old_work_def kInputSize_values Let_def)
qed

lemma length_encode_loop: "length (encode_loop bs) = 2 * length bs"
  by (induction bs) simp_all

subsection \<open>Properties\<close>

text \<open>
  C40: The benchmarks count correctly and exactly up to the range of their counters: with a generator in range, 524287 turns of a hash benchmark
  and 131071 turns of the hexadecimal one report the bytes and items processed, and one turn more overflows the \<^verbatim>\<open>int\<close>.
\<close>

theorem benchmark_counters:
  assumes "in_range ud" and "intx_endian E" and "openssl_digest o1 5 64 iv1 c1"
    and "openssl_digest o2 8 64 iv2 c2" and "openssl_digest o5 8 128 iv5 c5" and "length garbage = 64"
  shows "(n \<le> 524287 \<longrightarrow>
      (\<exists>p. bench_sha1 o1 E ud n p1 g fresh_bench = Ret (p, \<lparr>reported_bytes = 4096 * int n, reported_items = int n\<rparr>))
      \<and> (\<exists>p. bench_sha256 o2 E ud n p2 g fresh_bench = Ret (p, \<lparr>reported_bytes = 4096 * int n, reported_items = int n\<rparr>))
      \<and> (\<exists>p. bench_sha512 o5 E ud n p5 g fresh_bench = Ret (p, \<lparr>reported_bytes = 4096 * int n, reported_items = int n\<rparr>))
      \<and> bench_sha256_old E ud n garbage g fresh_bench = Ret \<lparr>reported_bytes = 4096 * int n, reported_items = int n\<rparr>)
    \<and> (524288 \<le> n \<longrightarrow> bench_sha1 o1 E ud n p1 g fresh_bench = Undef \<and> bench_sha256 o2 E ud n p2 g fresh_bench = Undef
      \<and> bench_sha512 o5 E ud n p5 g fresh_bench = Undef \<and> bench_sha256_old E ud n garbage g fresh_bench = Undef)
    \<and> (n \<le> 131071 \<longrightarrow> bench_hex ud n g fresh_bench = Ret \<lparr>reported_bytes = 16384 * int n, reported_items = int n\<rparr>)
    \<and> (131072 \<le> n \<longrightarrow> bench_hex ud n g fresh_bench = Undef)"
proof -
  note sha1 = hash_class.bench_hash_counts [OF Sha1_hash_class [OF assms(3,2)] assms(1), of n p1 g]
    and sha256 = hash_class.bench_hash_counts [OF Sha256_hash_class [OF assms(4,2)] assms(1), of n p2 g]
    and sha512 = hash_class.bench_hash_counts [OF Sha512_hash_class [OF assms(5,2)] assms(1), of n p5 g]
  have start: "length (buf (fst (fst ((new_Sha256Old garbage, replicate 32 0 :: Bytes), g)))) = 64"
    using assms(6) by (simp add: new_Sha256Old_def)
  have "\<forall>s. length (buf (fst (fst s))) = 64 \<longrightarrow> (\<exists>s'. old_work E ud s = Ret (4096, s') \<and> length (buf (fst (fst s'))) = 64)"
    using old_work_turn [OF assms(2,1)] by blast
  note old = bench_run [OF this start, of n]
  obtain input g1 where input: "get_random_alpha_string ud 8192 g = Ret (input, g1)" "length input = 8192"
    by (rule random_input [OF assms(1)])
  have "\<forall>s. True \<longrightarrow> (\<exists>s'. hex_work input s = Ret (16384, s') \<and> True)"
    using input(2) by (simp add: hex_work_def encode_def length_encode_loop string_view_to_byte_view_def)
  note hex = bench_run [OF this TrueI, of n "()"]
  show ?thesis
  proof (intro conjI impI)
    assume n: "n \<le> 524287"
    show "\<exists>p. bench_sha1 o1 E ud n p1 g fresh_bench = Ret (p, \<lparr>reported_bytes = 4096 * int n, reported_items = int n\<rparr>)"
      using sha1(1) [OF n] by (auto simp: bench_sha1_def Sha1_class_def)
    show "\<exists>p. bench_sha256 o2 E ud n p2 g fresh_bench = Ret (p, \<lparr>reported_bytes = 4096 * int n, reported_items = int n\<rparr>)"
      using sha256(1) [OF n] by (auto simp: bench_sha256_def Sha256_class_def)
    show "\<exists>p. bench_sha512 o5 E ud n p5 g fresh_bench = Ret (p, \<lparr>reported_bytes = 4096 * int n, reported_items = int n\<rparr>)"
      using sha512(1) [OF n] by (auto simp: bench_sha512_def Sha512_class_def)
    show "bench_sha256_old E ud n garbage g fresh_bench = Ret \<lparr>reported_bytes = 4096 * int n, reported_items = int n\<rparr>"
      using old(1) n by (auto simp: bench_sha256_old_def)
  next
    assume n: "524288 \<le> n"
    show "bench_sha1 o1 E ud n p1 g fresh_bench = Undef" using sha1(2) [OF n] by (simp add: bench_sha1_def Sha1_class_def)
    show "bench_sha256 o2 E ud n p2 g fresh_bench = Undef" using sha256(2) [OF n] by (simp add: bench_sha256_def Sha256_class_def)
    show "bench_sha512 o5 E ud n p5 g fresh_bench = Undef" using sha512(2) [OF n] by (simp add: bench_sha512_def Sha512_class_def)
    show "bench_sha256_old E ud n garbage g fresh_bench = Undef" using old(2) n by (simp add: bench_sha256_old_def)
  next
    assume "n \<le> 131071"
    then show "bench_hex ud n g fresh_bench = Ret \<lparr>reported_bytes = 16384 * int n, reported_items = int n\<rparr>"
      using hex(1) by (auto simp: bench_hex_def kInputSize_values input)
  next
    assume "131072 \<le> n"
    then show "bench_hex ud n g fresh_bench = Undef"
      using hex(2) by (simp add: bench_hex_def kInputSize_values input)
  qed
qed

theorem benchmark_counters_witness:
  "bench_hex (\<lambda>g :: nat. (g mod 36, g + 1)) 3 0 fresh_bench = Ret \<lparr>reported_bytes = 49152, reported_items = 3\<rparr>"
proof -
  have "length kAlphaNum = 36" by (simp add: kAlphaNum_def)
  then have r: "in_range (\<lambda>g :: nat. (g mod 36, g + 1))" by (simp add: in_range_def)
  from benchmark_counters [OF r ref_endian.intx_endian_axioms sample_digest own_sha256.openssl_digest_axioms sample_digest,
      of "replicate 64 0" 3 _ 0] show ?thesis by simp
qed

end
