(* ===== verification/Db_Cursor.thy ===== *)
theory Db_Cursor
  imports Moria_Prelude "HOL-Library.List_Lexorder"
begin

section \<open>Walks over a database table\<close>

text \<open>
  The cursor functions of \<^verbatim>\<open>zen/node/database/mdbx.cpp\<close>. The cursor itself is libmdbx's: the functions
  the code calls on it are the record \<open>Cursor_ops\<close> over an abstract cursor state \<open>'u\<close>; a result \<open>None\<close>
  is a move that found nothing (every call passes \<^verbatim>\<open>throw_notfound=false\<close>). What the documentation of
  libmdbx promises of them is the locale \<open>mdbx_cursor\<close>: a cursor that is set is a position in the list of
  records, which is sorted by key in the byte-wise order. Erasing a record leaves the cursor in the gap between its neighbours: both the next move and
  the current record are then the one after the gap. The end of data (\<^verbatim>\<open>eof\<close>) is a cursor that was never set or a gap with nothing after it.

  The walker is a function on a state \<open>'w\<close> of its own. The loops are \<open>partial_function (option)\<close>;
  the lemmas show that they end.
\<close>

type_synonym row = "Bytes \<times> Bytes"

datatype CursorMoveDirection = Forward | Reverse

record 'u Cursor_ops =
  c_eof :: "'u \<Rightarrow> bool"
  c_current :: "'u \<Rightarrow> row option \<times> 'u"
  c_to_first :: "'u \<Rightarrow> row option \<times> 'u"
  c_to_last :: "'u \<Rightarrow> row option \<times> 'u"
  c_to_next :: "'u \<Rightarrow> row option \<times> 'u"
  c_to_previous :: "'u \<Rightarrow> row option \<times> 'u"
  c_lower_bound :: "Bytes \<Rightarrow> 'u \<Rightarrow> row option \<times> 'u"
  c_erase :: "'u \<Rightarrow> 'u"

definition adjust_cursor_position_if_unpositioned ::
  "'u Cursor_ops \<Rightarrow> CursorMoveDirection \<Rightarrow> 'u \<Rightarrow> row option \<times> 'u" where
  "adjust_cursor_position_if_unpositioned C d u =
     (if c_eof C u then (if d = Forward then c_to_first C u else c_to_last C u) else c_current C u)"

definition strict_lower_bound :: "'u Cursor_ops \<Rightarrow> Bytes \<Rightarrow> 'u \<Rightarrow> row option \<times> 'u" where
  "strict_lower_bound C key u =
     (case c_lower_bound C key u of (data, u1) \<Rightarrow>
        if data = None then c_to_last C u1 else c_to_previous C u1)"

definition c_move :: "'u Cursor_ops \<Rightarrow> CursorMoveDirection \<Rightarrow> 'u \<Rightarrow> row option \<times> 'u" where
  "c_move C direction u = (if direction = Forward then c_to_next C u else c_to_previous C u)"

definition starts_with :: "Bytes \<Rightarrow> Bytes \<Rightarrow> bool" where
  "starts_with prefix key \<longleftrightarrow> take (length prefix) key = prefix"

partial_function (option) for_each_loop ::
  "'u Cursor_ops \<Rightarrow> (Bytes \<Rightarrow> Bytes \<Rightarrow> 'w \<Rightarrow> 'w) \<Rightarrow> CursorMoveDirection \<Rightarrow> row option \<times> 'u \<Rightarrow> nat \<Rightarrow> 'w \<Rightarrow>
   (nat \<times> 'u \<times> 'w) option" where
  "for_each_loop C walker direction st ret w =
     (case st of
        (None, u) \<Rightarrow> Some (ret, u, w)
      | (Some (k, v), u) \<Rightarrow>
          for_each_loop C walker direction (c_move C direction u) (ret + 1) (walker k v w))"

definition cursor_for_each ::
  "'u Cursor_ops \<Rightarrow> (Bytes \<Rightarrow> Bytes \<Rightarrow> 'w \<Rightarrow> 'w) \<Rightarrow> CursorMoveDirection \<Rightarrow> 'u \<Rightarrow> 'w \<Rightarrow> (nat \<times> 'u \<times> 'w) option" where
  "cursor_for_each C walker direction u w =
     for_each_loop C walker direction (adjust_cursor_position_if_unpositioned C direction u) 0 w"

partial_function (option) for_prefix_loop ::
  "'u Cursor_ops \<Rightarrow> Bytes \<Rightarrow> (Bytes \<Rightarrow> Bytes \<Rightarrow> 'w \<Rightarrow> 'w) \<Rightarrow> CursorMoveDirection \<Rightarrow> row option \<times> 'u \<Rightarrow> nat \<Rightarrow> 'w \<Rightarrow>
   (nat \<times> 'u \<times> 'w) option" where
  "for_prefix_loop C prefix walker direction st ret w =
     (case st of
        (None, u) \<Rightarrow> Some (ret, u, w)
      | (Some (k, v), u) \<Rightarrow>
          if \<not> starts_with prefix k then Some (ret, u, w)
          else for_prefix_loop C prefix walker direction (c_move C direction u) (ret + 1) (walker k v w))"

definition cursor_for_prefix ::
  "'u Cursor_ops \<Rightarrow> Bytes \<Rightarrow> (Bytes \<Rightarrow> Bytes \<Rightarrow> 'w \<Rightarrow> 'w) \<Rightarrow> CursorMoveDirection \<Rightarrow> 'u \<Rightarrow> 'w \<Rightarrow> (nat \<times> 'u \<times> 'w) option" where
  "cursor_for_prefix C prefix walker direction u w =
     for_prefix_loop C prefix walker direction (c_lower_bound C prefix u) 0 w"

partial_function (option) erase_prefix_loop ::
  "'u Cursor_ops \<Rightarrow> Bytes \<Rightarrow> row option \<times> 'u \<Rightarrow> nat \<Rightarrow> (nat \<times> 'u) option" where
  "erase_prefix_loop C prefix st ret =
     (case st of
        (None, u) \<Rightarrow> Some (ret, u)
      | (Some (k, v), u) \<Rightarrow>
          if \<not> starts_with prefix k then Some (ret, u)
          else erase_prefix_loop C prefix (c_to_next C (c_erase C u)) (ret + 1))"

definition cursor_erase_prefix :: "'u Cursor_ops \<Rightarrow> Bytes \<Rightarrow> 'u \<Rightarrow> (nat \<times> 'u) option" where
  "cursor_erase_prefix C prefix u = erase_prefix_loop C prefix (c_lower_bound C prefix u) 0"

partial_function (option) for_count_loop ::
  "'u Cursor_ops \<Rightarrow> (Bytes \<Rightarrow> Bytes \<Rightarrow> 'w \<Rightarrow> 'w) \<Rightarrow> CursorMoveDirection \<Rightarrow> nat \<Rightarrow> row option \<times> 'u \<Rightarrow> nat \<Rightarrow> 'w \<Rightarrow>
   (nat \<times> 'u \<times> 'w) option" where
  "for_count_loop C walker direction count st ret w =
     (case st of
        (None, u) \<Rightarrow> Some (ret, u, w)
      | (Some (k, v), u) \<Rightarrow>
          if count = 0 then Some (ret, u, w)
          else for_count_loop C walker direction (count - 1) (c_move C direction u) (ret + 1) (walker k v w))"

definition cursor_for_count ::
  "'u Cursor_ops \<Rightarrow> (Bytes \<Rightarrow> Bytes \<Rightarrow> 'w \<Rightarrow> 'w) \<Rightarrow> nat \<Rightarrow> CursorMoveDirection \<Rightarrow> 'u \<Rightarrow> 'w \<Rightarrow> (nat \<times> 'u \<times> 'w) option" where
  "cursor_for_count C walker count direction u w =
     for_count_loop C walker direction count (adjust_cursor_position_if_unpositioned C direction u) 0 w"

partial_function (option) erase_loop ::
  "'u Cursor_ops \<Rightarrow> CursorMoveDirection \<Rightarrow> row option \<times> 'u \<Rightarrow> nat \<Rightarrow> (nat \<times> 'u) option" where
  "erase_loop C direction st ret =
     (case st of
        (None, u) \<Rightarrow> Some (ret, u)
      | (Some (k, v), u) \<Rightarrow> erase_loop C direction (c_move C direction (c_erase C u)) (ret + 1))"

definition cursor_erase :: "'u Cursor_ops \<Rightarrow> Bytes \<Rightarrow> CursorMoveDirection \<Rightarrow> 'u \<Rightarrow> (nat \<times> 'u) option" where
  "cursor_erase C set_key direction u =
     erase_loop C direction
       (if direction = Forward then c_lower_bound C set_key u else strict_lower_bound C set_key u) 0"

text \<open>\<open>size_t\<close> arithmetic on the page size.\<close>

definition max_value_size_for_leaf_page :: "u64 \<Rightarrow> u64 \<Rightarrow> u64" where
  "max_value_size_for_leaf_page page_size key_size =
     (let page_room = page_size - 32;
          leaf_node_max_room = (and (page_room div 2) (not 1)) - 2 * 2
      in leaf_node_max_room - key_size)"

subsection \<open>Keys and prefixes\<close>

lemma starts_with_Nil [simp]: "starts_with [] k"
  by (simp add: starts_with_def)

lemma starts_with_Cons: "starts_with (p # ps) k \<longleftrightarrow> (\<exists>ks. k = p # ks \<and> starts_with ps ks)"
  by (cases k) (auto simp: starts_with_def)

lemma starts_with_ge: "starts_with p k \<Longrightarrow> p \<le> k"
  by (induction p arbitrary: k) (auto simp: starts_with_Cons)

lemma starts_with_between:
  "starts_with p b \<Longrightarrow> p \<le> a \<Longrightarrow> a \<le> b \<Longrightarrow> starts_with p a"
proof (induction p arbitrary: a b)
  case (Cons x p)
  from Cons.prems(1) obtain bs where b: "b = x # bs" "starts_with p bs"
    by (auto simp: starts_with_Cons)
  from Cons.prems(2) obtain y as where a: "a = y # as" by (cases a) auto
  from Cons.prems(2,3) a b have "y = x" "p \<le> as" "as \<le> bs" by auto
  with Cons.IH [OF b(2)] a show ?case by (simp add: starts_with_Cons)
qed simp

definition sorted_rows :: "row list \<Rightarrow> bool" where
  "sorted_rows xs \<longleftrightarrow> sorted_wrt (\<lambda>a b. fst a < fst b) xs"

text \<open>In a sorted table the keys with a prefix are the first ones from the prefix on.\<close>

lemma filter_initial:
  assumes "sorted_wrt R xs" and "\<And>a b. a \<in> set xs \<Longrightarrow> R a b \<Longrightarrow> P b \<Longrightarrow> P a"
  shows "filter P xs = takeWhile P xs \<and> filter (\<lambda>r. \<not> P r) xs = dropWhile P xs"
  using assms
proof (induction xs)
  case (Cons r xs)
  show ?case
  proof (cases "P r")
    case True
    with Cons show ?thesis by auto
  next
    case False
    then have "\<not> P b" if "b \<in> set xs" for b
      using Cons.prems that by auto
    then show ?thesis using False by (simp add: filter_empty_conv)
  qed
qed simp

lemma prefix_rows:
  assumes "sorted_rows (pre @ post)" and "\<And>r. r \<in> set pre \<Longrightarrow> fst r < p" and "\<And>r. r \<in> set post \<Longrightarrow> p \<le> fst r"
  shows "filter (\<lambda>r. starts_with p (fst r)) (pre @ post) = takeWhile (\<lambda>r. starts_with p (fst r)) post"
    and "filter (\<lambda>r. \<not> starts_with p (fst r)) (pre @ post) = pre @ dropWhile (\<lambda>r. starts_with p (fst r)) post"
proof -
  let ?P = "\<lambda>r. starts_with p (fst r)"
  have none: "\<not> ?P r" if "r \<in> set pre" for r
    using that assms(2) starts_with_ge by (meson leD)
  have "filter ?P post = takeWhile ?P post \<and> filter (\<lambda>r. \<not> ?P r) post = dropWhile ?P post"
  proof (rule filter_initial)
    show "sorted_wrt (\<lambda>a b. fst a < fst b) post"
      using assms(1) by (simp add: sorted_rows_def sorted_wrt_append)
    show "?P a" if "a \<in> set post" "fst a < fst b" "?P b" for a b
      using starts_with_between [OF that(3)] assms(3) [OF that(1)] that(2) by simp
  qed
  with none show "filter ?P (pre @ post) = takeWhile ?P post"
    and "filter (\<lambda>r. \<not> ?P r) (pre @ post) = pre @ dropWhile ?P post"
    by (simp_all add: filter_empty_conv)
qed

lemma split_at_key:
  assumes "sorted_rows xs"
  obtains pre post where "xs = pre @ post" "\<And>r. r \<in> set pre \<Longrightarrow> fst r < p" "\<And>r. r \<in> set post \<Longrightarrow> p \<le> fst r"
proof
  let ?Q = "\<lambda>r. fst r < p"
  show "xs = takeWhile ?Q xs @ dropWhile ?Q xs" by simp
  show "fst r < p" if "r \<in> set (takeWhile ?Q xs)" for r using that by (rule set_takeWhileD [THEN conjunct2])
  show "p \<le> fst r" if "r \<in> set (dropWhile ?Q xs)" for r
    using assms that
  proof (induction xs)
    case (Cons x xs)
    then show ?case by (cases "?Q x") (auto simp: sorted_rows_def)
  qed simp
qed

subsection \<open>The contract of a cursor\<close>

text \<open>
  The position of a cursor: the records before it, nearest first; the record it is on, the gap a record was erased from, or nowhere; and
  the records after it.
\<close>

datatype spot = Nowhere | Gap | On row

type_synonym zipper = "row list \<times> spot \<times> row list"

fun here :: "spot \<Rightarrow> row list" where
  "here (On x) = [x]"
| "here _ = []"

definition rows :: "zipper \<Rightarrow> row list" where
  "rows = (\<lambda>(l, h, r). rev l @ here h @ r)"

text \<open>The same position seen by a walk in a direction: what is behind it, where it is, what is ahead.\<close>

fun turn :: "CursorMoveDirection \<Rightarrow> zipper \<Rightarrow> zipper" where
  "turn Forward (l, h, r) = (l, h, r)"
| "turn Reverse (l, h, r) = (r, h, l)"

text \<open>
  What a walk from a position visits: the current record and what is ahead. After an erase the current record is the one that followed the erased one,
  in both directions. A cursor that is not set, or is at the end of the data, gives the whole table.
\<close>

fun to_visit :: "CursorMoveDirection \<Rightarrow> zipper \<Rightarrow> row list" where
  "to_visit Forward (l, On x, r) = x # r"
| "to_visit Reverse (l, On x, r) = x # l"
| "to_visit Forward (l, Gap, y # r) = y # r"
| "to_visit Reverse (l, Gap, y # r) = y # l"
| "to_visit Forward z = rows z"
| "to_visit Reverse z = rev (rows z)"

definition walk :: "(Bytes \<Rightarrow> Bytes \<Rightarrow> 'w \<Rightarrow> 'w) \<Rightarrow> row list \<Rightarrow> 'w \<Rightarrow> 'w" where
  "walk walker vs = fold (\<lambda>(k, v). walker k v) vs"

lemma walk_simps [simp]:
  "walk walker [] w = w"
  "walk walker ((k, v) # vs) w = walk walker vs (walker k v w)"
  by (simp_all add: walk_def)

lemma turn_turn [simp]: "turn d (turn d z) = z"
  by (cases d; cases z) simp_all

lemma rows_turn: "rows (turn d z) = (if d = Forward then rows z else rev (rows z))"
proof -
  obtain l h r where "z = (l, h, r)" by (cases z)
  then show ?thesis by (cases d; cases h) (simp_all add: rows_def)
qed

lemma rows_turn_eq: "rows (turn d z) = rows (turn d z') \<longleftrightarrow> rows z = rows z'"
  by (simp add: rows_turn)

lemma turn_eqD: "turn d z = (b, h, a) \<Longrightarrow> z = turn d (b, h, a)"
  using turn_turn by metis

text \<open>One round of each loop.\<close>

lemma walk_stop [simp]:
  "for_each_loop C walker d (None, u) ret w = Some (ret, u, w)"
  "for_count_loop C walker d n (None, u) ret w = Some (ret, u, w)"
  "for_prefix_loop C p walker d (None, u) ret w = Some (ret, u, w)"
  "erase_loop C d (None, u) ret = Some (ret, u)"
  "erase_prefix_loop C p (None, u) ret = Some (ret, u)"
  by (simp_all add: for_each_loop.simps for_count_loop.simps for_prefix_loop.simps erase_loop.simps
      erase_prefix_loop.simps)

lemma walk_step [simp]:
  "for_each_loop C walker d (Some x, u) ret w = for_each_loop C walker d (c_move C d u) (Suc ret) (walk walker [x] w)"
  "for_count_loop C walker d 0 (Some x, u) ret w = Some (ret, u, w)"
  "for_count_loop C walker d (Suc n) (Some x, u) ret w
     = for_count_loop C walker d n (c_move C d u) (Suc ret) (walk walker [x] w)"
  "for_prefix_loop C p walker d (Some x, u) ret w
     = (if starts_with p (fst x) then for_prefix_loop C p walker d (c_move C d u) (Suc ret) (walk walker [x] w)
        else Some (ret, u, w))"
  "erase_loop C d (Some x, u) ret = erase_loop C d (c_move C d (c_erase C u)) (Suc ret)"
  "erase_prefix_loop C p (Some x, u) ret
     = (if starts_with p (fst x) then erase_prefix_loop C p (c_to_next C (c_erase C u)) (Suc ret) else Some (ret, u))"
  by (cases x; simp add: for_each_loop.simps [of _ _ _ "(Some _, _)"] for_count_loop.simps [of _ _ _ _ "(Some _, _)"]
      for_prefix_loop.simps [of _ _ _ _ "(Some _, _)"] erase_loop.simps [of _ _ "(Some _, _)"]
      erase_prefix_loop.simps [of _ _ "(Some _, _)"])+

lemma walk_Cons: "walk walker (x # vs) w = walk walker vs (walk walker [x] w)"
  by (cases x) simp

locale mdbx_cursor =
  fixes C :: "'u Cursor_ops" and pos :: "'u \<Rightarrow> zipper"
  assumes eof_law: "pos u = (l, h, r) \<Longrightarrow> c_eof C u \<longleftrightarrow> h = Nowhere \<or> h = Gap \<and> r = []"
    and current_law: "pos u = (l, On x, r) \<Longrightarrow>
      fst (c_current C u) = Some x \<and> pos (snd (c_current C u)) = (l, On x, r)"
    and current_gap: "pos u = (l, Gap, x # r) \<Longrightarrow>
      fst (c_current C u) = Some x \<and> pos (snd (c_current C u)) = (l, On x, r)"
    and first_law: "rows (pos u) = x # r \<Longrightarrow>
      fst (c_to_first C u) = Some x \<and> pos (snd (c_to_first C u)) = ([], On x, r)"
    and first_none: "rows (pos u) = [] \<Longrightarrow> fst (c_to_first C u) = None \<and> rows (pos (snd (c_to_first C u))) = []"
    and last_law: "rows (pos u) = r @ [x] \<Longrightarrow>
      fst (c_to_last C u) = Some x \<and> pos (snd (c_to_last C u)) = (rev r, On x, [])"
    and last_none: "rows (pos u) = [] \<Longrightarrow> fst (c_to_last C u) = None \<and> rows (pos (snd (c_to_last C u))) = []"
    and next_law: "pos u = (l, h, y # r) \<Longrightarrow> h \<noteq> Nowhere \<Longrightarrow>
      fst (c_to_next C u) = Some y \<and> pos (snd (c_to_next C u)) = (here h @ l, On y, r)"
    and next_none: "pos u = (l, h, []) \<Longrightarrow> h \<noteq> Nowhere \<Longrightarrow>
      fst (c_to_next C u) = None \<and> rows (pos (snd (c_to_next C u))) = rows (pos u)"
    and previous_law: "pos u = (y # l, h, r) \<Longrightarrow> h \<noteq> Nowhere \<Longrightarrow>
      fst (c_to_previous C u) = Some y \<and> pos (snd (c_to_previous C u)) = (l, On y, here h @ r)"
    and previous_none: "pos u = ([], h, r) \<Longrightarrow> h \<noteq> Nowhere \<Longrightarrow>
      fst (c_to_previous C u) = None \<and> rows (pos (snd (c_to_previous C u))) = rows (pos u)"
    and bound_law: "rows (pos u) = pre @ y # post \<Longrightarrow> (\<And>r. r \<in> set pre \<Longrightarrow> fst r < key) \<Longrightarrow> key \<le> fst y \<Longrightarrow>
      fst (c_lower_bound C key u) = Some y \<and> pos (snd (c_lower_bound C key u)) = (rev pre, On y, post)"
    and bound_none: "(\<And>r. r \<in> set (rows (pos u)) \<Longrightarrow> fst r < key) \<Longrightarrow>
      fst (c_lower_bound C key u) = None \<and> rows (pos (snd (c_lower_bound C key u))) = rows (pos u)"
    and erase_law: "pos u = (l, On x, r) \<Longrightarrow> pos (c_erase C u) = (l, Gap, r)"

begin

lemma move_some:
  assumes "turn d (pos u) = (b, h, y # a)" "h \<noteq> Nowhere"
  obtains u' where "c_move C d u = (Some y, u')" "turn d (pos u') = (here h @ b, On y, a)"
proof (cases d)
  case Forward
  then have "pos u = (b, h, y # a)" using turn_eqD [OF assms(1)] by simp
  from next_law [OF this assms(2)] Forward show ?thesis
    by (intro that [of "snd (c_to_next C u)"]) (auto simp: c_move_def intro: prod_eqI)
next
  case Reverse
  then have "pos u = (y # a, h, b)" using turn_eqD [OF assms(1)] by simp
  from previous_law [OF this assms(2)] Reverse show ?thesis
    by (intro that [of "snd (c_to_previous C u)"]) (auto simp: c_move_def intro: prod_eqI)
qed

lemma move_none:
  assumes "turn d (pos u) = (b, h, [])" "h \<noteq> Nowhere"
  obtains u' where "c_move C d u = (None, u')" "rows (pos u') = rows (pos u)"
proof (cases d)
  case Forward
  then have "pos u = (b, h, [])" using turn_eqD [OF assms(1)] by simp
  from next_none [OF this assms(2)] Forward show ?thesis
    by (intro that [of "snd (c_to_next C u)"]) (auto simp: c_move_def intro: prod_eqI)
next
  case Reverse
  then have "pos u = ([], h, b)" using turn_eqD [OF assms(1)] by simp
  from previous_none [OF this assms(2)] Reverse show ?thesis
    by (intro that [of "snd (c_to_previous C u)"]) (auto simp: c_move_def intro: prod_eqI)
qed

text \<open>The start of a walk, by the four kinds of position.\<close>

lemma adjust_whole:
  assumes "c_eof C u" "(if d = Forward then rows (pos u) else rev (rows (pos u))) = x # a"
  obtains b u' where "adjust_cursor_position_if_unpositioned C d u = (Some x, u')"
    "turn d (pos u') = (b, On x, a)" "rows (pos u') = rows (pos u)"
proof (cases d)
  case Forward
  then have "rows (pos u) = x # a" using assms(2) by simp
  from first_law [OF this] this assms(1) Forward show ?thesis
    by (intro that [of "snd (c_to_first C u)" "[]"])
      (auto simp: adjust_cursor_position_if_unpositioned_def rows_def intro: prod_eqI)
next
  case Reverse
  then have "rows (pos u) = rev a @ [x]" using assms(2) by (simp add: rev_swap)
  from last_law [OF this] this assms(1) Reverse show ?thesis
    by (intro that [of "snd (c_to_last C u)" "[]"])
      (auto simp: adjust_cursor_position_if_unpositioned_def rows_def intro: prod_eqI)
qed

lemma adjust_current:
  assumes "\<not> c_eof C u" "fst (c_current C u) = Some x" "pos (snd (c_current C u)) = (l, On x, r)" "rows (pos u) = rows (l, On x, r)"
    and "a = (if d = Forward then r else l)"
  obtains b u' where "adjust_cursor_position_if_unpositioned C d u = (Some x, u')"
    "turn d (pos u') = (b, On x, a)" "rows (pos u') = rows (pos u)"
  using assms
  by (intro that [of "snd (c_current C u)" "if d = Forward then l else r"])
    (cases d; auto simp: adjust_cursor_position_if_unpositioned_def intro: prod_eqI)+

lemma adjust_some:
  assumes "to_visit d (pos u) = x # a"
  obtains b u' where "adjust_cursor_position_if_unpositioned C d u = (Some x, u')"
    "turn d (pos u') = (b, On x, a)" "rows (pos u') = rows (pos u)"
proof -
  obtain l h r where p: "pos u = (l, h, r)" by (cases "pos u")
  consider "c_eof C u" "h = Nowhere \<or> h = Gap \<and> r = []" | y where "h = On y" | y r' where "h = Gap" "r = y # r'"
    using eof_law [OF p] by (cases h; cases r) auto
  then show ?thesis
  proof cases
    case 1
    then have "(if d = Forward then rows (pos u) else rev (rows (pos u))) = x # a"
      using assms p by (cases d) auto
    then show ?thesis by (rule adjust_whole [OF 1(1)]) (rule that)
  next
    case (2 y)
    then have "y = x" "a = (if d = Forward then r else l)" using assms p by (cases d; simp)+
    moreover from this 2 p have u: "pos u = (l, On x, r)" by simp
    ultimately show ?thesis
      using adjust_current [of u x l r a d, OF _ _ _ _ _ that] eof_law [OF u] current_law [OF u] u by simp
  next
    case (3 y r')
    then have "y = x" "a = (if d = Forward then r' else l)" using assms p by (cases d; simp)+
    moreover from this 3 p have u: "pos u = (l, Gap, x # r')" by simp
    ultimately show ?thesis
      using adjust_current [of u x l r' a d, OF _ _ _ _ _ that] eof_law [OF u] current_gap [OF u] u by (simp add: rows_def)
  qed
qed

lemma to_visit_Nil:
  assumes "to_visit d (l, h, r) = []"
  shows "(h = Nowhere \<or> h = Gap \<and> r = []) \<and> rows (l, h, r) = []"
  using assms by (cases d; cases h; cases r) auto

lemma adjust_none:
  assumes "to_visit d (pos u) = []"
  obtains u' where "adjust_cursor_position_if_unpositioned C d u = (None, u')" "rows (pos u') = rows (pos u)"
proof -
  obtain l h r where p: "pos u = (l, h, r)" by (cases "pos u")
  from to_visit_Nil [OF assms [unfolded p]] have "c_eof C u" "rows (pos u) = []" using eof_law [OF p] p by auto
  with first_none [of u] last_none [of u] show ?thesis
    by (intro that [of "snd (adjust_cursor_position_if_unpositioned C d u)"])
      (auto simp: adjust_cursor_position_if_unpositioned_def intro: prod_eqI)
qed

text \<open>A walk visits the current record and everything ahead of it, and leaves the table as it was.\<close>

lemma for_each_from:
  "turn d (pos u) = (b, On x, a) \<Longrightarrow>
   \<exists>u'. for_each_loop C walker d (Some x, u) ret w = Some (ret + length (x # a), u', walk walker (x # a) w)
     \<and> rows (pos u') = rows (pos u)"
proof (induction a arbitrary: u b x ret w)
  case Nil
  obtain u' where "c_move C d u = (None, u')" "rows (pos u') = rows (pos u)"
    by (rule move_none [OF Nil]) simp
  then show ?case by simp
next
  case (Cons y a)
  obtain u' where u': "c_move C d u = (Some y, u')" "turn d (pos u') = (here (On x) @ b, On y, a)"
    by (rule move_some [OF Cons.prems]) simp
  then have "rows (turn d (pos u')) = rows (turn d (pos u))"
    using Cons.prems by (simp add: rows_def)
  then have "rows (pos u') = rows (pos u)" by (simp only: rows_turn_eq)
  with Cons.IH [OF u'(2), of "Suc ret" "walk walker [x] w"] u'(1) show ?case
    by (simp add: walk_Cons [of _ x "y # a"])
qed

lemma for_count_from:
  "turn d (pos u) = (b, On x, a) \<Longrightarrow>
   \<exists>u'. for_count_loop C walker d n (Some x, u) ret w
       = Some (ret + length (take n (x # a)), u', walk walker (take n (x # a)) w)
     \<and> rows (pos u') = rows (pos u)"
proof (induction n arbitrary: a u b x ret w)
  case 0
  then show ?case by simp
next
  case (Suc n)
  show ?case
  proof (cases a)
    case Nil
    obtain u' where "c_move C d u = (None, u')" "rows (pos u') = rows (pos u)"
      by (rule move_none [OF Suc.prems [unfolded Nil]]) simp
    then show ?thesis using Nil by simp
  next
    case (Cons y a')
    obtain u' where u': "c_move C d u = (Some y, u')" "turn d (pos u') = (here (On x) @ b, On y, a')"
      by (rule move_some [OF Suc.prems [unfolded Cons]]) simp
    then have "rows (turn d (pos u')) = rows (turn d (pos u))"
      using Suc.prems Cons by (simp add: rows_def)
    then have "rows (pos u') = rows (pos u)" by (simp only: rows_turn_eq)
    with Suc.IH [OF u'(2), of "Suc ret" "walk walker [x] w"] u'(1) Cons show ?thesis
      by (simp add: walk_Cons [of _ x "take n (y # a')"])
  qed
qed

lemma for_prefix_from:
  "turn d (pos u) = (b, On x, a) \<Longrightarrow>
   \<exists>u'. for_prefix_loop C p walker d (Some x, u) ret w
       = Some (ret + length (takeWhile (\<lambda>r. starts_with p (fst r)) (x # a)), u',
               walk walker (takeWhile (\<lambda>r. starts_with p (fst r)) (x # a)) w)
     \<and> rows (pos u') = rows (pos u)"
proof (induction a arbitrary: u b x ret w)
  case Nil
  obtain u' where "c_move C d u = (None, u')" "rows (pos u') = rows (pos u)"
    by (rule move_none [OF Nil]) simp
  then show ?case by simp
next
  case (Cons y a)
  obtain u' where u': "c_move C d u = (Some y, u')" "turn d (pos u') = (here (On x) @ b, On y, a)"
    by (rule move_some [OF Cons.prems]) simp
  then have "rows (turn d (pos u')) = rows (turn d (pos u))"
    using Cons.prems by (simp add: rows_def)
  then have "rows (pos u') = rows (pos u)" by (simp only: rows_turn_eq)
  with Cons.IH [OF u'(2), of "Suc ret" "walk walker [x] w"] u'(1) show ?case
    by (cases "starts_with p (fst x)"; cases "starts_with p (fst y)") (simp_all add: walk_Cons [of _ x "y # _"])
qed

text \<open>Erasing while moving: what is behind the cursor stays.\<close>

lemma erase_turn:
  assumes "turn d (pos u) = (b, On x, a)"
  shows "turn d (pos (c_erase C u)) = (b, Gap, a)"
proof (cases d)
  case Forward
  then have "pos u = (b, On x, a)" using turn_eqD [OF assms] by simp
  from erase_law [OF this] Forward show ?thesis by simp
next
  case Reverse
  then have "pos u = (a, On x, b)" using turn_eqD [OF assms] by simp
  from erase_law [OF this] Reverse show ?thesis by simp
qed

lemma erase_from:
  "turn d (pos u) = (b, On x, a) \<Longrightarrow>
   \<exists>u'. erase_loop C d (Some x, u) ret = Some (ret + length (x # a), u')
     \<and> rows (turn d (pos u')) = rev b"
proof (induction a arbitrary: u x ret)
  case Nil
  obtain u' where "c_move C d (c_erase C u) = (None, u')" "rows (pos u') = rows (pos (c_erase C u))"
    by (rule move_none [OF erase_turn [OF Nil]]) simp
  moreover from this have "rows (turn d (pos u')) = rows (turn d (pos (c_erase C u)))"
    by (simp only: rows_turn_eq)
  ultimately show ?case using erase_turn [OF Nil] by (simp add: rows_def)
next
  case (Cons y a)
  obtain u' where u': "c_move C d (c_erase C u) = (Some y, u')" "turn d (pos u') = (here Gap @ b, On y, a)"
    by (rule move_some [OF erase_turn [OF Cons.prems]]) simp
  then show ?case using Cons.IH [of u' y "Suc ret"] by simp
qed

lemma erase_prefix_from:
  "pos u = (b, On x, a) \<Longrightarrow>
   \<exists>u'. erase_prefix_loop C p (Some x, u) ret
       = Some (ret + length (takeWhile (\<lambda>r. starts_with p (fst r)) (x # a)), u')
     \<and> rows (pos u') = rev b @ dropWhile (\<lambda>r. starts_with p (fst r)) (x # a)"
proof (induction a arbitrary: u x ret)
  case Nil
  obtain u' where "c_to_next C (c_erase C u) = (None, u')" "rows (pos u') = rev b"
    using next_none [of "c_erase C u" b Gap] erase_law [OF Nil]
    by (cases "c_to_next C (c_erase C u)") (auto simp: rows_def)
  then show ?case using Nil by (cases "starts_with p (fst x)") (simp_all add: rows_def)
next
  case (Cons y a)
  obtain u' where "c_to_next C (c_erase C u) = (Some y, u')" "pos u' = (b, On y, a)"
    using next_law [of "c_erase C u" b Gap y a] erase_law [OF Cons.prems] by (cases "c_to_next C (c_erase C u)") auto
  then show ?case using Cons.IH [of u' y "Suc ret"] Cons.prems
    by (cases "starts_with p (fst x)"; cases "starts_with p (fst y)") (simp_all add: rows_def)
qed

lemma lower_bound_cases:
  assumes "sorted_rows (rows (pos u))"
  obtains (none) u' where "c_lower_bound C key u = (None, u')" "rows (pos u') = rows (pos u)"
      "\<And>r. r \<in> set (rows (pos u)) \<Longrightarrow> fst r < key"
    | (some) pre y post u' where "c_lower_bound C key u = (Some y, u')" "pos u' = (rev pre, On y, post)"
      "rows (pos u) = pre @ y # post" "\<And>r. r \<in> set pre \<Longrightarrow> fst r < key" "\<And>r. r \<in> set (y # post) \<Longrightarrow> key \<le> fst r"
proof -
  obtain pre post where s: "rows (pos u) = pre @ post"
    "\<And>r. r \<in> set pre \<Longrightarrow> fst r < key" "\<And>r. r \<in> set post \<Longrightarrow> key \<le> fst r"
    by (rule split_at_key [OF assms, of key]) auto
  show ?thesis
  proof (cases post)
    case Nil
    then show ?thesis using s bound_none [of u key]
      by (intro none [of "snd (c_lower_bound C key u)"]) (auto intro: prod_eqI)
  next
    case (Cons y ys)
    with s have "rows (pos u) = pre @ y # ys" "key \<le> fst y" by auto
    from bound_law [OF this(1) s(2) this(2)] this s Cons show ?thesis
      by (intro some [of y "snd (c_lower_bound C key u)" pre ys]) (auto intro: prod_eqI)
  qed
qed

lemma for_each_visits:
  "\<exists>u'. cursor_for_each C walker d u w
       = Some (length (to_visit d (pos u)), u', walk walker (to_visit d (pos u)) w) \<and> rows (pos u') = rows (pos u)"
proof (cases "to_visit d (pos u)")
  case Nil
  then show ?thesis by (rule adjust_none) (simp add: cursor_for_each_def Nil)
next
  case (Cons x a)
  obtain b u' where "adjust_cursor_position_if_unpositioned C d u = (Some x, u')"
    "turn d (pos u') = (b, On x, a)" "rows (pos u') = rows (pos u)"
    by (rule adjust_some [OF Cons])
  with for_each_from [of d u' b x a walker 0 w] Cons show ?thesis
    by (simp add: cursor_for_each_def del: walk_step)
qed

lemma for_count_visits:
  "\<exists>u'. cursor_for_count C walker n d u w
       = Some (length (take n (to_visit d (pos u))), u', walk walker (take n (to_visit d (pos u))) w)
     \<and> rows (pos u') = rows (pos u)"
proof (cases "to_visit d (pos u)")
  case Nil
  then show ?thesis by (rule adjust_none) (simp add: cursor_for_count_def Nil)
next
  case (Cons x a)
  obtain b u' where "adjust_cursor_position_if_unpositioned C d u = (Some x, u')"
    "turn d (pos u') = (b, On x, a)" "rows (pos u') = rows (pos u)"
    by (rule adjust_some [OF Cons])
  with for_count_from [of d u' b x a walker n 0 w] Cons show ?thesis
    by (simp add: cursor_for_count_def del: walk_step take.simps)
qed

lemma for_prefix_visits:
  fixes p :: Bytes and d :: CursorMoveDirection
  assumes "sorted_rows (rows (pos u))"
  defines "found \<equiv> filter (\<lambda>r. starts_with p (fst r)) (rows (pos u))"
  defines "vs \<equiv> (if d = Forward then found else take 1 found)"
  shows "\<exists>u'. cursor_for_prefix C p walker d u w = Some (length vs, u', walk walker vs w) \<and> rows (pos u') = rows (pos u)"
  using assms(1)
proof (cases rule: lower_bound_cases [where key = p])
  case (none u')
  then have "found = []"
    unfolding found_def using starts_with_ge by (fastforce simp: filter_empty_conv)
  with none show ?thesis by (simp add: cursor_for_prefix_def vs_def)
next
  case (some pre y post u')
  let ?P = "\<lambda>r. starts_with p (fst r)"
  from some prefix_rows(1) [of pre "y # post" p] assms(1) have f: "found = takeWhile ?P (y # post)"
    by (simp add: found_def del: takeWhile.simps)
  have "\<not> ?P r" if "r \<in> set pre" for r
    using some(4) [OF that] starts_with_ge by (meson leD)
  then have "takeWhile ?P (y # rev pre) = take 1 found"
    unfolding f by (cases "rev pre") (auto simp: takeWhile_eq_Nil_iff)
  with f some(2) have "vs = takeWhile ?P (y # (if d = Forward then post else rev pre))"
    "turn d (pos u') = (if d = Forward then rev pre else post, On y, if d = Forward then post else rev pre)"
    by (cases d; simp add: vs_def del: takeWhile.simps)+
  with for_prefix_from [OF this(2), of p walker 0 w] some(1-3) show ?thesis
    by (simp add: cursor_for_prefix_def rows_def del: walk_step takeWhile.simps)
qed

lemma erase_prefix_removes:
  assumes "sorted_rows (rows (pos u))"
  shows "\<exists>u'. cursor_erase_prefix C p u = Some (length (filter (\<lambda>r. starts_with p (fst r)) (rows (pos u))), u')
    \<and> rows (pos u') = filter (\<lambda>r. \<not> starts_with p (fst r)) (rows (pos u))"
  using assms
proof (cases rule: lower_bound_cases [where key = p])
  case (none u')
  then have "\<not> starts_with p (fst r)" if "r \<in> set (rows (pos u))" for r
    using that starts_with_ge by (meson leD)
  with none show ?thesis by (simp add: cursor_erase_prefix_def filter_empty_conv filter_id_conv)
next
  case (some pre y post u')
  with prefix_rows [of pre "y # post" p] erase_prefix_from [of u' "rev pre" y post p 0] assms show ?thesis
    by (simp add: cursor_erase_prefix_def del: walk_step takeWhile.simps dropWhile.simps)
qed

lemma strict_lower_bound_cases:
  assumes "sorted_rows (rows (pos u))"
  obtains (none) u' where "strict_lower_bound C key u = (None, u')" "rows (pos u') = rows (pos u)"
      "\<And>r. r \<in> set (rows (pos u)) \<Longrightarrow> key \<le> fst r"
    | (some) pre y post u' where "strict_lower_bound C key u = (Some y, u')" "pos u' = (rev pre, On y, post)"
      "rows (pos u) = pre @ y # post" "\<And>r. r \<in> set (pre @ [y]) \<Longrightarrow> fst r < key" "\<And>r. r \<in> set post \<Longrightarrow> key \<le> fst r"
  using assms
proof (cases rule: lower_bound_cases [where key = key])
  case lb: (none u1)
  show ?thesis
  proof (cases "rows (pos u)" rule: rev_cases)
    case Nil
    with lb last_none [of u1] show ?thesis
      by (intro none [of "snd (c_to_last C u1)"]) (auto simp: strict_lower_bound_def intro: prod_eqI)
  next
    case (snoc r x)
    with lb last_law [of u1 r x] show ?thesis
      by (intro some [of x "snd (c_to_last C u1)" r "[]"]) (auto simp: strict_lower_bound_def intro: prod_eqI)
  qed
next
  case lb: (some pre y post u1)
  show ?thesis
  proof (cases pre rule: rev_cases)
    case Nil
    with lb previous_none [of u1 "On y" post] show ?thesis
      by (intro none [of "snd (c_to_previous C u1)"]) (auto simp: strict_lower_bound_def rows_def intro: prod_eqI)
  next
    case (snoc r x)
    with lb previous_law [of u1 x "rev r" "On y" post] show ?thesis
      by (intro some [of x "snd (c_to_previous C u1)" r "y # post"]) (auto simp: strict_lower_bound_def intro: prod_eqI)
  qed
qed

lemma erase_removes:
  fixes key :: Bytes and d :: CursorMoveDirection
  assumes "sorted_rows (rows (pos u))"
  defines "gone \<equiv> (\<lambda>r :: row. if d = Forward then key \<le> fst r else fst r < key)"
  shows "\<exists>u'. cursor_erase C key d u = Some (length (filter gone (rows (pos u))), u')
    \<and> rows (pos u') = filter (\<lambda>r. \<not> gone r) (rows (pos u))"
proof (cases d)
  case Forward
  show ?thesis using assms(1)
  proof (cases rule: lower_bound_cases [where key = key])
    case (none u')
    have "filter gone (rows (pos u)) = []" "filter (\<lambda>r. \<not> gone r) (rows (pos u)) = rows (pos u)"
      using none(3) Forward by (fastforce simp: gone_def filter_empty_conv filter_id_conv)+
    with none show ?thesis using Forward by (simp add: cursor_erase_def)
  next
    case (some pre y post u')
    have "filter gone pre = []" "filter (\<lambda>r. \<not> gone r) pre = pre" using some(4) Forward
      by (fastforce simp: gone_def filter_empty_conv filter_id_conv)+
    moreover have "gone r" if "r \<in> set (y # post)" for r
      using some(5) [OF that] Forward by (simp add: gone_def)
    then have "filter gone (y # post) = y # post" "filter (\<lambda>r. \<not> gone r) (y # post) = []"
      by (simp_all add: filter_empty_conv filter_id_conv del: filter.simps)
    ultimately show ?thesis using erase_from [of Forward u' "rev pre" y post 0] some Forward
      by (simp add: cursor_erase_def rows_turn del: walk_step filter.simps)
  qed
next
  case Reverse
  show ?thesis using assms(1)
  proof (cases rule: strict_lower_bound_cases [where key = key])
    case (none u')
    have "filter gone (rows (pos u)) = []" "filter (\<lambda>r. \<not> gone r) (rows (pos u)) = rows (pos u)"
      using none(3) Reverse by (fastforce simp: gone_def filter_empty_conv filter_id_conv)+
    with none show ?thesis using Reverse by (simp add: cursor_erase_def)
  next
    case (some pre y post u')
    have "gone r" if "r \<in> set (pre @ [y])" for r
      using some(4) [OF that] Reverse by (simp add: gone_def)
    then have "filter gone (pre @ [y]) = pre @ [y]" "filter (\<lambda>r. \<not> gone r) (pre @ [y]) = []"
      by (simp_all only: filter_empty_conv filter_id_conv) blast+
    moreover have "filter gone post = []" "filter (\<lambda>r. \<not> gone r) post = post"
      using some(5) Reverse by (fastforce simp: gone_def filter_empty_conv filter_id_conv)+
    ultimately show ?thesis using erase_from [of Reverse u' post y "rev pre" 0] some Reverse
      by (auto simp: cursor_erase_def rows_turn simp del: walk_step split: if_splits)
  qed
qed

end

subsection \<open>A cursor over a list\<close>

definition list_first :: "zipper \<Rightarrow> row option \<times> zipper" where
  "list_first z = (case rows z of [] \<Rightarrow> (None, ([], Nowhere, [])) | x # r \<Rightarrow> (Some x, ([], On x, r)))"

definition list_last :: "zipper \<Rightarrow> row option \<times> zipper" where
  "list_last z = (case rev (rows z) of [] \<Rightarrow> (None, ([], Nowhere, [])) | x # l \<Rightarrow> (Some x, (l, On x, [])))"

fun list_next :: "zipper \<Rightarrow> row option \<times> zipper" where
  "list_next (l, Nowhere, r) = list_first (l, Nowhere, r)"
| "list_next (l, h, y # r) = (Some y, (here h @ l, On y, r))"
| "list_next (l, h, []) = (None, (here h @ l, Gap, []))"

fun list_previous :: "zipper \<Rightarrow> row option \<times> zipper" where
  "list_previous (l, Nowhere, r) = list_last (l, Nowhere, r)"
| "list_previous (y # l, h, r) = (Some y, (l, On y, here h @ r))"
| "list_previous ([], h, r) = (None, ([], Nowhere, here h @ r))"

fun list_current :: "zipper \<Rightarrow> row option \<times> zipper" where
  "list_current (l, On x, r) = (Some x, (l, On x, r))"
| "list_current (l, Gap, y # r) = (Some y, (l, On y, r))"
| "list_current z = (None, z)"

definition list_lower_bound :: "Bytes \<Rightarrow> zipper \<Rightarrow> row option \<times> zipper" where
  "list_lower_bound key z =
     (let pre = takeWhile (\<lambda>r. fst r < key) (rows z) in
      case dropWhile (\<lambda>r. fst r < key) (rows z) of
        [] \<Rightarrow> (None, (rev pre, Gap, []))
      | y # post \<Rightarrow> (Some y, (rev pre, On y, post)))"

definition list_cursor :: "zipper Cursor_ops" where
  "list_cursor =
     \<lparr>c_eof = (\<lambda>(l, h, r). h = Nowhere \<or> h = Gap \<and> r = []), c_current = list_current,
      c_to_first = list_first, c_to_last = list_last, c_to_next = list_next,
      c_to_previous = list_previous, c_lower_bound = list_lower_bound,
      c_erase = (\<lambda>(l, h, r). (l, Gap, r))\<rparr>"

lemma here_rev [simp]: "rev (here h) = here h"
  by (cases h) simp_all

interpretation list_cursor: mdbx_cursor list_cursor "\<lambda>z. z"
proof
  show "fst (c_lower_bound list_cursor key u) = Some y \<and> snd (c_lower_bound list_cursor key u) = (rev pre, On y, post)"
    if "rows u = pre @ y # post" "\<And>r. r \<in> set pre \<Longrightarrow> fst r < key" "key \<le> fst y" for u pre y post key
  proof -
    have "takeWhile (\<lambda>r. fst r < key) (pre @ y # post) = pre" "dropWhile (\<lambda>r. fst r < key) (pre @ y # post) = y # post"
      using that(2,3) by (auto simp: leD takeWhile_append dropWhile_append)
    then show ?thesis by (simp add: list_cursor_def list_lower_bound_def that(1))
  qed
  show "fst (c_lower_bound list_cursor key u) = None \<and> rows (snd (c_lower_bound list_cursor key u)) = rows u"
    if "\<And>r. r \<in> set (rows u) \<Longrightarrow> fst r < key" for u key
  proof -
    have "takeWhile (\<lambda>r. fst r < key) (rows u) = rows u" "dropWhile (\<lambda>r. fst r < key) (rows u) = []"
      using that by (simp_all add: takeWhile_eq_all_conv dropWhile_eq_Nil_conv)
    then have "c_lower_bound list_cursor key u = (None, (rev (rows u), Gap, []))"
      unfolding list_cursor_def by (simp only: Cursor_ops.simps list_lower_bound_def Let_def list.case)
    then show ?thesis by (simp add: rows_def)
  qed
next
  show "fst (c_to_next list_cursor u) = Some y \<and> snd (c_to_next list_cursor u) = (here h @ l, On y, r)"
    if "u = (l, h, y # r)" "h \<noteq> Nowhere" for u l h y r
    using that by (cases h) (simp_all add: list_cursor_def)
  show "fst (c_to_next list_cursor u) = None \<and> rows (snd (c_to_next list_cursor u)) = rows u"
    if "u = (l, h, [])" "h \<noteq> Nowhere" for u l h
    using that by (cases h) (simp_all add: list_cursor_def rows_def)
  show "fst (c_to_previous list_cursor u) = Some y \<and> snd (c_to_previous list_cursor u) = (l, On y, here h @ r)"
    if "u = (y # l, h, r)" "h \<noteq> Nowhere" for u l h y r
    using that by (cases h) (simp_all add: list_cursor_def)
  show "fst (c_to_previous list_cursor u) = None \<and> rows (snd (c_to_previous list_cursor u)) = rows u"
    if "u = ([], h, r)" "h \<noteq> Nowhere" for u h r
    using that by (cases h) (simp_all add: list_cursor_def rows_def)
qed (auto simp: list_cursor_def list_first_def list_last_def rows_def)

subsection \<open>Room in a leaf page\<close>

lemma and_not_mask: "and x (not (mask k)) = push_bit k (drop_bit k x)" for x :: "'a::len word"
  by (rule bit_word_eqI) (auto simp: bit_simps)

lemma even_room: "unat (and x (not 1) :: u64) = 2 * (unat x div 2)"
proof -
  have "and x (not 1) = push_bit (Suc 0) (drop_bit (Suc 0) x)" using and_not_mask [of x "Suc 0"] by simp
  moreover have "take_bit 64 (unat x) = unat x" using unsigned_less [where w = x and 'a = nat] by (simp add: take_bit_nat_eq_self)
  then have "unat (push_bit (Suc 0) (drop_bit (Suc 0) x)) = take_bit 64 (2 * (unat x div 2))"
    unfolding unsigned_push_bit_eq unsigned_drop_bit_eq by (simp add: drop_bit_Suc mult.commute)
  moreover have "2 * (unat x div 2) < 2 ^ 64"
    using unsigned_less [where w = x and 'a = nat] times_div_less_eq_dividend [of 2 "unat x"] by simp
  ultimately show ?thesis by (simp add: take_bit_nat_eq_self)
qed

lemma room_ge: "40 \<le> p \<Longrightarrow> 4 \<le> 2 * ((p - 32) div 4)" for p :: nat
  using div_le_mono [of 8 "p - 32" 4] by simp

lemma room_fits: "2 * (2 * (n div 4)) \<le> n \<and> n < 2 * (2 * (n div 4) + 2)" for n :: nat
proof -
  have "q * 4 + r = n \<Longrightarrow> r < 4 \<Longrightarrow> 2 * (2 * q) \<le> n \<and> n < 2 * (2 * q + 2)" for q r by simp
  from this [of "n div 4" "n mod 4"] show ?thesis by simp
qed

lemma leaf_room:
  assumes "40 \<le> unat (page_size :: u64)"
  shows "unat (and ((page_size - 32) div 2) (not 1) - 2 * 2) = 2 * ((unat page_size - 32) div 4) - 4"
proof -
  have p: "unat (page_size - 32) = unat page_size - 32" using assms by (subst unat_sub) (simp_all add: word_le_nat_alt)
  have e: "unat (and ((page_size - 32) div 2) (not 1)) = 2 * ((unat page_size - 32) div 4)"
    unfolding even_room by (simp add: p unat_div div_mult2_eq)
  moreover have "4 \<le> 2 * ((unat page_size - 32) div 4)" using assms by (rule room_ge)
  ultimately show ?thesis by (subst unat_sub) (simp_all add: word_le_nat_alt)
qed

subsection \<open>Properties\<close>

text \<open>
  C31: \<^verbatim>\<open>cursor_for_each\<close> ends and calls the walker once on every record it can reach in the direction, in order. From a record it visits that record and
  what is ahead. After an erase it starts at the record that followed the erased one, also when it walks backwards. On a cursor that is not set, or that is at the
  end of the data (as after erasing the last record), it visits the whole table, backwards for \<open>Reverse\<close>. It returns the number of
  calls and leaves the table unchanged.
\<close>

theorem cursor_for_each_visits:
  assumes "mdbx_cursor C pos"
  shows "\<exists>u'. cursor_for_each C walker direction u w
       = Some (length (to_visit direction (pos u)), u', walk walker (to_visit direction (pos u)) w)
     \<and> rows (pos u') = rows (pos u)"
  by (rule mdbx_cursor.for_each_visits [OF assms])

theorem cursor_for_each_visits_witness:
  "(\<exists>u'. cursor_for_each list_cursor (\<lambda>k v w. w @ [k]) Reverse ([], Nowhere, [([1], []), ([2], [7])]) [] = Some (2, u', [[2], [1]]))
   \<and> (\<exists>u'. cursor_for_each list_cursor (\<lambda>k v w. w @ [k]) Forward (c_erase list_cursor ([([1], [])], On ([2], []), [([3], [])])) [] = Some (1, u', [[3]]))"
  using cursor_for_each_visits [OF list_cursor.mdbx_cursor_axioms, of "\<lambda>k v w. w @ [k]" Reverse
      "([], Nowhere, [([1], []), ([2], [7])])" "[]"]
    cursor_for_each_visits [OF list_cursor.mdbx_cursor_axioms, of "\<lambda>k v w. w @ [k]" Forward
      "c_erase list_cursor ([([1], [])], On ([2], []), [([3], [])])" "[]"]
  by (auto simp: rows_def list_cursor_def)

text \<open>
  \<^verbatim>\<open>cursor_for_count\<close> is the same walk cut off after \<open>count\<close> records; it returns fewer only
  when the table ends first.
\<close>

theorem cursor_for_count_visits:
  assumes "mdbx_cursor C pos"
  shows "\<exists>u'. cursor_for_count C walker count direction u w
       = Some (min count (length (to_visit direction (pos u))), u', walk walker (take count (to_visit direction (pos u))) w)
     \<and> rows (pos u') = rows (pos u)"
  using mdbx_cursor.for_count_visits [OF assms, of walker count direction u w] by (simp add: min.commute)

theorem cursor_for_count_visits_witness:
  "\<exists>u'. cursor_for_count list_cursor (\<lambda>k v w. w @ [k]) 1 Forward ([], On ([1], []), [([2], [7])]) []
     = Some (1, u', [[1]])"
  using cursor_for_count_visits [OF list_cursor.mdbx_cursor_axioms, of "\<lambda>k v w. w @ [k]" 1 Forward
      "([], On ([1], []), [([2], [7])])" "[]"]
  by (auto simp: rows_def)

text \<open>
  C32: \<^verbatim>\<open>cursor_for_prefix\<close> ends. Forward, it visits exactly the records whose key starts with the
  prefix, in key order. In the \<open>Reverse\<close> direction it visits at most one record, the first of them:
  it starts at the lower bound of the prefix, and every earlier key is smaller than the prefix.
\<close>

theorem cursor_for_prefix_visits:
  fixes prefix :: Bytes and direction :: CursorMoveDirection
  assumes "mdbx_cursor C pos" and "sorted_rows (rows (pos u))"
  defines "found \<equiv> filter (\<lambda>r. starts_with prefix (fst r)) (rows (pos u))"
  defines "vs \<equiv> (if direction = Forward then found else take 1 found)"
  shows "\<exists>u'. cursor_for_prefix C prefix walker direction u w = Some (length vs, u', walk walker vs w)
     \<and> rows (pos u') = rows (pos u)"
  unfolding vs_def found_def by (rule mdbx_cursor.for_prefix_visits [OF assms(1,2)])

theorem cursor_for_prefix_visits_witness:
  "(\<exists>u'. cursor_for_prefix list_cursor [5] (\<lambda>k v w. w @ [k]) Forward ([], Nowhere, [([5, 1], []), ([5, 2], [])]) []
      = Some (2, u', [[5, 1], [5, 2]]))
   \<and> (\<exists>u'. cursor_for_prefix list_cursor [5] (\<lambda>k v w. w @ [k]) Reverse ([], Nowhere, [([5, 1], []), ([5, 2], [])]) []
      = Some (1, u', [[5, 1]]))"
  using cursor_for_prefix_visits [OF list_cursor.mdbx_cursor_axioms, of "([], Nowhere, [([5, 1], []), ([5, 2], [])])"
      "[5]" "\<lambda>k v w. w @ [k]" Forward "[]"]
    cursor_for_prefix_visits [OF list_cursor.mdbx_cursor_axioms, of "([], Nowhere, [([5, 1], []), ([5, 2], [])])"
      "[5]" "\<lambda>k v w. w @ [k]" Reverse "[]"]
  by (auto simp: rows_def sorted_rows_def starts_with_def)

text \<open>
  C8: \<^verbatim>\<open>cursor_erase\<close> ends and erases exactly the records with a key greater than or equal to the given
  one (\<open>Forward\<close>), or exactly those with a smaller key (\<open>Reverse\<close>), wherever the cursor was;
  it returns how many it erased.
\<close>

theorem cursor_erase_removes:
  fixes set_key :: Bytes and direction :: CursorMoveDirection
  assumes "mdbx_cursor C pos" and "sorted_rows (rows (pos u))"
  defines "gone \<equiv> (\<lambda>r :: row. if direction = Forward then set_key \<le> fst r else fst r < set_key)"
  shows "\<exists>u'. cursor_erase C set_key direction u = Some (length (filter gone (rows (pos u))), u')
    \<and> rows (pos u') = filter (\<lambda>r. \<not> gone r) (rows (pos u))"
  unfolding gone_def by (rule mdbx_cursor.erase_removes [OF assms(1,2)])

theorem cursor_erase_removes_witness:
  "\<exists>u'. cursor_erase list_cursor [2] Forward ([], Nowhere, [([1], []), ([2], []), ([3], [])]) = Some (2, u')
     \<and> rows u' = [([1], [])]"
  using cursor_erase_removes [OF list_cursor.mdbx_cursor_axioms, of "([], Nowhere, [([1], []), ([2], []), ([3], [])])"
      "[2]" Forward]
  by (auto simp: rows_def sorted_rows_def)

text \<open>
  C33: \<^verbatim>\<open>cursor_erase_prefix\<close> ends, erases exactly the records whose key starts with the prefix and
  returns their number.
\<close>

theorem cursor_erase_prefix_removes:
  assumes "mdbx_cursor C pos" and "sorted_rows (rows (pos u))"
  shows "\<exists>u'. cursor_erase_prefix C prefix u
       = Some (length (filter (\<lambda>r. starts_with prefix (fst r)) (rows (pos u))), u')
     \<and> rows (pos u') = filter (\<lambda>r. \<not> starts_with prefix (fst r)) (rows (pos u))"
  by (rule mdbx_cursor.erase_prefix_removes [OF assms])

theorem cursor_erase_prefix_removes_witness:
  "\<exists>u'. cursor_erase_prefix list_cursor [2] ([], Nowhere, [([1], []), ([2, 9], []), ([3], [])]) = Some (1, u')
     \<and> rows u' = [([1], []), ([3], [])]"
  using cursor_erase_prefix_removes [OF list_cursor.mdbx_cursor_axioms, of
      "([], Nowhere, [([1], []), ([2, 9], []), ([3], [])])" "[2]"]
  by (auto simp: rows_def sorted_rows_def starts_with_def)

text \<open>
  C27: The computed size is the largest even room that lets two records of that key size share a page, header and size fields
  included: two of them fit and with two more bytes each they do not. For a key larger than that room the subtraction wraps around to a huge value.
\<close>

theorem leaf_page_value_bounds:
  assumes "40 \<le> unat page_size" and "v = unat (max_value_size_for_leaf_page page_size key_size)"
    and "room = 2 * ((unat page_size - 32) div 4)"
  shows "(unat key_size + 4 \<le> room \<longrightarrow> v + unat key_size + 4 = room \<and> 2 * room \<le> unat page_size - 32 \<and> unat page_size - 32 < 2 * (room + 2))
    \<and> (room < unat key_size + 4 \<longrightarrow> v = 2 ^ 64 - (unat key_size + 4 - room))"
proof -
  let ?w = "and ((page_size - 32) div 2) (not 1) - 2 * 2 :: u64"
  have w: "unat ?w = room - 4" using leaf_room [OF assms(1)] assms(3) by simp
  have v: "v = unat (?w - key_size)" using assms(2) by (simp add: max_value_size_for_leaf_page_def Let_def)
  have r: "4 \<le> room" unfolding assms(3) using assms(1) by (rule room_ge)
  have "unat key_size + 4 \<le> room \<Longrightarrow> v + unat key_size + 4 = room"
    using r w v by (subst (asm) (2) unat_sub) (simp_all add: word_le_nat_alt)
  moreover have "room < unat key_size + 4 \<Longrightarrow> v = 2 ^ 64 - (unat key_size + 4 - room)"
    using r w v by (simp add: unat_sub_if')
  moreover have "2 * room \<le> unat page_size - 32 \<and> unat page_size - 32 < 2 * (room + 2)" unfolding assms(3) by (rule room_fits)
  ultimately show ?thesis by blast
qed

theorem leaf_page_value_bounds_witness:
  "unat (max_value_size_for_leaf_page 4096 28) + 28 + 4 = 2 * ((4096 - 32) div 4)"
  using leaf_page_value_bounds [of 4096 _ 28, OF _ refl refl] by simp

lemma leaf_page_examples:
  "max_value_size_for_leaf_page 4096 28 = 2000" "max_value_size_for_leaf_page 4096 60 = 1968"
  by (simp_all add: max_value_size_for_leaf_page_def)

end
