(* ===== verification/Db_Layer.thy ===== *)
theory Db_Layer
  imports Endian Decimal_Text
begin

section \<open>Tables, schema version and stage progress\<close>

text \<open>
  \<^verbatim>\<open>zen/node/database/mdbx_tables.hpp\<close>, \<^verbatim>\<open>access_layer.cpp\<close>, \<^verbatim>\<open>stages.cpp\<close> and \<^verbatim>\<open>zen/node/common/version.hpp\<close>: what the node
  keeps in its database. The transaction is libmdbx's: the functions the code calls on it are the
  record \<open>Txn_ops\<close> over an abstract state \<open>'t\<close>, with \<open>Inl what\<close> an \<^verbatim>\<open>mdbx::exception\<close>. A lookup through a cursor
  (\<^verbatim>\<open>find\<close>, and \<^verbatim>\<open>seek\<close> followed by \<^verbatim>\<open>current\<close>) is \<open>t_find\<close>; a \<^verbatim>\<open>Cursor\<close> on a table first opens the table
  (\<open>open_map\<close>), which creates it in a read-write transaction. Enumerators of libmdbx are given by name.

  The locale \<open>mdbx_txn\<close> states what the documentation promises for a read-write transaction that is
  still usable (\<open>live\<close>: it has not failed, and its environment has room for the three tables of the node and for the few records the node keeps in them). Tables are maps
  from keys to values, and an upsert changes one key of one table. Creating a table is only promised for the tables of the node (the number of tables of an environment is limited),
  an upsert only for keys and values of at most 16 bytes, which are below the limits of every page size.
\<close>

type_synonym BlockNum = u32

subsection \<open>Operations\<close>

record MapConfig =
  map_name :: string
  key_mode :: string
  value_mode :: string

definition table :: "string \<Rightarrow> MapConfig" where
  "table n = \<lparr>map_name = n, key_mode = ''usual'', value_mode = ''single''\<rparr>"

definition kConfig :: MapConfig where "kConfig = table ''Config''"
definition kHeaders :: MapConfig where "kHeaders = table ''Headers''"
definition kSyncStageProgress :: MapConfig where "kSyncStageProgress = table ''Stages''"
definition kDbSchemaVersionKey :: string where "kDbSchemaVersionKey = ''DbSchemaVersion''"

definition kChainDataTables :: "MapConfig list" where
  "kChainDataTables = [kConfig, kHeaders, kSyncStageProgress]"

record 't Txn_ops =
  t_is_readonly :: "'t \<Rightarrow> bool"
  t_seek_main :: "string \<Rightarrow> 't \<Rightarrow> string + bool"
  t_open_map :: "MapConfig \<Rightarrow> 't \<Rightarrow> string + 't"
  t_create_map :: "MapConfig \<Rightarrow> 't \<Rightarrow> string + 't"
  t_find :: "string \<Rightarrow> Bytes \<Rightarrow> 't \<Rightarrow> string + Bytes option"
  t_upsert :: "string \<Rightarrow> Bytes \<Rightarrow> Bytes \<Rightarrow> 't \<Rightarrow> string + 't"

definition mdbx_call :: "string + 'a \<Rightarrow> 'a run" where
  "mdbx_call r = (case r of Inl what \<Rightarrow> Throw (Mdbx_exception what) | Inr a \<Rightarrow> Ret a)"

definition to_slice :: "string \<Rightarrow> Bytes" where
  "to_slice value = map of_char value"

definition open_map :: "'t Txn_ops \<Rightarrow> 't \<Rightarrow> MapConfig \<Rightarrow> 't run" where
  "open_map T tx config =
     mdbx_call (if t_is_readonly T tx then t_open_map T config tx else t_create_map T config tx)"

definition has_map :: "'t Txn_ops \<Rightarrow> 't \<Rightarrow> string \<Rightarrow> bool" where
  "has_map T tx name = (case t_seek_main T name tx of Inl what \<Rightarrow> False | Inr found \<Rightarrow> found)"

definition deploy_table :: "'t Txn_ops \<Rightarrow> MapConfig \<Rightarrow> 't \<Rightarrow> 't run" where
  "deploy_table T tab tx =
     (if \<not> has_map T tx (map_name tab) then mdbx_call (t_create_map T tab tx) else Ret tx)"

definition deploy_tables :: "'t Txn_ops \<Rightarrow> 't \<Rightarrow> MapConfig list \<Rightarrow> 't run" where
  "deploy_tables T tx tabs =
     (if t_is_readonly T tx then Throw (Invalid_argument ''Can't deploy tables on RO transaction'')
      else each (deploy_table T) tabs (Ret tx))"

datatype Version = Version (Major: u32) (Minor: u32) (Patch: u32)

definition Version_to_string :: "Version \<Rightarrow> string" where
  "Version_to_string v =
     show_nat (unat (Major v)) @ ''.'' @ show_nat (unat (Minor v)) @ ''.'' @ show_nat (unat (Patch v))"

instantiation Version :: linorder
begin

definition less_eq_Version :: "Version \<Rightarrow> Version \<Rightarrow> bool" where
  "v \<le> w \<longleftrightarrow> Major v < Major w \<or> Major v = Major w \<and>
     (Minor v < Minor w \<or> Minor v = Minor w \<and> Patch v \<le> Patch w)"

definition less_Version :: "Version \<Rightarrow> Version \<Rightarrow> bool" where
  "v < w \<longleftrightarrow> Major v < Major w \<or> Major v = Major w \<and>
     (Minor v < Minor w \<or> Minor v = Minor w \<and> Patch v < Patch w)"

instance
  by standard (auto simp: less_eq_Version_def less_Version_def Version.expand)

end

definition kRequiredSchemaVersion :: Version where
  "kRequiredSchemaVersion = Version 1 0 0"

definition read_schema_version :: "'t Txn_ops \<Rightarrow> Endian_ops \<Rightarrow> 't \<Rightarrow> (Version option \<times> 't) run" where
  "read_schema_version T E txn =
     run_bind (open_map T txn kConfig) (\<lambda>txn.
     run_bind (mdbx_call (t_find T (map_name kConfig) (to_slice kDbSchemaVersionKey) txn)) (\<lambda>data.
       case data of
         None \<Rightarrow> Ret (None, txn)
       | Some v \<Rightarrow>
           ZEN_ASSERT (length v = 12)
             (Ret (Some (Version (load_big_u32 E (take 4 v)) (load_big_u32 E (take 4 (drop 4 v)))
                           (load_big_u32 E (take 4 (drop 8 v)))), txn))))"

text \<open>A comparison of a version with an optional one: \<^verbatim>\<open>std::nullopt\<close> is equal to none and less than all.\<close>

definition eq_opt :: "Version \<Rightarrow> Version option \<Rightarrow> bool" where
  "eq_opt v p = (case p of None \<Rightarrow> False | Some w \<Rightarrow> v = w)"

definition less_opt :: "Version \<Rightarrow> Version option \<Rightarrow> bool" where
  "less_opt v p = (case p of None \<Rightarrow> False | Some w \<Rightarrow> v < w)"

definition write_schema_version :: "'t Txn_ops \<Rightarrow> Endian_ops \<Rightarrow> 't \<Rightarrow> Version \<Rightarrow> 't run" where
  "write_schema_version T E txn version =
     (if t_is_readonly T txn then Ret txn
      else run_bind (read_schema_version T E txn) (\<lambda>(prev_version, txn).
        if eq_opt version prev_version then Ret txn
        else if less_opt version prev_version then Throw (Invalid_argument ''New version LT previous version'')
        else
          let val = store_big_u32 E (Major version) @ store_big_u32 E (Minor version) @ store_big_u32 E (Patch version)
          in run_bind (open_map T txn kConfig) (\<lambda>txn.
             mdbx_call (t_upsert T (map_name kConfig) (to_slice kDbSchemaVersionKey) val txn))))"

subsection \<open>Stage progress\<close>

definition kHeadersKey :: string where "kHeadersKey = ''Headers''"
definition kBlockBodiesKey :: string where "kBlockBodiesKey = ''Bodies''"
definition kExecutionKey :: string where "kExecutionKey = ''Execution''"
definition kFinishKey :: string where "kFinishKey = ''Finish''"
definition kUnwindKey :: string where "kUnwindKey = ''Unwind''"

definition kAllStages :: "string list" where
  "kAllStages = [kHeadersKey, kBlockBodiesKey, kExecutionKey, kFinishKey, kUnwindKey]"

definition is_known_stage :: "string \<Rightarrow> bool" where
  "is_known_stage name \<longleftrightarrow> name \<noteq> [] \<and> list_ex (\<lambda>stage. stage = name) kAllStages"

text \<open>The handler around both functions turns an \<^verbatim>\<open>mdbx::exception\<close> into a \<^verbatim>\<open>std::runtime_error\<close>.\<close>

definition catch_mdbx :: "string \<Rightarrow> 'a run \<Rightarrow> 'a run" where
  "catch_mdbx func m =
     (case m of
        Throw (Mdbx_exception what) \<Rightarrow> Throw (Runtime_error (''Error in '' @ func @ '' '' @ what))
      | r \<Rightarrow> r)"

definition item_key :: "string \<Rightarrow> string option \<Rightarrow> string" where
  "item_key stage_name key_prefix = (case key_prefix of None \<Rightarrow> stage_name | Some p \<Rightarrow> p @ stage_name)"

definition get_stage_data ::
  "'t Txn_ops \<Rightarrow> Endian_ops \<Rightarrow> 't \<Rightarrow> string \<Rightarrow> MapConfig \<Rightarrow> string option \<Rightarrow> (BlockNum \<times> 't) run" where
  "get_stage_data T E txn stage_name domain key_prefix =
     (if \<not> is_known_stage stage_name then Throw (Invalid_argument (''Unknown stage name '' @ stage_name))
      else catch_mdbx ''get_stage_data''
        (run_bind (open_map T txn domain) (\<lambda>txn.
         run_bind (mdbx_call (t_find T (map_name domain) (to_slice (item_key stage_name key_prefix)) txn)) (\<lambda>data.
           case data of
             None \<Rightarrow> Ret (0, txn)
           | Some v \<Rightarrow>
               if length v \<noteq> 4 then Throw (Length_error (''Expected 4 bytes of data got '' @ show_nat (length v)))
               else Ret (load_big_u32 E v, txn)))))"

definition set_stage_data ::
  "'t Txn_ops \<Rightarrow> Endian_ops \<Rightarrow> 't \<Rightarrow> string \<Rightarrow> BlockNum \<Rightarrow> MapConfig \<Rightarrow> string option \<Rightarrow> 't run" where
  "set_stage_data T E txn stage_name block_num domain key_prefix =
     (if \<not> is_known_stage stage_name then Throw (Invalid_argument ''Unknown stage name'')
      else catch_mdbx ''set_stage_data''
        (let stage_progress = store_big_u32 E block_num
         in run_bind (open_map T txn domain) (\<lambda>txn.
            mdbx_call (t_upsert T (map_name domain) (to_slice (item_key stage_name key_prefix)) stage_progress txn))))"

definition read_stage_progress :: "'t Txn_ops \<Rightarrow> Endian_ops \<Rightarrow> 't \<Rightarrow> string \<Rightarrow> (BlockNum \<times> 't) run" where
  "read_stage_progress T E txn stage_name = get_stage_data T E txn stage_name kSyncStageProgress None"

definition read_stage_prune_progress :: "'t Txn_ops \<Rightarrow> Endian_ops \<Rightarrow> 't \<Rightarrow> string \<Rightarrow> (BlockNum \<times> 't) run" where
  "read_stage_prune_progress T E txn stage_name = get_stage_data T E txn stage_name kSyncStageProgress (Some ''prune_'')"

definition write_stage_progress :: "'t Txn_ops \<Rightarrow> Endian_ops \<Rightarrow> 't \<Rightarrow> string \<Rightarrow> BlockNum \<Rightarrow> 't run" where
  "write_stage_progress T E txn stage_name block_num =
     set_stage_data T E txn stage_name block_num kSyncStageProgress None"

definition write_stage_prune_progress :: "'t Txn_ops \<Rightarrow> Endian_ops \<Rightarrow> 't \<Rightarrow> string \<Rightarrow> BlockNum \<Rightarrow> 't run" where
  "write_stage_prune_progress T E txn stage_name block_num =
     set_stage_data T E txn stage_name block_num kSyncStageProgress (Some ''prune_'')"

subsection \<open>The contract of a transaction\<close>

text \<open>What a read of a stage returns, in terms of the table.\<close>

definition stored :: "Endian_ops \<Rightarrow> Bytes option \<Rightarrow> BlockNum run" where
  "stored E data = (case data of None \<Rightarrow> Ret 0
     | Some v \<Rightarrow> if length v \<noteq> 4 then Throw (Length_error (''Expected 4 bytes of data got '' @ show_nat (length v)))
       else Ret (load_big_u32 E v))"

definition schema_read :: "Endian_ops \<Rightarrow> Bytes option \<Rightarrow> 't \<Rightarrow> (Version option \<times> 't) run" where
  "schema_read E data t = (case data of None \<Rightarrow> Ret (None, t)
     | Some v \<Rightarrow> if length v = 12
       then Ret (Some (Version (load_big_u32 E (take 4 v)) (load_big_u32 E (take 4 (drop 4 v)))
                        (load_big_u32 E (take 4 (drop 8 v)))), t)
       else Abort)"

definition schema_bytes :: "Endian_ops \<Rightarrow> Version \<Rightarrow> Bytes" where
  "schema_bytes E v = store_big_u32 E (Major v) @ store_big_u32 E (Minor v) @ store_big_u32 E (Patch v)"

definition set_schema :: "'t Txn_ops \<Rightarrow> Endian_ops \<Rightarrow> 't \<Rightarrow> Version \<Rightarrow> 't run" where
  "set_schema T E txn v =
     run_bind (open_map T txn kConfig) (\<lambda>txn.
     mdbx_call (t_upsert T (map_name kConfig) (to_slice kDbSchemaVersionKey) (schema_bytes E v) txn))"

lemma known_stages:
  "is_known_stage s \<longleftrightarrow> s \<in> {''Headers'', ''Bodies'', ''Execution'', ''Finish'', ''Unwind''}"
  by (auto simp: is_known_stage_def kAllStages_def kHeadersKey_def kBlockBodiesKey_def kExecutionKey_def
      kFinishKey_def kUnwindKey_def)

text \<open>All keys and values of the node are short.\<close>

lemma node_tables [simp]: "kConfig \<in> set kChainDataTables" "kSyncStageProgress \<in> set kChainDataTables"
  by (simp_all add: kChainDataTables_def)

lemma short_keys:
  "is_known_stage s \<Longrightarrow> p \<in> {None, Some ''prune_''} \<Longrightarrow> length (to_slice (item_key s p)) \<le> 16"
  "length (to_slice kDbSchemaVersionKey) \<le> 16"
  by (auto simp: known_stages item_key_def to_slice_def kDbSchemaVersionKey_def)

lemma short_values:
  assumes "intx_endian E"
  shows "length (store_big_u32 E n) \<le> 16" "length (schema_bytes E v) \<le> 16"
  using intx_endian.length_store_big32 [OF assms] by (simp_all add: schema_bytes_def)

locale mdbx_txn =
  fixes T :: "'t Txn_ops" and live :: "'t \<Rightarrow> bool" and view :: "'t \<Rightarrow> string \<Rightarrow> Bytes \<rightharpoonup> Bytes"
    and maps :: "'t \<Rightarrow> string set"
  assumes live_rw: "live t \<Longrightarrow> \<not> t_is_readonly T t"
    and seek_law: "live t \<Longrightarrow> t_seek_main T name t = Inr (name \<in> maps t)"
    and create_law: "live t \<Longrightarrow> c \<in> set kChainDataTables \<Longrightarrow> \<exists>t'. t_create_map T c t = Inr t' \<and> live t' \<and> view t' = view t
      \<and> maps t' = insert (map_name c) (maps t)"
    and find_law: "live t \<Longrightarrow> name \<in> maps t \<Longrightarrow> t_find T name key t = Inr (view t name key)"
    and upsert_law: "live t \<Longrightarrow> name \<in> maps t \<Longrightarrow> length key \<le> 16 \<Longrightarrow> length v \<le> 16 \<Longrightarrow> \<exists>t'. t_upsert T name key v t = Inr t' \<and> live t' \<and> maps t' = maps t
      \<and> view t' = (view t)(name := (view t name)(key \<mapsto> v))"
begin

lemma open_map_live:
  assumes "live t" "c \<in> set kChainDataTables"
  obtains t' where "open_map T t c = Ret t'" "live t'" "view t' = view t" "map_name c \<in> maps t'"
  using live_rw [OF assms(1)] create_law [OF assms] by (auto simp: open_map_def mdbx_call_def)

lemma get_stage_data_live:
  assumes "live t" "is_known_stage s" "c \<in> set kChainDataTables"
  shows "map_ret fst (get_stage_data T E t s c p) = stored E (view t (map_name c) (to_slice (item_key s p)))"
proof -
  obtain t' where "open_map T t c = Ret t'" "live t'" "view t' = view t" "map_name c \<in> maps t'"
    by (rule open_map_live [OF assms(1,3)])
  with assms(2) find_law [of t' "map_name c" "to_slice (item_key s p)"] show ?thesis
    by (simp add: get_stage_data_def catch_mdbx_def mdbx_call_def stored_def split: option.split)
qed

lemma set_stage_data_live:
  assumes "live t" "is_known_stage s" "c \<in> set kChainDataTables" "intx_endian E" "p \<in> {None, Some ''prune_''}"
  obtains t' where "set_stage_data T E t s n c p = Ret t'" "live t'"
    "view t' = (view t)(map_name c := (view t (map_name c))(to_slice (item_key s p) \<mapsto> store_big_u32 E n))"
proof -
  obtain t1 where t1: "open_map T t c = Ret t1" "live t1" "view t1 = view t" "map_name c \<in> maps t1"
    by (rule open_map_live [OF assms(1,3)])
  then obtain t2 where "t_upsert T (map_name c) (to_slice (item_key s p)) (store_big_u32 E n) t1 = Inr t2" "live t2"
    "view t2 = (view t1)(map_name c := (view t1 (map_name c))(to_slice (item_key s p) \<mapsto> store_big_u32 E n))"
    using upsert_law [OF t1(2,4) short_keys(1) [OF assms(2,5)] short_values(1) [OF assms(4)]] by blast
  with t1 assms(2) show ?thesis
    by (intro that [of t2]) (simp_all add: set_stage_data_def catch_mdbx_def mdbx_call_def)
qed

lemma read_schema_live:
  assumes "live t"
  obtains t' where "live t'" "view t' = view t" "map_name kConfig \<in> maps t'"
    "read_schema_version T E t = schema_read E (view t (map_name kConfig) (to_slice kDbSchemaVersionKey)) t'"
proof -
  obtain t' where "open_map T t kConfig = Ret t'" "live t'" "view t' = view t" "map_name kConfig \<in> maps t'"
    by (rule open_map_live [OF assms(1) node_tables(1)])
  with find_law [of t' "map_name kConfig" "to_slice kDbSchemaVersionKey"] show ?thesis
    by (intro that [of t']) (simp_all add: read_schema_version_def mdbx_call_def schema_read_def)
qed

lemma set_schema_live:
  assumes "live t" "intx_endian E"
  obtains t' where "live t'" "set_schema T E t v = Ret t'" "map_ret fst (read_schema_version T E t') = Ret (Some v)"
proof -
  let ?val = "schema_bytes E v"
  obtain t1 where t1: "open_map T t kConfig = Ret t1" "live t1" "view t1 = view t" "map_name kConfig \<in> maps t1"
    by (rule open_map_live [OF assms(1) node_tables(1)])
  then obtain t2 where t2: "t_upsert T (map_name kConfig) (to_slice kDbSchemaVersionKey) ?val t1 = Inr t2" "live t2"
    "view t2 = (view t1)(map_name kConfig := (view t1 (map_name kConfig))(to_slice kDbSchemaVersionKey \<mapsto> ?val))"
    using upsert_law [OF t1(2,4) short_keys(2) short_values(2) [OF assms(2)]] by blast
  obtain t3 where "read_schema_version T E t2
      = schema_read E (view t2 (map_name kConfig) (to_slice kDbSchemaVersionKey)) t3"
    by (rule read_schema_live [OF t2(2)])
  with t1 t2 assms(2) show ?thesis
    by (intro that [of t2])
      (simp_all add: set_schema_def mdbx_call_def schema_read_def schema_bytes_def
        intx_endian.length_store_big32 intx_endian.load_store_big32)
qed

lemma read_schema_value:
  assumes "live t"
  shows "map_ret fst (read_schema_version T E t)
    = map_ret fst (schema_read E (view t (map_name kConfig) (to_slice kDbSchemaVersionKey)) ())"
proof -
  obtain t' where "read_schema_version T E t = schema_read E (view t (map_name kConfig) (to_slice kDbSchemaVersionKey)) t'"
    by (rule read_schema_live [OF assms])
  then show ?thesis by (simp add: schema_read_def split: option.split)
qed

lemma open_map_maps:
  assumes "live t" "open_map T t c = Ret t'" "c \<in> set kChainDataTables"
  shows "live t' \<and> view t' = view t \<and> maps t' = insert (map_name c) (maps t)"
proof -
  obtain t1 where t1: "t_create_map T c t = Inr t1" "live t1 \<and> view t1 = view t \<and> maps t1 = insert (map_name c) (maps t)"
    using create_law [OF assms(1,3)] by blast
  then have "t' = t1" using assms(2) live_rw [OF assms(1)] by (simp add: open_map_def mdbx_call_def)
  with t1(2) show ?thesis by simp
qed

text \<open>The first schema version of a database, and the same version once more.\<close>

lemma write_schema_first:
  assumes "live t" "intx_endian E" "view t (map_name kConfig) (to_slice kDbSchemaVersionKey) = None"
  obtains t' where "write_schema_version T E t v = Ret t'" "live t'" "maps t \<subseteq> maps t'"
    "view t' = (view t)(map_name kConfig := (view t (map_name kConfig))(to_slice kDbSchemaVersionKey \<mapsto> schema_bytes E v))"
proof -
  obtain t1 where t1: "open_map T t kConfig = Ret t1" using open_map_live [OF assms(1) node_tables(1)] by metis
  from open_map_maps [OF assms(1) t1] have m1: "live t1" "view t1 = view t" "maps t1 = insert (map_name kConfig) (maps t)" by simp_all
  obtain t2 where t2: "open_map T t1 kConfig = Ret t2" using open_map_live [OF m1(1) node_tables(1)] by metis
  from open_map_maps [OF m1(1) t2] have m2: "live t2" "view t2 = view t1" "maps t2 = insert (map_name kConfig) (maps t1)" by simp_all
  obtain t3 where t3: "t_upsert T (map_name kConfig) (to_slice kDbSchemaVersionKey) (schema_bytes E v) t2 = Inr t3" "live t3"
    "maps t3 = maps t2" "view t3 = (view t2)(map_name kConfig := (view t2 (map_name kConfig))(to_slice kDbSchemaVersionKey \<mapsto> schema_bytes E v))"
    using upsert_law [OF m2(1) _ short_keys(2) short_values(2) [OF assms(2)], of "map_name kConfig"] m2(3) by blast
  have "t_find T (map_name kConfig) (to_slice kDbSchemaVersionKey) t1 = Inr None"
    using find_law [OF m1(1), of "map_name kConfig" "to_slice kDbSchemaVersionKey"] m1 assms(3) by simp
  then have "write_schema_version T E t v = Ret t3"
    using live_rw [OF assms(1)] t1 t2 t3(1)
    by (simp add: write_schema_version_def read_schema_version_def mdbx_call_def eq_opt_def less_opt_def schema_bytes_def
        del: run_bind_Ret_iff)
  with t3 m1 m2 show ?thesis by (intro that [of t3]) auto
qed

lemma write_schema_again:
  assumes "live t" "intx_endian E" "view t (map_name kConfig) (to_slice kDbSchemaVersionKey) = Some (schema_bytes E v)"
  obtains t' where "write_schema_version T E t v = Ret t'" "live t'" "view t' = view t"
proof -
  obtain t1 where t1: "live t1" "view t1 = view t"
    "read_schema_version T E t = schema_read E (Some (schema_bytes E v)) t1"
    using read_schema_live [OF assms(1), of E] assms(3) by metis
  then have "read_schema_version T E t = Ret (Some v, t1)"
    using assms(2) by (simp add: schema_read_def schema_bytes_def intx_endian.length_store_big32 intx_endian.load_store_big32)
  then have "write_schema_version T E t v = Ret t1"
    using live_rw [OF assms(1)] by (simp add: write_schema_version_def eq_opt_def del: run_bind_Ret_iff)
  with t1 show ?thesis by (intro that [of t1])
qed

lemma deploy_table_live:
  assumes "live t" "c \<in> set kChainDataTables"
  obtains t' where "deploy_table T c t = Ret t'" "live t'" "view t' = view t" "maps t' = insert (map_name c) (maps t)"
proof (cases "map_name c \<in> maps t")
  case True
  with seek_law [OF assms(1), of "map_name c"] assms show ?thesis
    by (intro that [of t]) (auto simp: deploy_table_def has_map_def)
next
  case False
  with create_law [OF assms] seek_law [OF assms(1), of "map_name c"] that show ?thesis
    by (auto simp: deploy_table_def has_map_def mdbx_call_def)
qed

lemma deploy_each:
  "live t \<Longrightarrow> set cs \<subseteq> set kChainDataTables \<Longrightarrow> \<exists>t'. each (deploy_table T) cs (Ret t) = Ret t' \<and> live t' \<and> view t' = view t
     \<and> maps t' = map_name ` set cs \<union> maps t"
proof (induction cs arbitrary: t)
  case (Cons c cs)
  obtain t1 where "deploy_table T c t = Ret t1" "live t1" "view t1 = view t" "maps t1 = insert (map_name c) (maps t)"
    using deploy_table_live [OF Cons.prems(1), of c] Cons.prems(2) by auto
  with Cons.IH [of t1] Cons.prems(2) show ?case by auto
qed simp

end

subsection \<open>A transaction over finite tables\<close>

type_synonym ref_txn = "string set \<times> (string \<Rightarrow> Bytes \<rightharpoonup> Bytes)"

definition ref_ops :: "ref_txn Txn_ops" where
  "ref_ops =
     \<lparr>t_is_readonly = (\<lambda>t. False), t_seek_main = (\<lambda>name (ms, db). Inr (name \<in> ms)),
      t_open_map = (\<lambda>c (ms, db). if map_name c \<in> ms then Inr (ms, db) else Inl ''MDBX_NOTFOUND''),
      t_create_map = (\<lambda>c (ms, db). Inr (insert (map_name c) ms, db)),
      t_find = (\<lambda>name key (ms, db). Inr (db name key)),
      t_upsert = (\<lambda>name key v (ms, db). Inr (ms, db(name := (db name)(key \<mapsto> v))))\<rparr>"

interpretation ref_txn: mdbx_txn ref_ops "\<lambda>t. True" snd fst
  by unfold_locales (auto simp: ref_ops_def)

lemma to_slice_inject [simp]: "to_slice a = to_slice b \<longleftrightarrow> a = b"
proof -
  have "c = d" if "of_char c = (of_char d :: byte)" for c d
  proof -
    have "of_nat (of_char c) = (of_nat (of_char d) :: byte)" using that by (simp add: of_nat_of_char)
    then have "unat (of_nat (of_char c) :: byte) = unat (of_nat (of_char d) :: byte)" by simp
    then have "of_char c = (of_char d :: nat)"
      using nat_of_char_less_256 [of c] nat_of_char_less_256 [of d] by (simp add: unat_of_nat)
    then show ?thesis by simp
  qed
  then have "inj (of_char :: char \<Rightarrow> byte)" by (simp add: inj_def)
  then show ?thesis by (simp add: to_slice_def inj_map_eq_map)
qed

lemma known_hd: "is_known_stage s \<Longrightarrow> hd s \<noteq> CHR ''p''"
  by (auto simp: known_stages)

lemma item_key_inject:
  assumes "is_known_stage s" "is_known_stage s'" "p \<in> {None, Some ''prune_''}" "p' \<in> {None, Some ''prune_''}"
  shows "item_key s p = item_key s' p' \<longleftrightarrow> s = s' \<and> p = p'"
  using assms(3,4) known_hd [OF assms(1)] known_hd [OF assms(2)] by (auto simp: item_key_def)

subsection \<open>Properties\<close>

text \<open>
  C29: After \<^verbatim>\<open>write_stage_progress\<close> succeeds (it does on a usable transaction for every known stage),
  \<^verbatim>\<open>read_stage_progress\<close> of that stage returns the written block number, every other stage reads as before, and
  the prune progress of every stage reads as before.
\<close>

theorem stage_progress_read_after_write:
  assumes "mdbx_txn T live view maps" and "intx_endian E" and "live t" and "is_known_stage s"
  shows "\<exists>t'. write_stage_progress T E t s n = Ret t' \<and> live t'
    \<and> map_ret fst (read_stage_progress T E t' s) = Ret n
    \<and> (\<forall>s2. is_known_stage s2 \<longrightarrow> s2 \<noteq> s \<longrightarrow>
          map_ret fst (read_stage_progress T E t' s2) = map_ret fst (read_stage_progress T E t s2))
    \<and> (\<forall>s2. is_known_stage s2 \<longrightarrow>
          map_ret fst (read_stage_prune_progress T E t' s2) = map_ret fst (read_stage_prune_progress T E t s2))"
proof -
  note get = mdbx_txn.get_stage_data_live [OF assms(1)]
  obtain t' where t': "set_stage_data T E t s n kSyncStageProgress None = Ret t'" "live t'"
    "view t' = (view t)(map_name kSyncStageProgress :=
       (view t (map_name kSyncStageProgress))(to_slice (item_key s None) \<mapsto> store_big_u32 E n))"
    by (rule mdbx_txn.set_stage_data_live [OF assms(1,3,4) node_tables(2) assms(2) insertI1])
  have new: "map_ret fst (get_stage_data T E t' s kSyncStageProgress None) = Ret n"
    using assms(2) get [OF t'(2) assms(4) node_tables(2)]
    by (simp add: t'(3) stored_def intx_endian.length_store_big32 intx_endian.load_store_big32 del: map_ret_Ret_iff)
  have old: "map_ret fst (get_stage_data T E t' s2 kSyncStageProgress p)
      = map_ret fst (get_stage_data T E t s2 kSyncStageProgress p)"
    if "is_known_stage s2" "p \<in> {None, Some ''prune_''}" "(s2, p) \<noteq> (s, None)" for s2 p
    using item_key_inject [OF that(1) assms(4) that(2), of None] that(3)
    by (auto simp: get [OF t'(2) that(1) node_tables(2)] get [OF assms(3) that(1) node_tables(2)] t'(3))
  show ?thesis
    by (rule exI [of _ t'])
      (use t'(1,2) new old in \<open>simp add: write_stage_progress_def read_stage_progress_def read_stage_prune_progress_def
          del: map_ret_Ret_iff\<close>)
qed

theorem stage_progress_read_after_write_witness:
  "\<exists>t'. write_stage_progress ref_ops reference_endian ({}, \<lambda>_ _. None) ''Bodies'' 77 = Ret t'
     \<and> map_ret fst (read_stage_progress ref_ops reference_endian t' ''Bodies'') = Ret 77"
  using stage_progress_read_after_write [OF ref_txn.mdbx_txn_axioms ref_endian.intx_endian_axioms,
      where t = "({}, \<lambda>_ _. None)" and s = "''Bodies''" and n = 77]
  by (auto simp: known_stages)

text \<open>
  C30: \<^verbatim>\<open>write_schema_version\<close> never lowers the stored version. On a usable transaction whose stored
  version reads as \<open>prev\<close>, a smaller version throws; otherwise the call succeeds and the version read
  afterwards is the given one, and with no stored version every version is accepted.
\<close>

theorem schema_version_monotone:
  assumes "mdbx_txn T live view maps" and "intx_endian E" and "live t"
    and "read_schema_version T E t = Ret (prev, t0)"
  shows "if less_opt version prev
    then write_schema_version T E t version = Throw (Invalid_argument ''New version LT previous version'')
    else \<exists>t'. write_schema_version T E t version = Ret t' \<and> live t'
      \<and> map_ret fst (read_schema_version T E t') = Ret (Some version)"
proof -
  obtain t1 where t1: "live t1" "view t1 = view t" "map_name kConfig \<in> maps t1"
    and rd: "read_schema_version T E t = schema_read E (view t (map_name kConfig) (to_slice kDbSchemaVersionKey)) t1"
    by (rule mdbx_txn.read_schema_live [OF assms(1,3)])
  have t0: "t0 = t1" using rd assms(4) by (auto simp: schema_read_def split: option.splits if_splits)
  note w = write_schema_version_def mdbx_txn.live_rw [OF assms(1,3)] assms(4) t0
  consider "less_opt version prev" | "prev = Some version" | "\<not> less_opt version prev" "prev \<noteq> Some version" by blast
  then show ?thesis
  proof cases
    case 1
    then have "\<not> eq_opt version prev" by (auto simp: less_opt_def eq_opt_def split: option.splits)
    with 1 show ?thesis by (simp add: w)
  next
    case 2
    obtain t2 where "read_schema_version T E t1 = schema_read E (view t1 (map_name kConfig) (to_slice kDbSchemaVersionKey)) t2"
      by (rule mdbx_txn.read_schema_live [OF assms(1) t1(1)])
    with 2 t1 rd assms(4) show ?thesis
      by (auto simp: w less_opt_def eq_opt_def schema_read_def split: option.splits if_splits)
  next
    case 3
    then have "\<not> eq_opt version prev" by (auto simp: eq_opt_def split: option.splits)
    moreover obtain t3 where "live t3" "set_schema T E t1 version = Ret t3"
      "map_ret fst (read_schema_version T E t3) = Ret (Some version)"
      by (rule mdbx_txn.set_schema_live [OF assms(1) t1(1) assms(2)])
    ultimately show ?thesis using 3
      by (auto simp: w set_schema_def schema_bytes_def simp del: run_bind_Ret_iff map_ret_Ret_iff intro!: exI [of _ t3])
  qed
qed

theorem schema_version_monotone_witness:
  "\<exists>t'. write_schema_version ref_ops reference_endian ({}, \<lambda>_ _. None) kRequiredSchemaVersion = Ret t'
     \<and> map_ret fst (read_schema_version ref_ops reference_endian t') = Ret (Some kRequiredSchemaVersion)"
  using schema_version_monotone [OF ref_txn.mdbx_txn_axioms ref_endian.intx_endian_axioms,
      where t = "({}, \<lambda>_ _. None)" and prev = None and ?t0.0 = "({''Config''}, \<lambda>_ _. None)"
        and version = kRequiredSchemaVersion]
  by (auto simp: read_schema_version_def open_map_def mdbx_call_def ref_ops_def kConfig_def table_def less_opt_def)

text \<open>
  \<^verbatim>\<open>deploy_tables\<close> throws on a read-only transaction; on a usable read-write one it succeeds, every table
  of the list exists afterwards (some or all of \<^verbatim>\<open>kChainDataTables\<close>), tables that existed
  still do, and no record changes.
\<close>

theorem deploy_tables_complete:
  assumes "mdbx_txn T live view maps" and "live t" and "set tabs \<subseteq> set kChainDataTables"
  shows "\<exists>t'. deploy_tables T t tabs = Ret t' \<and> live t' \<and> view t' = view t
    \<and> (\<forall>name. has_map T t' name \<longleftrightarrow> name \<in> map_name ` set tabs \<or> has_map T t name)"
  using mdbx_txn.deploy_each [OF assms] mdbx_txn.live_rw [OF assms(1,2)] mdbx_txn.seek_law [OF assms(1)] assms(2)
  by (fastforce simp: deploy_tables_def has_map_def)

theorem deploy_tables_complete_witness:
  "\<exists>t'. deploy_tables ref_ops ({}, \<lambda>_ _. None) kChainDataTables = Ret t' \<and> has_map ref_ops t' ''Stages''
     \<and> \<not> has_map ref_ops t' ''Blocks''"
proof -
  have "\<not> has_map ref_ops ({}, \<lambda>_ _. None) ''Blocks''" by (simp add: has_map_def ref_ops_def)
  then show ?thesis
    using deploy_tables_complete [OF ref_txn.mdbx_txn_axioms, of kChainDataTables "({}, \<lambda>_ _. None)"]
    by (auto simp: kChainDataTables_def kConfig_def kHeaders_def kSyncStageProgress_def table_def)
qed

text \<open>
  The error paths of a stage read, whatever the transaction does: an unknown stage name throws
  \<^verbatim>\<open>std::invalid_argument\<close> without touching the database, and an exception of libmdbx comes out as a
  \<^verbatim>\<open>std::runtime_error\<close> that carries its text; no \<^verbatim>\<open>mdbx::exception\<close> leaves these functions.
\<close>

theorem stage_errors:
  "(\<not> is_known_stage s \<longrightarrow> get_stage_data T E t s c p = Throw (Invalid_argument (''Unknown stage name '' @ s))
      \<and> set_stage_data T E t s n c p = Throw (Invalid_argument ''Unknown stage name''))
   \<and> (is_known_stage s \<and> open_map T t c = Throw (Mdbx_exception what) \<longrightarrow>
      get_stage_data T E t s c p = Throw (Runtime_error (''Error in get_stage_data '' @ what)) \<and>
      set_stage_data T E t s n c p = Throw (Runtime_error (''Error in set_stage_data '' @ what)))
   \<and> get_stage_data T E t s c p \<noteq> Throw (Mdbx_exception what)
   \<and> set_stage_data T E t s n c p \<noteq> Throw (Mdbx_exception what)"
  by (auto simp: get_stage_data_def set_stage_data_def catch_mdbx_def Let_def split: run.splits cpp_exception.splits)

theorem stage_errors_witness:
  "get_stage_data ref_ops reference_endian ({}, \<lambda>_ _. None) ''Senders'' kSyncStageProgress None
     = Throw (Invalid_argument ''Unknown stage name Senders'')"
  using stage_errors [of "''Senders''" ref_ops reference_endian "({}, \<lambda>_ _. None)" kSyncStageProgress None]
  by (simp add: known_stages)

end
