(* ===== verification/Db_Env.thy ===== *)
theory Db_Env
  imports Db_Layer Db_Cursor
begin

section \<open>Transactions\<close>

text \<open>
  From \<^verbatim>\<open>zen/node/database/mdbx.cpp\<close> and \<^verbatim>\<open>mdbx.hpp\<close>: the transaction holders \<^verbatim>\<open>ROTxn\<close>/\<^verbatim>\<open>RWTxn\<close>. libmdbx is a parameter, the record
  \<open>Store_ops\<close>; \<open>Inl what\<close> is an \<^verbatim>\<open>mdbx::exception\<close>.
\<close>

subsection \<open>Transaction holders\<close>

text \<open>
  \<open>'s\<close> is the environment: what is stored durably and whether a write transaction is open on it. \<open>'t\<close> is the state of a transaction (the one the functions of
  \<open>Db_Layer\<close> work on); \<open>external\<close> is the transaction someone else owns. A holder without a transaction stands for the null handle, on
  which libmdbx throws. Committing and aborting return an error, if any, and the environment afterwards, and end the transaction in both cases. The operations of a holder
  give the outcome of the call, the holder and the environment, so that what happened before an exception is kept.
\<close>

record ('s, 't) Store_ops =
  start_read :: "'s \<Rightarrow> string + 't"
  start_write :: "'s \<Rightarrow> string + 't \<times> 's"
  txn_commit :: "'t \<Rightarrow> 's \<Rightarrow> string option \<times> 's"
  txn_abort :: "'t \<Rightarrow> 's \<Rightarrow> string option \<times> 's"

record 't Txn_holder =
  external :: "'t option"
  managed :: "'t option"

definition ROTxn_env :: "('s, 't) Store_ops \<Rightarrow> 's \<Rightarrow> 't Txn_holder run" where
  "ROTxn_env S env = run_bind (mdbx_call (start_read S env)) (\<lambda>t. Ret \<lparr>external = None, managed = Some t\<rparr>)"

definition RWTxn_env :: "('s, 't) Store_ops \<Rightarrow> 's \<Rightarrow> ('t Txn_holder \<times> 's) run" where
  "RWTxn_env S env = run_bind (mdbx_call (start_write S env)) (\<lambda>(t, env). Ret (\<lparr>external = None, managed = Some t\<rparr>, env))"

definition Txn_external :: "'t \<Rightarrow> 't Txn_holder" where
  "Txn_external t = \<lparr>external = Some t, managed = None\<rparr>"

definition holder_txn :: "'t Txn_holder \<Rightarrow> 't option" where
  "holder_txn h = (case external h of Some t \<Rightarrow> Some t | None \<Rightarrow> managed h)"

text \<open>Work done through the reference a holder gives out changes the transaction in place.\<close>

definition holder_put :: "'t \<Rightarrow> 't Txn_holder \<Rightarrow> 't Txn_holder" where
  "holder_put t h = (if external h = None then h\<lparr>managed := Some t\<rparr> else h\<lparr>external := Some t\<rparr>)"

definition error_or_ret :: "string option \<Rightarrow> unit run" where
  "error_or_ret r = (case r of None \<Rightarrow> Ret () | Some what \<Rightarrow> Throw (Mdbx_exception what))"

definition holder_abort :: "('s, 't) Store_ops \<Rightarrow> 't Txn_holder \<Rightarrow> 's \<Rightarrow> unit run \<times> 't Txn_holder \<times> 's" where
  "holder_abort S h s =
     (if external h = None then
        case managed h of
          None \<Rightarrow> (Throw (Mdbx_exception ''MDBX_BAD_TXN''), h, s)
        | Some t \<Rightarrow> (case txn_abort S t s of (r, s) \<Rightarrow> (error_or_ret r, h\<lparr>managed := None\<rparr>, s))
      else (Ret (), h, s))"

definition holder_commit :: "('s, 't) Store_ops \<Rightarrow> bool \<Rightarrow> 't Txn_holder \<Rightarrow> 's \<Rightarrow> unit run \<times> 't Txn_holder \<times> 's" where
  "holder_commit S renew h s =
     (if external h = None then
        case managed h of
          None \<Rightarrow> (Throw (Mdbx_exception ''MDBX_BAD_TXN''), h, s)
        | Some t \<Rightarrow>
            (case txn_commit S t s of
               (Some what, s) \<Rightarrow> (Throw (Mdbx_exception what), h\<lparr>managed := None\<rparr>, s)
             | (None, s) \<Rightarrow>
                 if renew then
                   (case start_write S s of
                      Inl what \<Rightarrow> (Throw (Mdbx_exception what), h\<lparr>managed := None\<rparr>, s)
                    | Inr (t, s) \<Rightarrow> (Ret (), h\<lparr>managed := Some t\<rparr>, s))
                 else (Ret (), h\<lparr>managed := None\<rparr>, s))
      else (Ret (), h, s))"

text \<open>
  The move constructor takes the managed transaction over; the pointer to an external one is copied and stays in the source.
\<close>

definition holder_move :: "'t Txn_holder \<Rightarrow> 't Txn_holder \<times> 't Txn_holder" where
  "holder_move source = (\<lparr>external = external source, managed = managed source\<rparr>, source\<lparr>managed := None\<rparr>)"

definition start_ro_tx :: "('s, 't) Store_ops \<Rightarrow> 's \<Rightarrow> 't Txn_holder run" where
  "start_ro_tx S env = ROTxn_env S env"

definition start_rw_tx :: "('s, 't) Store_ops \<Rightarrow> 's \<Rightarrow> ('t Txn_holder \<times> 's) run" where
  "start_rw_tx S env = RWTxn_env S env"

text \<open>\<open>opens\<close> is libmdbx's cursor on a table of the transaction, \<open>page_size_of\<close> the page size of its environment.\<close>

definition open_cursor :: "'t Txn_ops \<Rightarrow> (string \<Rightarrow> 't \<Rightarrow> string + 'u) \<Rightarrow> 't \<Rightarrow> MapConfig \<Rightarrow> ('u \<times> 't) run" where
  "open_cursor T opens tx config =
     run_bind (open_map T tx config) (\<lambda>tx. map_ret (\<lambda>u. (u, tx)) (mdbx_call (opens (map_name config) tx)))"

definition max_value_size_for_leaf_page_txn :: "('t \<Rightarrow> u64) \<Rightarrow> 't \<Rightarrow> u64 \<Rightarrow> u64" where
  "max_value_size_for_leaf_page_txn page_size_of txn key_size = max_value_size_for_leaf_page (page_size_of txn) key_size"

subsection \<open>The contract of the storage\<close>

text \<open>
  A write transaction begins with what is stored, a commit stores what the transaction shows and an abort nothing. There is one write transaction at a time: while it is
  open (\<open>busy\<close>) the thread that has it cannot begin another. \<open>live\<close> includes that the storage takes what the transaction has written.
\<close>

locale mdbx_store = mdbx_txn T live view maps
  for T :: "'t Txn_ops" and live view maps +
  fixes S :: "('s, 't) Store_ops" and durable :: "'s \<Rightarrow> string \<Rightarrow> Bytes \<rightharpoonup> Bytes" and busy :: "'s \<Rightarrow> bool"
  assumes start_write_law: "\<not> busy s \<Longrightarrow> \<exists>t s'. start_write S s = Inr (t, s') \<and> live t \<and> view t = durable s \<and> durable s' = durable s \<and> busy s'"
    and start_write_busy: "busy s \<Longrightarrow> \<exists>what. start_write S s = Inl what"
    and commit_law: "live t \<Longrightarrow> busy s \<Longrightarrow> \<exists>s'. txn_commit S t s = (None, s') \<and> durable s' = view t \<and> \<not> busy s'"
    and abort_law: "live t \<Longrightarrow> busy s \<Longrightarrow> \<exists>s'. txn_abort S t s = (None, s') \<and> durable s' = durable s \<and> \<not> busy s'"
begin

lemma new_holder:
  assumes "\<not> busy s"
  obtains h t s' where "RWTxn_env S s = Ret (h, s')" "external h = None" "holder_txn h = Some t" "live t" "view t = durable s"
    "durable s' = durable s" "busy s'"
  using start_write_law [OF assms] by (auto simp: RWTxn_env_def mdbx_call_def holder_txn_def)

lemma second_writer_refused: "busy s \<Longrightarrow> \<exists>what. RWTxn_env S s = Throw (Mdbx_exception what)"
  using start_write_busy [of s] by (auto simp: RWTxn_env_def mdbx_call_def)

lemma commit_managed:
  assumes "external h = None" "holder_txn h = Some t" "live t" "busy s"
  shows "\<exists>h' s'. holder_commit S renew h s = (Ret (), h', s') \<and> durable s' = view t \<and> external h' = None \<and> busy s' = renew
    \<and> (if renew then \<exists>t'. holder_txn h' = Some t' \<and> live t' \<and> view t' = view t else holder_txn h' = None)"
proof -
  have m: "managed h = Some t" using assms by (simp add: holder_txn_def)
  obtain s' where s': "txn_commit S t s = (None, s')" "durable s' = view t" "\<not> busy s'" using commit_law [OF assms(3,4)] by blast
  obtain t' s'' where t': "start_write S s' = Inr (t', s'')" "live t'" "view t' = durable s'" "durable s'' = durable s'" "busy s''"
    using start_write_law [OF s'(3)] by blast
  show ?thesis using assms(1) m s' t' by (cases renew) (auto simp: holder_commit_def holder_txn_def)
qed

lemma abort_managed:
  assumes "external h = None" "holder_txn h = Some t" "live t" "busy s"
  shows "\<exists>h' s'. holder_abort S h s = (Ret (), h', s') \<and> durable s' = durable s \<and> \<not> busy s' \<and> holder_txn h' = None"
  using assms abort_law [OF assms(3,4)] by (auto simp: holder_abort_def error_or_ret_def holder_txn_def)

end

text \<open>A store whose transactions are copies of the tables.\<close>

definition ref_store :: "(ref_txn \<times> bool, ref_txn) Store_ops" where
  "ref_store =
     \<lparr>start_read = (\<lambda>(d, b). Inr d), start_write = (\<lambda>(d, b). if b then Inl ''MDBX_BUSY'' else Inr (d, (d, True))),
      txn_commit = (\<lambda>t s. (None, (t, False))), txn_abort = (\<lambda>t (d, b). (None, (d, False)))\<rparr>"

interpretation ref_store: mdbx_store ref_ops "\<lambda>t. True" snd fst ref_store "\<lambda>s. snd (fst s)" snd
  by unfold_locales (auto simp: ref_store_def)

text \<open>
  Moving a holder moves the work: the new holder has the transaction, and committing or aborting through the emptied one throws
  and stores nothing, unless the transaction is external, which both still reach.
\<close>

lemma holder_move_transfers:
  assumes "holder_move h = (new, old)"
  shows "holder_txn new = holder_txn h"
    and "external h = None \<Longrightarrow> holder_txn old = None \<and> (\<exists>e. holder_commit S renew old s = (Throw e, old, s)) \<and> (\<exists>e. holder_abort S old s = (Throw e, old, s))"
    and "external h \<noteq> None \<Longrightarrow> holder_txn old = holder_txn h \<and> holder_commit S renew old s = (Ret (), old, s)"
  using assms by (auto simp: holder_move_def holder_txn_def holder_commit_def holder_abort_def split: option.splits)

text \<open>
  A commit that was stored stays stored when the transaction cannot be renewed: the call throws, the holder is left without a transaction and every further commit through it throws.
\<close>

lemma commit_stored_without_renewal:
  assumes "external h = None" "managed h = Some t" "txn_commit S t s = (None, s')" "start_write S s' = Inl what"
  obtains h' where "holder_commit S True h s = (Throw (Mdbx_exception what), h', s')" "holder_txn h' = None"
    "\<exists>e. holder_commit S renew h' s' = (Throw e, h', s')"
  using assms by (intro that [of "h\<lparr>managed := None\<rparr>"]) (simp_all add: holder_commit_def holder_txn_def)

end
