(* ===== verification/Db_Handles.thy ===== *)
theory Db_Handles
  imports Db_Layer Object_Pool
begin

section \<open>Cursor handles\<close>

text \<open>
  The class \<^verbatim>\<open>Cursor\<close> of \<^verbatim>\<open>zen/node/database/mdbx.cpp\<close> and \<^verbatim>\<open>mdbx.hpp\<close> with its pool of handles. libmdbx is a parameter, the records
  \<open>Handle_ops\<close> and \<open>Query_ops\<close>; \<open>Inl what\<close> is an \<^verbatim>\<open>mdbx::exception\<close>. The locale \<open>mdbx_handles\<close> says which handles are open after each
  call. The lemmas follow who owns a handle through everything cursor objects can do.
\<close>

subsection \<open>Operations\<close>

text \<open>
  A \<^verbatim>\<open>Cursor\<close> object is its \<^verbatim>\<open>handle_\<close>, \<open>None\<close> when null. The thread-local pool is an \<open>ObjectPool\<close> of handles; \<open>'c\<close> is the
  state libmdbx keeps of them. An operation returns its outcome together with what it leaves behind, also when it
  throws. \<open>tx\<close> is the number of the transaction and \<open>opens\<close> the outcome of \<^verbatim>\<open>open_map\<close>, which does not touch handles.
\<close>

record ('h, 'c) Handle_ops =
  cursor_create :: "'c \<Rightarrow> 'h \<times> 'c"
  cursor_close :: "'h \<Rightarrow> 'c \<Rightarrow> 'c"
  cursor_txn :: "'h \<Rightarrow> 'c \<Rightarrow> nat option"
  cursor_bind :: "'h \<Rightarrow> nat \<Rightarrow> 'c \<Rightarrow> string option \<times> 'c"

record ('h, 'c) Cursors =
  handles_pool :: "'h ObjectPool"
  mdbx_state :: 'c

definition Cursor_close :: "('h, 'c) Handle_ops \<Rightarrow> 'h option \<Rightarrow> ('h, 'c) Cursors \<Rightarrow> 'h option \<times> ('h, 'c) Cursors" where
  "Cursor_close H handle w =
     (None, case handle of None \<Rightarrow> w | Some h \<Rightarrow> w\<lparr>mdbx_state := cursor_close H h (mdbx_state w)\<rparr>)"

definition Cursor_create :: "('h, 'c) Handle_ops \<Rightarrow> ('h, 'c) Cursors \<Rightarrow> 'h option \<times> ('h, 'c) Cursors" where
  "Cursor_create H w =
     (case cursor_create H (mdbx_state w) of (h, c) \<Rightarrow> (Some h, w\<lparr>mdbx_state := c\<rparr>))"

definition Cursor_rebind ::
  "('h, 'c) Handle_ops \<Rightarrow> nat \<Rightarrow> 'h option \<Rightarrow> ('h, 'c) Cursors \<Rightarrow> 'h option \<times> ('h, 'c) Cursors" where
  "Cursor_rebind H tx handle w =
     (case handle of
        None \<Rightarrow> (None, w)
      | Some h \<Rightarrow>
          (case cursor_txn H h (mdbx_state w) of
             Some n \<Rightarrow> if tx \<noteq> n then Cursor_create H (snd (Cursor_close H handle w)) else (handle, w)
           | None \<Rightarrow> (handle, w)))"

definition Cursor_bind ::
  "('h, 'c) Handle_ops \<Rightarrow> nat \<Rightarrow> unit run \<Rightarrow> 'h option \<Rightarrow> ('h, 'c) Cursors \<Rightarrow> unit run \<times> 'h option \<times> ('h, 'c) Cursors" where
  "Cursor_bind H tx opens handle w =
     (case handle of
        None \<Rightarrow> (Throw (Runtime_error ''Can't bind a closed cursor''), handle, w)
      | Some _ \<Rightarrow>
          (case Cursor_rebind H tx handle w of
             (Some h, w) \<Rightarrow>
               (case opens of
                  Ret _ \<Rightarrow>
                    (case cursor_bind H h tx (mdbx_state w) of
                       (None, c) \<Rightarrow> (Ret (), Some h, w\<lparr>mdbx_state := c\<rparr>)
                     | (Some what, c) \<Rightarrow> (Throw (Mdbx_exception what), Some h, w\<lparr>mdbx_state := c\<rparr>))
                | failed \<Rightarrow> (failed, Some h, w))
           | (None, w) \<Rightarrow> (Undef, None, w)))"

definition Cursor_acquire :: "('h, 'c) Handle_ops \<Rightarrow> ('h, 'c) Cursors \<Rightarrow> 'h option \<times> ('h, 'c) Cursors" where
  "Cursor_acquire H w =
     (case pool_acquire (handles_pool w) of
        (Some h, p) \<Rightarrow> (Some h, w\<lparr>handles_pool := p\<rparr>)
      | (None, p) \<Rightarrow> Cursor_create H (w\<lparr>handles_pool := p\<rparr>))"

text \<open>When the constructor throws there is no object and its destructor does not run.\<close>

definition Cursor_new ::
  "('h, 'c) Handle_ops \<Rightarrow> nat \<Rightarrow> unit run \<Rightarrow> ('h, 'c) Cursors \<Rightarrow> 'h option run \<times> ('h, 'c) Cursors" where
  "Cursor_new H tx opens w =
     (case Cursor_acquire H w of (handle, w) \<Rightarrow>
      case Cursor_bind H tx opens handle w of (r, handle, w) \<Rightarrow> (map_ret (\<lambda>_. handle) r, w))"

definition Cursor_delete :: "'h option \<Rightarrow> ('h, 'c) Cursors \<Rightarrow> ('h, 'c) Cursors" where
  "Cursor_delete handle w =
     (case handle of None \<Rightarrow> w | Some h \<Rightarrow> w\<lparr>handles_pool := pool_add h (handles_pool w)\<rparr>)"

definition Cursor_move_new :: "'h option \<Rightarrow> 'h option \<times> 'h option" where
  "Cursor_move_new other = (other, None)"

definition Cursor_move_assign :: "'h option \<Rightarrow> 'h option \<Rightarrow> 'h option \<times> 'h option" where
  "Cursor_move_assign this other = (other, this)"

text \<open>
  Questions about the table and the position of a cursor. \<open>'m\<close> is \<^verbatim>\<open>MDBX_stat\<close>. On a closed cursor libmdbx reports
  \<^verbatim>\<open>EINVAL\<close>, which the code also throws itself.
\<close>

record ('h, 'c, 'm) Query_ops =
  q_map_stat :: "'h \<Rightarrow> 'c \<Rightarrow> string + 'm"
  q_ms_entries :: "'m \<Rightarrow> u64"
  q_map_flags :: "'h \<Rightarrow> 'c \<Rightarrow> string + u32"
  q_DUPSORT :: u32
  q_eof :: "'h \<Rightarrow> 'c \<Rightarrow> string + bool"
  q_on_last :: "'h \<Rightarrow> 'c \<Rightarrow> string + bool"

definition on_handle :: "('h \<Rightarrow> 'c \<Rightarrow> string + 'a) \<Rightarrow> 'h option \<Rightarrow> ('h, 'c) Cursors \<Rightarrow> 'a run" where
  "on_handle q handle w =
     (case handle of None \<Rightarrow> Throw (Mdbx_exception ''EINVAL'') | Some h \<Rightarrow> mdbx_call (q h (mdbx_state w)))"

definition Cursor_get_map_stat :: "('h, 'c, 'm) Query_ops \<Rightarrow> 'h option \<Rightarrow> ('h, 'c) Cursors \<Rightarrow> 'm run" where
  "Cursor_get_map_stat Q handle w = on_handle (q_map_stat Q) handle w"

definition Cursor_get_map_flags :: "('h, 'c, 'm) Query_ops \<Rightarrow> 'h option \<Rightarrow> ('h, 'c) Cursors \<Rightarrow> u32 run" where
  "Cursor_get_map_flags Q handle w = on_handle (q_map_flags Q) handle w"

definition Cursor_is_multi_value :: "('h, 'c, 'm) Query_ops \<Rightarrow> 'h option \<Rightarrow> ('h, 'c) Cursors \<Rightarrow> bool run" where
  "Cursor_is_multi_value Q handle w = map_ret (\<lambda>flags. and flags (q_DUPSORT Q) \<noteq> 0) (Cursor_get_map_flags Q handle w)"

definition Cursor_is_dangling :: "('h, 'c, 'm) Query_ops \<Rightarrow> 'h option \<Rightarrow> ('h, 'c) Cursors \<Rightarrow> bool run" where
  "Cursor_is_dangling Q handle w =
     run_bind (on_handle (q_eof Q) handle w) (\<lambda>eof.
       if eof then map_ret Not (on_handle (q_on_last Q) handle w) else Ret False)"

definition Cursor_size :: "('h, 'c, 'm) Query_ops \<Rightarrow> 'h option \<Rightarrow> ('h, 'c) Cursors \<Rightarrow> u64 run" where
  "Cursor_size Q handle w = map_ret (q_ms_entries Q) (Cursor_get_map_stat Q handle w)"

definition Cursor_empty :: "('h, 'c, 'm) Query_ops \<Rightarrow> 'h option \<Rightarrow> ('h, 'c) Cursors \<Rightarrow> bool run" where
  "Cursor_empty Q handle w = map_ret (\<lambda>n. n = 0) (Cursor_size Q handle w)"

text \<open>
  When a thread ends, the pool is destroyed: each pooled handle is closed by its deleter, the oldest first.
\<close>

definition cursor_handle_deleter :: "('h, 'c) Handle_ops \<Rightarrow> 'h \<Rightarrow> 'c \<Rightarrow> 'c" where
  "cursor_handle_deleter H ptr = cursor_close H ptr"

definition delete_handles_pool :: "('h, 'c) Handle_ops \<Rightarrow> ('h, 'c) Cursors \<Rightarrow> 'c" where
  "delete_handles_pool H w = delete_ObjectPool (cursor_handle_deleter H) (handles_pool w) (mdbx_state w)"

text \<open>
  The cursors of a thread: objects come, move, are bound again, closed and destroyed, in any order. \<open>cursor_sys\<close> has also the
  constructor that throws.
\<close>

inductive cursor_use ::
  "('h, 'c) Handle_ops \<Rightarrow> ('h, 'c) Cursors \<times> 'h option list \<Rightarrow> ('h, 'c) Cursors \<times> 'h option list \<Rightarrow> bool"
  for H :: "('h, 'c) Handle_ops" where
  use_new: "Cursor_new H tx opens w = (Ret h, w') \<Longrightarrow> cursor_use H (w, cs) (w', h # cs)"
| use_bind: "Cursor_bind H tx opens h w = (r, h', w') \<Longrightarrow> cursor_use H (w, xs @ h # ys) (w', xs @ h' # ys)"
| use_close: "Cursor_close H h w = (h', w') \<Longrightarrow> cursor_use H (w, xs @ h # ys) (w', xs @ h' # ys)"
| use_delete: "cursor_use H (w, xs @ h # ys) (Cursor_delete h w, xs @ ys)"
| use_move_new: "Cursor_move_new h = (h1, h2) \<Longrightarrow> cursor_use H (w, xs @ h # ys) (w, h1 # xs @ h2 # ys)"
| use_move_assign: "Cursor_move_assign h1 h2 = (h1', h2') \<Longrightarrow>
    cursor_use H (w, xs @ h1 # ys @ h2 # zs) (w, xs @ h1' # ys @ h2' # zs)"

inductive cursor_sys ::
  "('h, 'c) Handle_ops \<Rightarrow> ('h, 'c) Cursors \<times> 'h option list \<Rightarrow> ('h, 'c) Cursors \<times> 'h option list \<Rightarrow> bool"
  for H :: "('h, 'c) Handle_ops" where
  sys_use: "cursor_use H s t \<Longrightarrow> cursor_sys H s t"
| sys_new_throws: "Cursor_new H tx opens w = (r, w') \<Longrightarrow> (\<nexists>h. r = Ret h) \<Longrightarrow> cursor_sys H (w, cs) (w', cs)"

subsection \<open>Ownership of handles\<close>

fun handles :: "'h option list \<Rightarrow> 'h list" where
  "handles [] = []"
| "handles (None # cs) = handles cs"
| "handles (Some h # cs) = h # handles cs"

lemma handles_append [simp]: "handles (xs @ ys) = handles xs @ handles ys"
  by (induction xs rule: handles.induct) simp_all

definition owned :: "('h, 'c) Cursors \<Rightarrow> 'h option list \<Rightarrow> 'h list" where
  "owned w cs = pool_objects (handles_pool w) @ handles cs"

text \<open>
  Every open handle has one owner, the pool or one cursor object, apart from those in \<open>L\<close>, which belong to nobody.
\<close>

definition handles_ok :: "('c \<Rightarrow> 'h set) \<Rightarrow> 'h set \<Rightarrow> ('h, 'c) Cursors \<Rightarrow> 'h option list \<Rightarrow> bool" where
  "handles_ok alive L w cs \<longleftrightarrow>
     distinct (owned w cs) \<and> L \<inter> set (owned w cs) = {} \<and> alive (mdbx_state w) = L \<union> set (owned w cs)"

locale mdbx_handles =
  fixes H :: "('h, 'c) Handle_ops" and alive :: "'c \<Rightarrow> 'h set"
  assumes create_law: "cursor_create H c = (h, c') \<Longrightarrow> h \<notin> alive c \<and> alive c' = insert h (alive c)"
    and close_law: "alive (cursor_close H h c) = alive c - {h}"
    and bind_law: "alive (snd (cursor_bind H h tx c)) = alive c"
begin

lemma handles_ok_perm: "handles_ok alive L w (xs @ h # ys) \<longleftrightarrow> handles_ok alive L w (h # xs @ ys)"
  by (cases h) (auto simp: handles_ok_def owned_def)

lemma handles_ok_drop: "handles_ok alive L w (h # cs) \<Longrightarrow> handles_ok alive (L \<union> set_option h) w cs"
  by (cases h) (auto simp: handles_ok_def owned_def)

lemma create_ok: "handles_ok alive L w cs \<Longrightarrow> Cursor_create H w = (h, w') \<Longrightarrow> handles_ok alive L w' (h # cs)"
  using create_law [of "mdbx_state w"]
  by (auto simp: Cursor_create_def handles_ok_def owned_def split: prod.splits)

lemma close_ok: "handles_ok alive L w (h # cs) \<Longrightarrow> Cursor_close H h w = (h', w') \<Longrightarrow> h' = None \<and> handles_ok alive L w' cs"
  by (cases h) (auto simp: Cursor_close_def handles_ok_def owned_def close_law)

lemma rebind_ok:
  assumes "handles_ok alive L w (Some h # cs)" "Cursor_rebind H tx (Some h) w = (h', w')"
  shows "h' \<noteq> None \<and> handles_ok alive L w' (h' # cs)"
proof (cases "Cursor_rebind H tx (Some h) w = (Some h, w)")
  case True
  with assms show ?thesis by auto
next
  case False
  with assms(2) have n: "Cursor_create H (snd (Cursor_close H (Some h) w)) = (h', w')"
    by (auto simp: Cursor_rebind_def split: option.splits if_splits)
  have "handles_ok alive L (snd (Cursor_close H (Some h) w)) cs"
    using close_ok [OF assms(1)] by (metis prod.collapse)
  from create_ok [OF this n] n show ?thesis by (auto simp: Cursor_create_def split: prod.splits)
qed

lemma bind_ok:
  assumes "handles_ok alive L w (h # cs)" "Cursor_bind H tx opens h w = (r, h', w')"
  shows "handles_ok alive L w' (h' # cs) \<and> (h \<noteq> None \<longrightarrow> h' \<noteq> None)"
proof (cases h)
  case None
  with assms show ?thesis by (simp add: Cursor_bind_def)
next
  case (Some x)
  obtain h1 w1 where b: "Cursor_rebind H tx (Some x) w = (h1, w1)" by fastforce
  from rebind_ok [OF _ b, of L cs] assms(1) Some have ok: "h1 \<noteq> None" "handles_ok alive L w1 (h1 # cs)" by auto
  then obtain y where y: "h1 = Some y" by blast
  have c: "handles_ok alive L (w1\<lparr>mdbx_state := c\<rparr>) (h1 # cs)" if "snd (cursor_bind H y tx (mdbx_state w1)) = c" for c
    using ok(2) bind_law [of y tx "mdbx_state w1"] that by (simp add: handles_ok_def owned_def)
  show ?thesis
  proof (cases opens)
    case (Ret u)
    with assms(2) Some b y c show ?thesis
      by (cases "cursor_bind H y tx (mdbx_state w1)") (auto simp: Cursor_bind_def split: option.splits)
  qed (use assms(2) Some b y ok in \<open>auto simp: Cursor_bind_def\<close>)
qed

lemma acquire_ok:
  assumes "handles_ok alive L w cs" "Cursor_acquire H w = (h, w')"
  shows "h \<noteq> None \<and> handles_ok alive L w' (h # cs)"
proof (cases "pool_objects (handles_pool w)")
  case Nil
  then have n: "Cursor_create H w = (h, w')"
    using assms(2) by (simp add: Cursor_acquire_def pool_acquire_def pool_empty_def)
  from create_ok [OF assms(1) n] n show ?thesis by (auto simp: Cursor_create_def split: prod.splits)
next
  case (Cons x p)
  with assms show ?thesis
    by (auto simp: Cursor_acquire_def pool_acquire_def pool_empty_def handles_ok_def owned_def)
qed

lemma new_ok:
  assumes "handles_ok alive L w cs" "Cursor_new H tx opens w = (r, w')"
  shows "case r of Ret h \<Rightarrow> handles_ok alive L w' (h # cs) | _ \<Rightarrow> \<exists>h. handles_ok alive (insert h L) w' cs"
proof -
  obtain h1 w1 where a: "Cursor_acquire H w = (h1, w1)" by fastforce
  obtain q h2 w2 where b: "Cursor_bind H tx opens h1 w1 = (q, h2, w2)" by (cases "Cursor_bind H tx opens h1 w1")
  have acquired: "handles_ok alive L w1 (h1 # cs)" and acquired_some: "h1 \<noteq> None"
    using acquire_ok [OF assms(1) a] by simp_all
  have ok: "handles_ok alive L w2 (h2 # cs)" and "h2 \<noteq> None"
    using bind_ok [OF acquired b] acquired_some by simp_all
  then obtain x where x: "h2 = Some x" by blast
  have "r = map_ret (\<lambda>_. h2) q" "w' = w2" using assms(2) a b by (auto simp: Cursor_new_def)
  with ok handles_ok_drop [OF ok] show ?thesis by (cases q) (auto simp: x)
qed

lemma delete_ok: "handles_ok alive L w (h # cs) \<Longrightarrow> handles_ok alive L (Cursor_delete h w) cs"
  by (cases h) (auto simp: Cursor_delete_def handles_ok_def owned_def pool_add_def)

lemma use_ok: "cursor_use H s t \<Longrightarrow> handles_ok alive L (fst s) (snd s) \<Longrightarrow> handles_ok alive L (fst t) (snd t)"
proof (induction rule: cursor_use.induct)
  case (use_new tx opens w h w' cs)
  then show ?case using new_ok [of L w cs tx opens "Ret h" w'] by simp
next
  case (use_bind tx opens h w r h' w' xs ys)
  then show ?case using bind_ok [of L w h "xs @ ys" tx opens r h' w'] by (simp add: handles_ok_perm)
next
  case (use_close h w h' w' xs ys)
  then show ?case using close_ok [of L w h "xs @ ys" h' w'] by (simp add: handles_ok_perm) (simp add: handles_ok_def owned_def)
next
  case (use_delete w xs h ys)
  then show ?case using delete_ok [of L w h "xs @ ys"] by (simp add: handles_ok_perm)
next
  case (use_move_new h h1 h2 w xs ys)
  then show ?case by (cases h) (auto simp: Cursor_move_new_def handles_ok_def owned_def)
next
  case (use_move_assign h1 h2 h1' h2' w xs ys zs)
  then show ?case by (cases h1; cases h2) (auto simp: Cursor_move_assign_def handles_ok_def owned_def)
qed

lemma uses_ok: "(cursor_use H)\<^sup>*\<^sup>* s t \<Longrightarrow> handles_ok alive L (fst s) (snd s) \<Longrightarrow> handles_ok alive L (fst t) (snd t)"
  by (induction rule: rtranclp_induct) (auto intro: use_ok)

lemma sys_ok: "cursor_sys H s t \<Longrightarrow> handles_ok alive L (fst s) (snd s) \<Longrightarrow> \<exists>L'. L \<subseteq> L' \<and> handles_ok alive L' (fst t) (snd t)"
proof (induction rule: cursor_sys.induct)
  case (sys_use s t)
  then show ?case using use_ok by blast
next
  case (sys_new_throws tx opens w r w' cs)
  then show ?case using new_ok [of L w cs tx opens r w'] by (cases r) auto
qed

lemma close_all: "alive (fold (cursor_close H) hs c) = alive c - set hs"
  by (induction hs arbitrary: c) (auto simp: close_law)

end

text \<open>Handles as numbers, a new one larger than all that are open.\<close>

type_synonym ref_handles = "nat list \<times> (nat \<rightharpoonup> nat)"

definition ref_handle_ops :: "(nat, ref_handles) Handle_ops" where
  "ref_handle_ops =
     \<lparr>cursor_create = (\<lambda>(live, bound). (Suc (sum_list live), (Suc (sum_list live) # live, bound))),
      cursor_close = (\<lambda>h (live, bound). (removeAll h live, bound)),
      cursor_txn = (\<lambda>h (live, bound). bound h),
      cursor_bind = (\<lambda>h tx (live, bound). (None, (live, bound(h \<mapsto> tx))))\<rparr>"

interpretation ref_handles: mdbx_handles ref_handle_ops "\<lambda>c. set (fst c)"
proof
  fix c h c'
  assume "cursor_create ref_handle_ops c = (h, c')"
  then have "h = Suc (sum_list (fst c))" "c' = (h # fst c, snd c)"
    by (auto simp: ref_handle_ops_def split: prod.splits)
  moreover have "Suc (sum_list (fst c)) \<notin> set (fst c)"
    using member_le_sum_list [of _ "fst c"] by fastforce
  ultimately show "h \<notin> set (fst c) \<and> set (fst c') = insert h (set (fst c))" by simp
qed (auto simp: ref_handle_ops_def split: prod.splits)

subsection \<open>Properties\<close>

text \<open>
  C7: Whatever the cursors of a thread do (constructed, also when the constructor throws, bound again to another
  transaction, moved, closed, destroyed), no handle ever has two owners: the handles in the pool and those of the
  cursor objects are pairwise different, and all of them are open.
\<close>

theorem cursor_handles_owned_once:
  assumes "mdbx_handles H alive" and "(cursor_sys H)\<^sup>*\<^sup>* (\<lparr>handles_pool = new_ObjectPool ts, mdbx_state = c\<rparr>, []) (w, cs)"
  shows "distinct (pool_objects (handles_pool w) @ handles cs)
    \<and> set (pool_objects (handles_pool w) @ handles cs) \<subseteq> alive (mdbx_state w)"
proof -
  have "\<exists>L. alive c \<subseteq> L \<and> handles_ok alive L (fst (w, cs)) (snd (w, cs))"
    using assms(2)
  proof (induction rule: rtranclp_induct)
    case base
    show ?case by (intro exI [of _ "alive c"]) (simp add: handles_ok_def owned_def new_ObjectPool_def)
  next
    case (step s t)
    then obtain L where "alive c \<subseteq> L" "handles_ok alive L (fst s) (snd s)" by auto
    with mdbx_handles.sys_ok [OF assms(1) step.hyps(2), of L] show ?case by (meson subset_trans)
  qed
  then show ?thesis by (auto simp: handles_ok_def owned_def)
qed

theorem cursor_handles_owned_once_witness:
  "\<exists>w. (cursor_sys ref_handle_ops)\<^sup>*\<^sup>* (\<lparr>handles_pool = new_ObjectPool False, mdbx_state = ([], Map.empty)\<rparr>, []) (w, [Some 1])
     \<and> distinct (pool_objects (handles_pool w) @ [1 :: nat])"
proof -
  let ?w = "\<lparr>handles_pool = new_ObjectPool False, mdbx_state = ([1], [1 \<mapsto> 7])\<rparr>"
  have "Cursor_new ref_handle_ops 7 (Ret ()) \<lparr>handles_pool = new_ObjectPool False, mdbx_state = ([], Map.empty)\<rparr>
    = (Ret (Some 1), ?w)"
    by (simp add: Cursor_new_def Cursor_acquire_def pool_acquire_def pool_empty_def new_ObjectPool_def Cursor_create_def
        Cursor_bind_def Cursor_rebind_def ref_handle_ops_def)
  then have r: "(cursor_sys ref_handle_ops)\<^sup>*\<^sup>* (\<lparr>handles_pool = new_ObjectPool False, mdbx_state = ([], Map.empty)\<rparr>, []) (?w, [Some 1])"
    by (intro r_into_rtranclp sys_use use_new)
  from cursor_handles_owned_once [OF ref_handles.mdbx_handles_axioms r] r show ?thesis
    by (intro exI [of _ ?w]) simp
qed

text \<open>
  A leak: when opening the table fails inside the constructor of a \<^verbatim>\<open>Cursor\<close>, the handle it took (from the pool or a new
  one) stays open but belongs to nobody, neither to the pool nor to a cursor.
\<close>

theorem cursor_constructor_leaks:
  assumes "mdbx_handles H alive" and "handles_ok alive L w cs"
  shows "\<exists>w' h. Cursor_new H tx (Throw ex) w = (Throw ex, w') \<and> h \<in> alive (mdbx_state w')
    \<and> h \<notin> set (pool_objects (handles_pool w') @ handles cs)"
proof -
  obtain h1 w1 where a: "Cursor_acquire H w = (h1, w1)" by fastforce
  have ok1: "h1 \<noteq> None" "handles_ok alive L w1 (h1 # cs)"
    using mdbx_handles.acquire_ok [OF assms a] by auto
  then obtain x where x: "h1 = Some x" by blast
  obtain h2 w2 where b: "Cursor_rebind H tx (Some x) w1 = (h2, w2)" by fastforce
  have ok2: "h2 \<noteq> None" "handles_ok alive L w2 (h2 # cs)"
    using mdbx_handles.rebind_ok [OF assms(1) _ b] ok1 x by auto
  then obtain y where y: "h2 = Some y" by blast
  have "Cursor_new H tx (Throw ex) w = (Throw ex, w2)"
    using a b x y by (simp add: Cursor_new_def Cursor_bind_def)
  with ok2(2) y show ?thesis by (intro exI [of _ w2] exI [of _ y]) (auto simp: handles_ok_def owned_def)
qed

theorem cursor_constructor_leaks_witness:
  "\<exists>w' h. Cursor_new ref_handle_ops 7 (Throw (Mdbx_exception ''MDBX_NOTFOUND''))
      \<lparr>handles_pool = new_ObjectPool False, mdbx_state = ([], Map.empty)\<rparr> = (Throw (Mdbx_exception ''MDBX_NOTFOUND''), w')
    \<and> h \<in> set (fst (mdbx_state w')) \<and> h \<notin> set (pool_objects (handles_pool w'))"
  using cursor_constructor_leaks [OF ref_handles.mdbx_handles_axioms,
      of "{}" "\<lparr>handles_pool = new_ObjectPool False, mdbx_state = ([], Map.empty)\<rparr>" "[]" 7 "Mdbx_exception ''MDBX_NOTFOUND''"]
  by (simp add: handles_ok_def owned_def new_ObjectPool_def)

text \<open>
  A closed cursor is good for nothing: every question about it and every attempt to bind it again throws, the state
  stays as it is, and its destructor does not give the handle back to the pool.
\<close>

theorem closed_cursor_unusable:
  assumes "Cursor_close H handle w = (handle', w')"
  shows "\<exists>e. Cursor_bind H tx opens handle' w' = (Throw e, handle', w')
    \<and> Cursor_size Q handle' w' = Throw (Mdbx_exception ''EINVAL'') \<and> Cursor_empty Q handle' w' = Throw (Mdbx_exception ''EINVAL'')
    \<and> Cursor_is_multi_value Q handle' w' = Throw (Mdbx_exception ''EINVAL'')
    \<and> Cursor_is_dangling Q handle' w' = Throw (Mdbx_exception ''EINVAL'')
    \<and> Cursor_delete handle' w' = w'"
  using assms
  by (auto simp: Cursor_close_def Cursor_bind_def Cursor_size_def Cursor_empty_def Cursor_is_multi_value_def
      Cursor_is_dangling_def Cursor_get_map_stat_def Cursor_get_map_flags_def on_handle_def Cursor_delete_def)

theorem closed_cursor_unusable_witness:
  "\<exists>w' e. Cursor_close ref_handle_ops (Some 1) \<lparr>handles_pool = new_ObjectPool False, mdbx_state = ([1], [1 \<mapsto> 7])\<rparr> = (None, w')
     \<and> Cursor_bind ref_handle_ops 7 (Ret ()) None w' = (Throw e, None, w')"
proof -
  obtain w' where w: "Cursor_close ref_handle_ops (Some 1) \<lparr>handles_pool = new_ObjectPool False, mdbx_state = ([1], [1 \<mapsto> 7])\<rparr> = (None, w')"
    by (simp add: Cursor_close_def)
  from closed_cursor_unusable [OF w] w show ?thesis by blast
qed

text \<open>
  C23: Nothing leaks when no constructor throws: whatever the cursors of a thread did, once all of them are destroyed or closed and the
  thread ends, which destroys its pool, exactly the handles are open that were open before the thread used any.
\<close>

theorem thread_exit_closes_handles:
  assumes "mdbx_handles H alive" and "(cursor_use H)\<^sup>*\<^sup>* (\<lparr>handles_pool = new_ObjectPool ts, mdbx_state = c\<rparr>, []) (w, cs)"
    and "handles cs = []"
  shows "alive (delete_handles_pool H w) = alive c"
proof -
  have "handles_ok alive (alive c) w cs"
    using mdbx_handles.uses_ok [OF assms(1,2), of "alive c"] by (simp add: handles_ok_def owned_def new_ObjectPool_def)
  then have "alive (mdbx_state w) = alive c \<union> set (pool_objects (handles_pool w))" "alive c \<inter> set (pool_objects (handles_pool w)) = {}"
    using assms(3) by (simp_all add: handles_ok_def owned_def)
  moreover have "cursor_handle_deleter H = cursor_close H" by (simp add: fun_eq_iff cursor_handle_deleter_def)
  ultimately show ?thesis
    using mdbx_handles.close_all [OF assms(1), of "rev (pool_objects (handles_pool w))" "mdbx_state w"]
    by (auto simp: delete_handles_pool_def delete_ObjectPool_def)
qed

theorem thread_exit_closes_handles_witness:
  "\<exists>w. (cursor_use ref_handle_ops)\<^sup>*\<^sup>* (\<lparr>handles_pool = new_ObjectPool False, mdbx_state = ([], Map.empty)\<rparr>, []) (w, [])
     \<and> pool_objects (handles_pool w) = [1 :: nat] \<and> set (fst (delete_handles_pool ref_handle_ops w)) = {}"
proof -
  let ?s = "\<lparr>handles_pool = new_ObjectPool False, mdbx_state = ([], Map.empty)\<rparr>"
  let ?w = "\<lparr>handles_pool = new_ObjectPool False, mdbx_state = ([1], [1 \<mapsto> 7])\<rparr>"
  have "Cursor_new ref_handle_ops 7 (Ret ()) ?s = (Ret (Some 1), ?w)"
    by (simp add: Cursor_new_def Cursor_acquire_def pool_acquire_def pool_empty_def new_ObjectPool_def Cursor_create_def
        Cursor_bind_def Cursor_rebind_def ref_handle_ops_def)
  then have "cursor_use ref_handle_ops (?s, []) (?w, [Some 1])" by (rule use_new)
  moreover have "cursor_use ref_handle_ops (?w, [Some 1]) (Cursor_delete (Some 1) ?w, [])"
    using use_delete [of ref_handle_ops ?w "[]" "Some 1" "[]"] by simp
  ultimately have r: "(cursor_use ref_handle_ops)\<^sup>*\<^sup>* (?s, []) (Cursor_delete (Some 1) ?w, [])"
    by (meson converse_rtranclp_into_rtranclp rtranclp.rtrancl_refl)
  from thread_exit_closes_handles [OF ref_handles.mdbx_handles_axioms r] r show ?thesis
    by (intro exI [of _ "Cursor_delete (Some 1) ?w"]) (simp add: Cursor_delete_def pool_add_def new_ObjectPool_def)
qed

end
