(* ===== verification/File_System.thy ===== *)
theory File_System
  imports Moria_Prelude "HOL-Library.AList"
begin

section \<open>The file system\<close>

text \<open>
  What the code uses of \<^verbatim>\<open>std::filesystem\<close>, in \<^verbatim>\<open>node/common/directories.cpp\<close> and in \<^verbatim>\<open>open_env\<close> of
  \<^verbatim>\<open>node/database/mdbx.cpp\<close>. The file system is a tree: regular files with their size, other
  files (\<open>Special\<close>), and directories, whose entries are in the order in which an iterator meets them. There are no symbolic
  links, nobody else changes the tree, and permissions do not matter. Paths are texts with the POSIX conventions: components are
  separated by slashes and resolved one by one, each but the last one in an existing directory. An operation that can
  change the tree before it fails returns its outcome and the new state of the system.

  \<open>fs_extends\<close> is the order on trees that the operations which only create respect; \<open>plain_path\<close> are the paths without dots, whose
  location does not depend on the tree.
\<close>

datatype fs_node = File nat | Special | Dir "(string \<times> fs_node) list"

record Os =
  tree :: fs_node
  current_path :: string
  environment :: "string \<Rightarrow> string"
  temp_setting :: string
  exe_link :: "string option"

subsection \<open>Paths\<close>

definition slash :: char where
  "slash = CHR ''/''"

definition is_absolute :: "string \<Rightarrow> bool" where
  "is_absolute p \<longleftrightarrow> p \<noteq> [] \<and> hd p = slash"

definition has_filename :: "string \<Rightarrow> bool" where
  "has_filename p \<longleftrightarrow> p \<noteq> [] \<and> last p \<noteq> slash"

definition path_append :: "string \<Rightarrow> string \<Rightarrow> string" where
  "path_append a b = (if is_absolute b then b else if has_filename a then a @ slash # b else a @ b)"

definition absolute :: "Os \<Rightarrow> string \<Rightarrow> string" where
  "absolute os p = (if is_absolute p then p else path_append (current_path os) p)"

fun split_slash :: "string \<Rightarrow> string list" where
  "split_slash [] = [[]]"
| "split_slash (c # cs) =
     (if c = slash then [] # split_slash cs
      else (case split_slash cs of [] \<Rightarrow> [[c]] | w # ws \<Rightarrow> (c # w) # ws))"

definition components :: "string \<Rightarrow> string list" where
  "components p = filter (\<lambda>w. w \<noteq> []) (split_slash p)"

text \<open>A trailing slash asks for a directory, as a trailing dot does.\<close>

definition lookup_components :: "string \<Rightarrow> string list" where
  "lookup_components p = components p @ (if has_filename p then [] else [''.''])"

subsection \<open>The tree\<close>

fun fs_lookup :: "fs_node \<Rightarrow> string list \<Rightarrow> fs_node option" where
  "fs_lookup t [] = Some t"
| "fs_lookup (Dir es) (n # ns) = (case map_of es n of None \<Rightarrow> None | Some t \<Rightarrow> fs_lookup t ns)"
| "fs_lookup t (n # ns) = None"

fun fs_change :: "(fs_node \<Rightarrow> fs_node) \<Rightarrow> string list \<Rightarrow> fs_node \<Rightarrow> fs_node" where
  "fs_change f [] t = f t"
| "fs_change f (n # ns) (Dir es) =
     (case map_of es n of None \<Rightarrow> Dir es | Some t \<Rightarrow> Dir (AList.update n (fs_change f ns t) es))"
| "fs_change f (n # ns) t = t"

fun is_dir :: "fs_node \<Rightarrow> bool" where
  "is_dir (Dir es) = True"
| "is_dir t = False"

fun put_entry :: "string \<Rightarrow> fs_node \<Rightarrow> fs_node \<Rightarrow> fs_node" where
  "put_entry n t (Dir es) = Dir (AList.update n t es)"
| "put_entry n t u = u"

fun drop_entry :: "string \<Rightarrow> fs_node \<Rightarrow> fs_node" where
  "drop_entry n (Dir es) = Dir (AList.delete n es)"
| "drop_entry n u = u"

text \<open>A location is the list of names from the root.\<close>

definition fs_step :: "string list \<Rightarrow> string \<Rightarrow> string list" where
  "fs_step cur c = (if c = ''.'' then cur else if c = ''..'' then butlast cur else cur @ [c])"

fun fs_walk :: "fs_node \<Rightarrow> string list \<Rightarrow> string list \<Rightarrow> string list option" where
  "fs_walk t cur [] = (if fs_lookup t cur = None then None else Some cur)"
| "fs_walk t cur (c # cs) =
     (case fs_lookup t cur of Some (Dir es) \<Rightarrow> fs_walk t (fs_step cur c) cs | _ \<Rightarrow> None)"

definition locate :: "Os \<Rightarrow> string \<Rightarrow> string list option" where
  "locate os p = (if p = [] then None else fs_walk (tree os) [] (lookup_components (absolute os p)))"

definition status :: "Os \<Rightarrow> string \<Rightarrow> fs_node option" where
  "status os p = (case locate os p of None \<Rightarrow> None | Some loc \<Rightarrow> fs_lookup (tree os) loc)"

definition exists_path :: "Os \<Rightarrow> string \<Rightarrow> bool" where
  "exists_path os p \<longleftrightarrow> status os p \<noteq> None"

definition is_directory :: "Os \<Rightarrow> string \<Rightarrow> bool" where
  "is_directory os p \<longleftrightarrow> (case status os p of Some t \<Rightarrow> is_dir t | None \<Rightarrow> False)"

definition file_size :: "Os \<Rightarrow> string \<Rightarrow> u64 run" where
  "file_size os p =
     (case status os p of Some (File k) \<Rightarrow> Ret (of_nat k) | _ \<Rightarrow> Throw (Filesystem_error ''cannot get file size''))"

text \<open>
  \<^verbatim>\<open>create_directories\<close> makes every missing component; what was made stays when a later component is not a directory.
\<close>

fun make_dirs :: "fs_node \<Rightarrow> string list \<Rightarrow> string list \<Rightarrow> fs_node \<times> bool" where
  "make_dirs t cur [] = (t, True)"
| "make_dirs t cur (c # cs) =
     (case fs_lookup t cur of
        Some (Dir es) \<Rightarrow>
          if c = ''.'' \<or> c = ''..'' then make_dirs t (fs_step cur c) cs
          else (case map_of es c of
                  None \<Rightarrow> make_dirs (fs_change (put_entry c (Dir [])) cur t) (cur @ [c]) cs
                | Some u \<Rightarrow> if is_dir u then make_dirs t (cur @ [c]) cs else (t, False))
      | _ \<Rightarrow> (t, False))"

definition create_directories :: "string \<Rightarrow> Os \<Rightarrow> unit run \<times> Os" where
  "create_directories p os =
     (let (t, made) = make_dirs (tree os) [] (components (absolute os p))
      in (if made then Ret () else Throw (Filesystem_error ''cannot create directories''), os\<lparr>tree := t\<rparr>))"

text \<open>\<^verbatim>\<open>remove_all\<close> on a path that ends in a name; a missing path is no error.\<close>

definition remove_all :: "string \<Rightarrow> Os \<Rightarrow> Os" where
  "remove_all p os =
     (case locate os p of
        None \<Rightarrow> os
      | Some loc \<Rightarrow> if loc = [] then os else os\<lparr>tree := fs_change (drop_entry (last loc)) (butlast loc) (tree os)\<rparr>)"

subsection \<open>Lemmas on the tree\<close>

lemma fs_lookup_append: "fs_lookup t (p @ q) = Option.bind (fs_lookup t p) (\<lambda>u. fs_lookup u q)"
  by (induction t p rule: fs_lookup.induct) (auto split: option.split)

lemma fs_change_append: "fs_change f (p @ q) t = fs_change (fs_change f q) p t"
  by (induction "fs_change f q" p t rule: fs_change.induct) (auto split: option.split)

lemma fs_lookup_change: "fs_lookup (fs_change f p t) p = map_option f (fs_lookup t p)"
  by (induction f p t rule: fs_change.induct) (auto simp: update_conv' split: option.split)

lemma fs_change_change: "fs_change f p (fs_change g p t) = fs_change (\<lambda>u. f (g u)) p t"
  by (induction g p t rule: fs_change.induct) (auto simp: update_conv' split: option.split)

lemma fs_change_id: "fs_lookup t p = Some u \<Longrightarrow> f u = u \<Longrightarrow> fs_change f p t = t"
  by (induction f p t rule: fs_change.induct) (auto simp: update_triv split: option.splits)

lemma fs_change_cong: "fs_lookup t p = Some u \<Longrightarrow> f u = g u \<Longrightarrow> fs_change f p t = fs_change g p t"
  by (induction f p t rule: fs_change.induct) (auto split: option.splits)

text \<open>What a tree keeps when directories are added: every entry, files as they are, directories as directories.\<close>

fun same_kind :: "fs_node \<Rightarrow> fs_node \<Rightarrow> bool" where
  "same_kind (File a) u \<longleftrightarrow> u = File a"
| "same_kind Special u \<longleftrightarrow> u = Special"
| "same_kind (Dir es) u \<longleftrightarrow> is_dir u"

definition fs_extends :: "fs_node \<Rightarrow> fs_node \<Rightarrow> bool" where
  "fs_extends t t' \<longleftrightarrow> (\<forall>q u. fs_lookup t q = Some u \<longrightarrow> (\<exists>u'. fs_lookup t' q = Some u' \<and> same_kind u u'))"

lemma is_dir_iff: "is_dir t \<longleftrightarrow> (\<exists>es. t = Dir es)"
  by (cases t) auto

lemma same_kind_refl [simp]: "same_kind t t"
  by (cases t) auto

lemma same_kind_trans: "same_kind t u \<Longrightarrow> same_kind u v \<Longrightarrow> same_kind t v"
  by (cases t) (auto simp: is_dir_iff)

lemma fs_extends_refl [simp]: "fs_extends t t"
  by (auto simp: fs_extends_def)

lemma fs_extends_trans: "fs_extends t u \<Longrightarrow> fs_extends u v \<Longrightarrow> fs_extends t v"
  unfolding fs_extends_def by (metis same_kind_trans)

lemma fs_extends_root: "fs_extends (Dir es) t' \<Longrightarrow> is_dir t'"
  unfolding fs_extends_def by (drule spec [of _ "[]"]) simp

lemma fs_extends_update:
  assumes "\<And>u. map_of es n = Some u \<Longrightarrow> fs_extends u v"
  shows "fs_extends (Dir es) (Dir (AList.update n v es))"
  unfolding fs_extends_def
proof (intro allI impI)
  fix q u assume l: "fs_lookup (Dir es) q = Some u"
  show "\<exists>u'. fs_lookup (Dir (AList.update n v es)) q = Some u' \<and> same_kind u u'"
  proof (cases q)
    case Nil
    with l show ?thesis by auto
  next
    case (Cons m ms)
    with l assms show ?thesis
      by (cases "m = n") (auto simp: update_conv' fs_extends_def split: option.splits)
  qed
qed

lemma fs_extends_change:
  "fs_lookup t p = Some u \<Longrightarrow> fs_extends u (f u) \<Longrightarrow> fs_extends t (fs_change f p t)"
proof (induction f p t rule: fs_change.induct)
  case (2 f n ns es)
  then obtain v where v: "map_of es n = Some v" by (auto split: option.splits)
  with 2 have "fs_extends v (fs_change f ns v)" by simp
  with v show ?case by (auto intro: fs_extends_update)
qed auto

lemma fs_extends_put_entry: "map_of es n = None \<Longrightarrow> fs_extends (Dir es) (put_entry n t (Dir es))"
  by (auto intro: fs_extends_update)

lemma fs_extends_walk: "fs_extends t t' \<Longrightarrow> fs_walk t cur cs = Some loc \<Longrightarrow> fs_walk t' cur cs = Some loc"
proof (induction t cur cs rule: fs_walk.induct)
  case (1 t cur)
  then show ?case by (force simp: fs_extends_def split: if_splits)
next
  case (2 t cur c cs)
  then obtain es where es: "fs_lookup t cur = Some (Dir es)" by (auto split: option.splits fs_node.splits)
  with 2 obtain es' where "fs_lookup t' cur = Some (Dir es')"
    unfolding fs_extends_def by (metis same_kind.simps(3) is_dir_iff)
  with 2 es show ?case by simp
qed

lemma fs_walk_append: "fs_walk t cur (as @ bs) = Option.bind (fs_walk t cur as) (\<lambda>loc. fs_walk t loc bs)"
proof (induction t cur as rule: fs_walk.induct)
  case (1 t cur)
  then show ?case by (cases bs) auto
qed (auto split: option.split fs_node.split)

lemma fs_walk_lookup: "fs_walk t cur cs = Some loc \<Longrightarrow> \<exists>u. fs_lookup t loc = Some u"
  by (induction t cur cs rule: fs_walk.induct) (auto split: if_splits option.splits fs_node.splits)

lemma make_dirs_extends: "fs_extends t (fst (make_dirs t cur cs))"
proof (induction t cur cs rule: make_dirs.induct)
  case (2 t cur c cs)
  show ?case
  proof (cases "\<exists>es. fs_lookup t cur = Some (Dir es)")
    case True
    then obtain es where es: "fs_lookup t cur = Some (Dir es)" by blast
    then have "map_of es c = None \<Longrightarrow> fs_extends t (fs_change (put_entry c (Dir [])) cur t)"
      by (rule fs_extends_change) (rule fs_extends_put_entry)
    with 2 es show ?thesis by (auto split: option.splits intro: fs_extends_trans)
  qed (auto split: option.splits fs_node.splits)
qed simp

lemma fs_extends_dir: "fs_extends t t' \<Longrightarrow> fs_lookup t p = Some (Dir es) \<Longrightarrow> \<exists>es'. fs_lookup t' p = Some (Dir es')"
  unfolding fs_extends_def by (metis same_kind.simps(3) is_dir_iff)

lemma fs_lookup_child: "fs_lookup t cur = Some (Dir es) \<Longrightarrow> fs_lookup t (cur @ [c]) = map_of es c"
  by (simp add: fs_lookup_append split: option.split)

lemma fs_lookup_parent: "fs_lookup t cur = Some u \<Longrightarrow> \<exists>v. fs_lookup t (butlast cur) = Some v \<and> (cur \<noteq> [] \<longrightarrow> is_dir v)"
proof (cases cur rule: rev_cases)
  case (snoc ys y)
  assume "fs_lookup t cur = Some u"
  with snoc obtain v where v: "fs_lookup t ys = Some v" "fs_lookup v [y] = Some u"
    by (auto simp: fs_lookup_append Option.bind_eq_Some_conv)
  then have "is_dir v" by (cases v) auto
  with v snoc show ?thesis by simp
qed simp

lemma fs_step_dir:
  assumes "fs_lookup t cur = Some (Dir es)" "c = ''.'' \<or> c = ''..''"
  shows "\<exists>es'. fs_lookup t (fs_step cur c) = Some (Dir es')"
  using fs_lookup_parent [OF assms(1)] assms by (cases "cur = []") (auto simp: fs_step_def is_dir_iff)

lemma make_dirs_walk:
  "make_dirs t cur cs = (t', True) \<Longrightarrow> fs_lookup t cur = Some (Dir es) \<Longrightarrow>
    \<exists>loc es'. fs_walk t' cur cs = Some loc \<and> fs_lookup t' loc = Some (Dir es')"
proof (induction t cur cs arbitrary: es rule: make_dirs.induct)
  case (2 t cur c cs)
  from make_dirs_extends [of t cur "c # cs"] "2.prems" have "fs_extends t t'" by simp
  from fs_extends_dir [OF this "2.prems"(2)] obtain es1 where d: "fs_lookup t' cur = Some (Dir es1)" by blast
  show ?case
  proof (cases "c = ''.'' \<or> c = ''..''")
    case True
    from fs_step_dir [OF "2.prems"(2) this] obtain es2 where "fs_lookup t (fs_step cur c) = Some (Dir es2)" by blast
    with "2.IH"(1) [OF "2.prems"(2) refl True] True "2.prems" d show ?thesis by simp
  next
    case False
    then have step: "fs_step cur c = cur @ [c]" by (simp add: fs_step_def)
    show ?thesis
    proof (cases "map_of es c")
      case None
      have "fs_lookup (fs_change (put_entry c (Dir [])) cur t) (cur @ [c]) = Some (Dir [])"
        using "2.prems"(2) by (simp add: fs_lookup_append fs_lookup_change update_conv')
      with "2.IH"(2) [OF "2.prems"(2) refl False None] False None "2.prems" d step show ?thesis by simp
    next
      case (Some u)
      with False "2.prems" have u: "is_dir u" by (auto split: if_splits)
      then obtain es2 where "u = Dir es2" by (auto simp: is_dir_iff)
      with Some "2.prems"(2) have "fs_lookup t (cur @ [c]) = Some (Dir es2)" by (simp add: fs_lookup_child)
      with "2.IH"(3) [OF "2.prems"(2) refl False Some u] False Some u "2.prems" d step show ?thesis by simp
    qed
  qed
qed simp

lemma fs_walk_Cons_child:
  assumes "fs_walk t cur (c # cs) = Some loc" "fs_lookup t cur = Some (Dir es)" "c \<noteq> ''.''" "c \<noteq> ''..''"
  shows "\<exists>u. map_of es c = Some u \<and> (is_dir u \<or> cs = [])"
proof -
  from assms have w: "fs_walk t (cur @ [c]) cs = Some loc" by (simp add: fs_step_def)
  then obtain u where u: "fs_lookup t (cur @ [c]) = Some u" by (cases cs) (auto split: if_splits option.splits)
  with w have "is_dir u \<or> cs = []" by (cases cs; cases u) auto
  with u assms(2) show ?thesis by (simp add: fs_lookup_child)
qed

lemma make_dirs_existing:
  "fs_walk t cur cs = Some loc \<Longrightarrow> fs_lookup t loc = Some (Dir es) \<Longrightarrow> make_dirs t cur (cs @ ds) = make_dirs t loc ds"
proof (induction t cur cs rule: fs_walk.induct)
  case (1 t cur)
  then show ?case by (simp split: if_splits)
next
  case (2 t cur c cs)
  then obtain es1 where es1: "fs_lookup t cur = Some (Dir es1)" by (auto split: option.splits fs_node.splits)
  with 2 have IH: "make_dirs t (fs_step cur c) (cs @ ds) = make_dirs t loc ds" by simp
  show ?case
  proof (cases "c = ''.'' \<or> c = ''..''")
    case False
    from fs_walk_Cons_child [OF "2.prems"(1) es1] False obtain u where u: "map_of es1 c = Some u" "is_dir u \<or> cs = []"
      by blast
    have "is_dir u"
    proof (cases "cs = []")
      case True
      with "2.prems" es1 False have "fs_lookup t (cur @ [c]) = Some (Dir es)" by (auto simp: fs_step_def split: if_splits)
      with es1 u(1) show ?thesis by (simp add: fs_lookup_child)
    qed (use u(2) in simp)
    with False es1 u(1) IH show ?thesis by (simp add: fs_step_def)
  qed (use IH es1 in simp)
qed

lemma make_dirs_on_file:
  "fs_walk t cur cs = Some loc \<Longrightarrow> cs \<noteq> [] \<Longrightarrow> fs_lookup t loc = Some u \<Longrightarrow> \<not> is_dir u \<Longrightarrow> make_dirs t cur cs = (t, False)"
proof (induction t cur cs rule: fs_walk.induct)
  case (2 t cur c cs)
  then obtain es where es: "fs_lookup t cur = Some (Dir es)" by (auto split: option.splits fs_node.splits)
  with "2.prems"(1) have w: "fs_walk t (fs_step cur c) cs = Some loc" by simp
  have IH: "cs \<noteq> [] \<Longrightarrow> make_dirs t (fs_step cur c) cs = (t, False)" using "2.IH" [OF es refl w] "2.prems"(3,4) by blast
  show ?case
  proof (cases "c = ''.'' \<or> c = ''..''")
    case True
    have "cs \<noteq> []" using fs_step_dir [OF es True] w "2.prems"(3,4) by (auto split: if_splits)
    with IH True es show ?thesis by simp
  next
    case False
    then have step: "fs_step cur c = cur @ [c]" by (simp add: fs_step_def)
    from fs_walk_Cons_child [OF "2.prems"(1) es] False obtain v where v: "map_of es c = Some v" by blast
    have "is_dir v \<Longrightarrow> cs \<noteq> []"
      using w step v es "2.prems"(3,4) by (auto simp: fs_lookup_child split: if_splits)
    with IH step False v es show ?thesis by simp
  qed
qed simp

subsection \<open>Lemmas on paths\<close>

definition is_name :: "string \<Rightarrow> bool" where
  "is_name s \<longleftrightarrow> s \<noteq> [] \<and> slash \<notin> set s \<and> s \<noteq> ''.'' \<and> s \<noteq> ''..''"

lemma split_slash_not_Nil [simp]: "split_slash p \<noteq> []"
  by (induction p) (auto split: list.splits)

lemma split_slash_append: "split_slash (a @ slash # b) = split_slash a @ split_slash b"
  by (induction a) (auto split: list.splits)

lemma split_slash_plain: "slash \<notin> set s \<Longrightarrow> split_slash s = [s]"
  by (induction s) auto

lemma components_slash: "components (a @ slash # b) = components a @ components b"
  by (simp add: components_def split_slash_append)

lemma components_path_append: "\<not> is_absolute b \<Longrightarrow> components (path_append a b) = components a @ components b"
proof (cases "has_filename a")
  case False
  assume "\<not> is_absolute b"
  with False components_slash [of "butlast a" b] components_slash [of "butlast a" "[]"] show ?thesis
    by (cases a rule: rev_cases) (auto simp: path_append_def has_filename_def components_def)
qed (simp add: path_append_def components_slash)

lemma components_not_Nil: "has_filename p \<Longrightarrow> components p \<noteq> []"
proof -
  have "p \<noteq> [] \<Longrightarrow> last p \<noteq> slash \<Longrightarrow> last (split_slash p) \<noteq> []"
  proof (induction p)
    case (Cons c cs)
    then show ?case by (cases "cs = []"; cases "split_slash cs") auto
  qed simp
  then show "has_filename p \<Longrightarrow> components p \<noteq> []"
    unfolding components_def has_filename_def filter_empty_conv using last_in_set [OF split_slash_not_Nil] by blast
qed

lemma components_name: "is_name s \<Longrightarrow> components s = [s]"
  by (simp add: components_def is_name_def split_slash_plain)

lemma is_name_relative: "is_name s \<Longrightarrow> \<not> is_absolute s"
  unfolding is_name_def is_absolute_def by (metis hd_in_set)

lemma has_filename_append: "b \<noteq> [] \<Longrightarrow> has_filename (path_append a b) = has_filename b"
  by (auto simp: has_filename_def path_append_def)

lemma is_name_has_filename: "is_name s \<Longrightarrow> has_filename s"
  unfolding is_name_def has_filename_def using last_in_set by fastforce

lemma is_absolute_append: "is_absolute a \<Longrightarrow> is_absolute (path_append a b)"
  by (auto simp: is_absolute_def path_append_def)

lemma is_absolute_absolute: "is_absolute (current_path os) \<Longrightarrow> is_absolute (absolute os p)"
  by (simp add: absolute_def is_absolute_append)

lemma lookup_components_child:
  "is_name s \<Longrightarrow> lookup_components (path_append p s) = components p @ [s]"
  by (simp add: lookup_components_def components_path_append is_name_relative components_name has_filename_append
      is_name_has_filename is_name_def)

subsection \<open>Lemmas on the system\<close>

lemma locate_components:
  assumes "is_absolute p" "locate os p = Some loc"
  shows "fs_walk (tree os) [] (components p) = Some loc"
proof -
  have w: "fs_walk (tree os) [] (lookup_components p) = Some loc"
    using assms by (auto simp: locate_def absolute_def split: if_splits)
  show ?thesis
  proof (cases "has_filename p")
    case False
    with w obtain l where l: "fs_walk (tree os) [] (components p) = Some l" "fs_walk (tree os) l [''.''] = Some loc"
      by (auto simp: lookup_components_def fs_walk_append Option.bind_eq_Some_conv)
    then show ?thesis by (auto simp: fs_step_def split: option.splits fs_node.splits if_splits)
  qed (use w in \<open>simp add: lookup_components_def\<close>)
qed

lemma locate_child:
  assumes "is_absolute p" "locate os p = Some loc" "fs_lookup (tree os) loc = Some (Dir es)" "is_name s"
  shows "locate os (path_append p s) = (if map_of es s = None then None else Some (loc @ [s]))"
proof -
  have "path_append p s \<noteq> []" using assms(1) by (auto simp: path_append_def is_absolute_def)
  moreover have "fs_step loc s = loc @ [s]" using assms(4) by (simp add: fs_step_def is_name_def)
  ultimately show ?thesis
    using assms locate_components [OF assms(1,2)]
    by (simp add: locate_def absolute_def is_absolute_append lookup_components_child fs_walk_append fs_lookup_child)
qed

lemma status_child:
  assumes "is_absolute p" "locate os p = Some loc" "fs_lookup (tree os) loc = Some (Dir es)" "is_name s"
  shows "status os (path_append p s) = map_of es s"
  using locate_child [OF assms] assms(3) by (auto simp: status_def fs_lookup_child)

lemma locate_extends:
  "fs_extends (tree os) (tree os') \<Longrightarrow> current_path os' = current_path os \<Longrightarrow> locate os p = Some loc \<Longrightarrow> locate os' p = Some loc"
  by (auto simp: locate_def absolute_def fs_extends_walk split: if_splits)

lemma is_directory_extends:
  assumes "fs_extends (tree os) (tree os')" "current_path os' = current_path os" "is_directory os p"
  shows "is_directory os' p"
proof -
  from assms(3) obtain loc es where l: "locate os p = Some loc" "fs_lookup (tree os) loc = Some (Dir es)"
    by (auto simp: is_directory_def status_def is_dir_iff split: option.splits)
  with locate_extends [OF assms(1,2)] fs_extends_dir [OF assms(1)] show ?thesis
    by (fastforce simp: is_directory_def status_def)
qed

lemma is_directoryE:
  assumes "is_directory os p"
  obtains loc es where "locate os p = Some loc" "fs_lookup (tree os) loc = Some (Dir es)"
  using assms by (auto simp: is_directory_def status_def is_dir_iff split: option.splits)

lemma put_then_change:
  assumes "fs_lookup t bl = Some (Dir es)"
  shows "fs_change f (bl @ [s]) (fs_change (put_entry s u) bl t) = fs_change (put_entry s (f u)) bl t"
proof -
  have "fs_change f (bl @ [s]) (fs_change (put_entry s u) bl t) = fs_change (\<lambda>v. fs_change f [s] (put_entry s u v)) bl t"
    by (simp add: fs_change_append fs_change_change)
  also have "\<dots> = fs_change (put_entry s (f u)) bl t"
    using assms by (rule fs_change_cong) (simp add: update_conv')
  finally show ?thesis .
qed

lemma put_then_drop:
  assumes "fs_lookup t bl = Some (Dir es)" "map_of es s = None"
  shows "fs_change (drop_entry s) bl (fs_change (put_entry s u) bl t) = t"
proof -
  have "s \<notin> fst ` set es" using assms(2) by (simp add: map_of_eq_None_iff)
  then show ?thesis unfolding fs_change_change by (intro fs_change_id [OF assms(1)]) (simp add: delete_update_same)
qed

text \<open>A path without dots names its own location, whatever the tree.\<close>

definition plain_path :: "string \<Rightarrow> bool" where
  "plain_path p \<longleftrightarrow> is_absolute p \<and> has_filename p \<and> list_all (\<lambda>c. c \<noteq> ''.'' \<and> c \<noteq> ''..'') (components p)"

lemma fs_walk_plain:
  "list_all (\<lambda>c. c \<noteq> ''.'' \<and> c \<noteq> ''..'') cs \<Longrightarrow> fs_lookup t (cur @ cs) = Some u \<Longrightarrow> fs_walk t cur cs = Some (cur @ cs)"
proof (induction cs arbitrary: cur)
  case (Cons c cs)
  from Cons.prems(2) obtain v where v: "fs_lookup t cur = Some v" "fs_lookup v (c # cs) = Some u"
    by (auto simp: fs_lookup_append Option.bind_eq_Some_conv)
  then have "is_dir v" by (cases v) auto
  with v Cons.IH [of "cur @ [c]"] Cons.prems show ?case by (auto simp: is_dir_iff fs_step_def)
qed simp

lemma fs_walk_names:
  "list_all (\<lambda>c. c \<noteq> ''.'' \<and> c \<noteq> ''..'') cs \<Longrightarrow> fs_walk t cur cs = Some loc \<Longrightarrow> loc = cur @ cs"
  by (induction t cur cs rule: fs_walk.induct) (auto simp: fs_step_def split: if_splits option.splits fs_node.splits)

lemma plain_path_locate: "plain_path p \<Longrightarrow> fs_lookup (tree os) (components p) = Some u \<Longrightarrow> locate os p = Some (components p)"
  using fs_walk_plain [of "components p" "tree os" "[]" u]
  by (auto simp: plain_path_def locate_def absolute_def lookup_components_def has_filename_def)

end
