(* ===== verification/Directories.thy ===== *)
theory Directories
  imports Human_Bytes File_System
begin

section \<open>Directories\<close>

text \<open>
  \<^verbatim>\<open>zen/node/common/directories.cpp\<close> and \<^verbatim>\<open>directories.hpp\<close>, for Linux, over the model of \<^verbatim>\<open>std::filesystem\<close> in \<open>File_System\<close>. An
  operation that changes the tree returns its outcome and the new state of the system, also when it throws. The random
  generator of the temporary paths is a function on a state of its own.
\<close>

subsection \<open>System paths\<close>

definition get_os_temporary_path :: "Os \<Rightarrow> string run" where
  "get_os_temporary_path os =
     (if is_directory os (temp_setting os) then Ret (temp_setting os)
      else Throw (Filesystem_error ''temp_directory_path''))"

definition FILENAME_MAX :: nat where
  "FILENAME_MAX = 4096"

definition get_process_absolute_full_path :: "Os \<Rightarrow> string" where
  "get_process_absolute_full_path os =
     (case exe_link os of None \<Rightarrow> [] | Some p \<Rightarrow> take FILENAME_MAX p)"

definition get_os_default_storage_path :: "Os \<Rightarrow> string" where
  "get_os_default_storage_path os =
     (let base_path_str =
        (if environment os ''XDG_DATA_HOME'' \<noteq> [] then environment os ''XDG_DATA_HOME''
         else if environment os ''HOME'' = [] then current_path os
         else environment os ''HOME'')
      in path_append (path_append (path_append base_path_str ''.local'') ''share'') ''zen'')"

fun unique_attempts :: "('g \<Rightarrow> nat \<times> 'g) \<Rightarrow> Os \<Rightarrow> string \<Rightarrow> nat \<Rightarrow> 'g \<Rightarrow> (string \<times> 'g) run" where
  "unique_attempts ud os base 0 g =
     Throw (Runtime_error (''Unable to find a valid unique non-existent under '' @ base))"
| "unique_attempts ud os base (Suc k) g =
     run_bind (get_random_alpha_string ud 10 g) (\<lambda>(s, g).
       let p = path_append base s
       in if \<not> exists_path os p then Ret (p, g) else unique_attempts ud os base k g)"

definition get_unique_temporary_path ::
  "('g \<Rightarrow> nat \<times> 'g) \<Rightarrow> Os \<Rightarrow> string option \<Rightarrow> 'g \<Rightarrow> (string \<times> 'g) run" where
  "get_unique_temporary_path ud os base_path g =
     run_bind (case base_path of None \<Rightarrow> get_os_temporary_path os | Some p \<Rightarrow> Ret p) (\<lambda>base.
       let base = (if \<not> is_absolute base then absolute os base else base)
       in if \<not> exists_path os base \<or> \<not> is_directory os base
          then Throw (Invalid_argument (''Path '' @ base @ '' does not exist or is not a directory''))
          else unique_attempts ud os base 1000 g)"

subsection \<open>The class \<open>Directory\<close>\<close>

record Directory =
  dir_path :: string

definition dir_exists :: "Os \<Rightarrow> Directory \<Rightarrow> bool" where
  "dir_exists os d \<longleftrightarrow> exists_path os (dir_path d) \<and> is_directory os (dir_path d)"

definition dir_create :: "Directory \<Rightarrow> Os \<Rightarrow> unit run \<times> Os" where
  "dir_create d os = (if dir_exists os d then (Ret (), os) else create_directories (dir_path d) os)"

definition directory_path :: "string \<Rightarrow> Os \<Rightarrow> string" where
  "directory_path path os =
     (let p = (if path = [] then current_path os else path)
      in if \<not> is_absolute path then absolute os p else p)"

definition new_Directory :: "string \<Rightarrow> Os \<Rightarrow> Directory run \<times> Os" where
  "new_Directory path os =
     (let p = directory_path path os
      in if \<not> has_filename p then (Throw (Invalid_argument (''Invalid path '' @ p)), os)
         else if exists_path os p \<and> \<not> is_directory os p
         then (Throw (Invalid_argument (''Invalid path '' @ p @ '' not a directory'')), os)
         else let d = \<lparr>dir_path = p\<rparr>; (r, os) = dir_create d os in (map_ret (\<lambda>_. d) r, os))"

definition is_pristine :: "Os \<Rightarrow> Directory \<Rightarrow> bool run" where
  "is_pristine os d =
     (case status os (dir_path d) of
        Some (Dir es) \<Rightarrow> Ret (es = [])
      | Some (File k) \<Rightarrow> Ret (k = 0)
      | _ \<Rightarrow> Throw (Filesystem_error ''cannot check if file is empty''))"

fun clear_entries :: "bool \<Rightarrow> Directory \<Rightarrow> string list \<Rightarrow> Os \<Rightarrow> Os" where
  "clear_entries recurse d [] os = os"
| "clear_entries recurse d (n # ns) os =
     clear_entries recurse d ns
       (let p = path_append (dir_path d) n
        in if is_directory os p \<and> \<not> recurse then os else remove_all p os)"

definition dir_clear :: "bool \<Rightarrow> Directory \<Rightarrow> Os \<Rightarrow> unit run \<times> Os" where
  "dir_clear recurse d os =
     (case status os (dir_path d) of
        Some (Dir es) \<Rightarrow> (Ret (), clear_entries recurse d (map fst es) os)
      | _ \<Rightarrow> (Throw (Filesystem_error ''directory iterator cannot open directory''), os))"

fun size_loop :: "bool \<Rightarrow> (string \<times> fs_node) list \<Rightarrow> u64 \<Rightarrow> u64" where
  "size_loop recurse [] ret = ret"
| "size_loop recurse ((n, Dir es) # rest) ret = size_loop recurse rest (if recurse then size_loop recurse es ret else ret)"
| "size_loop recurse ((n, File k) # rest) ret = size_loop recurse rest (ret + of_nat k)"
| "size_loop recurse ((n, Special) # rest) ret = size_loop recurse rest ret"

definition dir_size :: "Os \<Rightarrow> Directory \<Rightarrow> bool \<Rightarrow> u64 run" where
  "dir_size os d recurse =
     (case status os (dir_path d) of
        Some (Dir es) \<Rightarrow> Ret (size_loop recurse es 0)
      | _ \<Rightarrow> Throw (Filesystem_error ''recursive directory iterator cannot open directory''))"

definition dir_at :: "Directory \<Rightarrow> string \<Rightarrow> Os \<Rightarrow> Directory run \<times> Os" where
  "dir_at d p os =
     (if p = [] \<or> is_absolute p \<or> \<not> has_filename p then (Throw (Invalid_argument ''Invalid Path''), os)
      else new_Directory (path_append (dir_path d) p) os)"

definition new_TempDirectory ::
  "('g \<Rightarrow> nat \<times> 'g) \<Rightarrow> string option \<Rightarrow> 'g \<Rightarrow> Os \<Rightarrow> (Directory \<times> 'g) run \<times> Os" where
  "new_TempDirectory ud base g os =
     (case get_unique_temporary_path ud os base g of
        Ret (p, g) \<Rightarrow> let (r, os) = new_Directory p os in (map_ret (\<lambda>d. (d, g)) r, os)
      | Throw e \<Rightarrow> (Throw e, os)
      | Abort \<Rightarrow> (Abort, os)
      | Undef \<Rightarrow> (Undef, os))"

definition delete_TempDirectory :: "Directory \<Rightarrow> Os \<Rightarrow> Os" where
  "delete_TempDirectory d os = remove_all (dir_path d) os"

definition data_clear :: "bool \<Rightarrow> Directory \<Rightarrow> Os \<Rightarrow> unit run \<times> Os" where
  "data_clear recurse d os = (Ret (), os)"

fun deploy_all :: "Directory \<Rightarrow> string list \<Rightarrow> Os \<Rightarrow> unit run \<times> Os" where
  "deploy_all d [] os = (Ret (), os)"
| "deploy_all d (n # ns) os = sys_bind (dir_at d n os) (\<lambda>_ os. deploy_all d ns os)"

definition deploy :: "Directory \<Rightarrow> Os \<Rightarrow> unit run \<times> Os" where
  "deploy d os = deploy_all d [''chaindata'', ''etl-tmp'', ''nodes''] os"

lemma alnum_name: "set s \<subseteq> set kAlphaNum \<Longrightarrow> length s = 10 \<Longrightarrow> is_name s"
  by (auto simp: is_name_def kAlphaNum_def slash_def)

lemma new_Directory_child:
  assumes "is_absolute p" "locate os p = Some loc" "fs_lookup (tree os) loc = Some (Dir es)" "is_name s"
  shows "new_Directory (path_append p s) os =
    (case map_of es s of
       None \<Rightarrow> (Ret \<lparr>dir_path = path_append p s\<rparr>, os\<lparr>tree := fs_change (put_entry s (Dir [])) loc (tree os)\<rparr>)
     | Some u \<Rightarrow> if is_dir u then (Ret \<lparr>dir_path = path_append p s\<rparr>, os)
         else (Throw (Invalid_argument (''Invalid path '' @ path_append p s @ '' not a directory'')), os))"
proof -
  let ?p = "path_append p s"
  have p: "is_absolute ?p" "has_filename ?p" "?p \<noteq> []"
    using assms(1,4) by (simp_all add: is_absolute_append has_filename_append is_name_has_filename is_name_def [of s])
      (simp add: path_append_def is_absolute_def)
  have mk: "make_dirs (tree os) [] (components ?p) = make_dirs (tree os) loc [s]"
    using make_dirs_existing [OF locate_components [OF assms(1,2)] assms(3), of "[s]"] assms(4)
    by (simp add: components_path_append is_name_relative components_name)
  show ?thesis
    using p mk assms(3,4) status_child [OF assms]
    by (auto simp: new_Directory_def directory_path_def dir_create_def dir_exists_def exists_path_def is_directory_def create_directories_def
        absolute_def is_name_def split: option.split)
qed


lemma unique_attempts_fresh:
  "unique_attempts ud os base k g = Ret (p, g') \<Longrightarrow> \<exists>s. p = path_append base s \<and> is_name s \<and> \<not> exists_path os p"
proof (induction k arbitrary: g)
  case (Suc k)
  then obtain s g1 where s: "get_random_alpha_string ud 10 g = Ret (s, g1)"
    and r: "(if \<not> exists_path os (path_append base s) then Ret (path_append base s, g1) else unique_attempts ud os base k g1) =
      Ret (p, g')"
    by (auto simp: Let_def)
  from random_alpha_chars [OF s] have "is_name s" by (auto intro: alnum_name)
  with r Suc.IH show ?case by (auto split: if_splits)
qed simp

lemma unique_path_in_base:
  assumes "get_unique_temporary_path ud os base g = Ret (p, g')" "is_absolute (current_path os)"
  obtains b s where "p = path_append b s" "is_name s" "\<not> exists_path os p" "is_absolute b" "is_directory os b"
  using assms is_absolute_absolute [of os]
  by (auto simp: get_unique_temporary_path_def Let_def split: if_splits dest!: unique_attempts_fresh)

lemma dir_create_outcome:
  assumes "is_absolute p" "has_filename p" "is_dir (tree os)" "dir_create \<lparr>dir_path = p\<rparr> os = (r, os')"
  shows "fs_extends (tree os) (tree os') \<and> (r = Ret () \<longrightarrow> dir_exists os' \<lparr>dir_path = p\<rparr>)"
proof -
  obtain t made where mk: "make_dirs (tree os) [] (components p) = (t, made)" by fastforce
  with make_dirs_extends [of "tree os" "[]" "components p"] have ext: "fs_extends (tree os) t" by simp
  from assms(3) obtain es where root: "fs_lookup (tree os) [] = Some (Dir es)" by (auto simp: is_dir_iff)
  have "made \<Longrightarrow> dir_exists (os\<lparr>tree := t\<rparr>) \<lparr>dir_path = p\<rparr>"
    using make_dirs_walk [of "tree os" "[]" "components p" t es] mk root assms(1,2)
    by (auto simp: dir_exists_def exists_path_def is_directory_def status_def locate_def absolute_def lookup_components_def
        has_filename_def)
  with assms(1,4) mk ext show ?thesis
    by (auto simp: dir_create_def create_directories_def absolute_def split: if_splits)
qed

fun node_total :: "fs_node \<Rightarrow> nat" where
  "node_total (File k) = k"
| "node_total Special = 0"
| "node_total (Dir es) = sum_list (map (\<lambda>e. node_total (snd e)) es)"

lemma size_loop_total: "size_loop True es ret = ret + of_nat (sum_list (map (\<lambda>e. node_total (snd e)) es))"
  by (induction True es ret rule: size_loop.induct) (simp_all add: algebra_simps)

lemma size_loop_direct:
  "size_loop False es ret = ret + of_nat (sum_list (map (\<lambda>e. case snd e of File k \<Rightarrow> k | _ \<Rightarrow> 0) es))"
  by (induction False es ret rule: size_loop.induct) (simp_all add: algebra_simps)

lemma clear_entries_keeps:
  assumes "plain_path (dir_path d)" "fs_lookup (tree os) (components (dir_path d)) = Some u"
  shows "distinct (map fst (kept @ rest)) \<Longrightarrow> list_all (\<lambda>e. is_name (fst e)) rest \<Longrightarrow>
    clear_entries recurse d (map fst rest)
      (os\<lparr>tree := fs_change (\<lambda>_. Dir (kept @ rest)) (components (dir_path d)) (tree os)\<rparr>) =
    os\<lparr>tree := fs_change (\<lambda>_. Dir (kept @ filter (\<lambda>e. is_dir (snd e) \<and> \<not> recurse) rest)) (components (dir_path d)) (tree os)\<rparr>"
proof (induction rest arbitrary: kept)
  case (Cons e rest)
  obtain n t where e: "e = (n, t)" by fastforce
  let ?loc = "components (dir_path d)"
  let ?os = "\<lambda>es. os\<lparr>tree := fs_change (\<lambda>_. Dir es) ?loc (tree os)\<rparr>"
  have lk: "fs_lookup (tree (?os es)) ?loc = Some (Dir es)" for es using assms(2) by (simp add: fs_lookup_change)
  have n: "is_name n" "map_of (kept @ e # rest) n = Some t" "n \<notin> fst ` set (kept @ rest)"
    using Cons.prems e by (auto simp: map_add_def split: option.split dest: map_of_SomeD intro: rev_image_eqI)
  have abs: "is_absolute (dir_path d)" using assms(1) by (simp add: plain_path_def)
  note child = abs plain_path_locate [OF assms(1) lk] lk n(1)
  have dirp: "is_directory (?os (kept @ e # rest)) (path_append (dir_path d) n) = is_dir t"
    using status_child [OF child] n(2) by (simp add: is_directory_def)
  have "AList.delete n (kept @ e # rest) = AList.delete n kept @ AList.delete n rest" by (simp add: AList.delete_eq e)
  with n(3) have "AList.delete n (kept @ e # rest) = kept @ rest" by (simp add: image_Un)
  then have rem: "remove_all (path_append (dir_path d) n) (?os (kept @ e # rest)) = ?os (kept @ rest)"
    using locate_child [OF child] n(2) by (simp add: remove_all_def fs_change_change)
  show ?case
  proof (cases "is_dir t \<and> \<not> recurse")
    case True
    with dirp Cons.IH [of "kept @ [e]"] Cons.prems e show ?thesis by simp
  next
    case False
    with dirp rem Cons.IH [of kept] Cons.prems e show ?thesis by (auto simp: Let_def)
  qed
qed simp

text \<open>The entries of a directory after the missing ones among some names were made.\<close>

definition add_missing :: "string list \<Rightarrow> (string \<times> fs_node) list \<Rightarrow> (string \<times> fs_node) list" where
  "add_missing ns es = fold (\<lambda>n es. if map_of es n = None then AList.update n (Dir []) es else es) ns es"

lemma map_of_add_missing:
  "map_of (add_missing ns es) m = (case map_of es m of Some u \<Rightarrow> Some u | None \<Rightarrow> if m \<in> set ns then Some (Dir []) else None)"
  unfolding add_missing_def by (induction ns arbitrary: es) (auto simp: update_conv' split: option.splits)

lemma fs_extends_add_missing: "fs_extends (Dir es) (Dir (add_missing ns es))"
  unfolding add_missing_def
proof (induction ns arbitrary: es)
  case (Cons n ns)
  have "fs_extends (Dir es) (Dir (if map_of es n = None then AList.update n (Dir []) es else es))"
    using fs_extends_put_entry [of es n "Dir []"] by simp
  with Cons [of "if map_of es n = None then AList.update n (Dir []) es else es"] show ?case
    by (auto intro: fs_extends_trans)
qed simp

lemma deploy_all_makes:
  assumes "is_absolute (dir_path d)" "locate os (dir_path d) = Some loc" "fs_lookup (tree os) loc = Some (Dir es)"
    "list_all is_name ns" "list_all (\<lambda>n. case map_of es n of None \<Rightarrow> True | Some u \<Rightarrow> is_dir u) ns"
  shows "deploy_all d ns os = (Ret (), os\<lparr>tree := fs_change (\<lambda>_. Dir (add_missing ns es)) loc (tree os)\<rparr>)"
  using assms(2-)
proof (induction ns arbitrary: os es)
  case Nil
  then show ?case using fs_change_id [of "tree os" loc "Dir es" "\<lambda>_. Dir es"] by (simp add: add_missing_def)
next
  case (Cons n ns)
  let ?es = "if map_of es n = None then AList.update n (Dir []) es else es"
  let ?os = "os\<lparr>tree := fs_change (\<lambda>_. Dir ?es) loc (tree os)\<rparr>"
  have n: "is_name n" using Cons.prems by simp
  have keep: "fs_change (\<lambda>_. Dir es) loc (tree os) = tree os" using fs_change_id [OF Cons.prems(2)] by simp
  have put: "fs_change (put_entry n (Dir [])) loc (tree os) = fs_change (\<lambda>_. Dir (AList.update n (Dir []) es)) loc (tree os)"
    by (rule fs_change_cong [OF Cons.prems(2)]) simp
  have "dir_at d n os = new_Directory (path_append (dir_path d) n) os"
    using n by (auto simp: dir_at_def is_name_relative is_name_has_filename is_name_def)
  then have at: "\<exists>d'. dir_at d n os = (Ret d', ?os)"
    using new_Directory_child [OF assms(1) Cons.prems(1,2) n] Cons.prems(4) put keep by (auto split: option.splits)
  have ext: "fs_extends (tree os) (tree ?os)"
    using fs_extends_change [OF Cons.prems(2), of "\<lambda>_. Dir ?es"] fs_extends_add_missing [of es "[n]"]
    by (simp add: add_missing_def)
  have "deploy_all d ns ?os = (Ret (), ?os\<lparr>tree := fs_change (\<lambda>_. Dir (add_missing ns ?es)) loc (tree ?os)\<rparr>)"
  proof (rule Cons.IH)
    show "locate ?os (dir_path d) = Some loc" by (rule locate_extends [OF ext _ Cons.prems(1)]) simp
    show "fs_lookup (tree ?os) loc = Some (Dir ?es)" using Cons.prems(2) by (simp add: fs_lookup_change)
    show "list_all (\<lambda>n. case map_of ?es n of None \<Rightarrow> True | Some u \<Rightarrow> is_dir u) ns"
      using Cons.prems(4) by (auto simp: list_all_iff update_conv' split: option.splits if_splits)
  qed (use Cons.prems in simp)
  with at show ?case by (auto simp: fs_change_change add_missing_def)
qed

subsection \<open>Properties\<close>

text \<open>
  C10: A temporary directory leaves no trace: whatever is put in it or becomes of it while it lives, its destructor
  gives back the file system from before the constructor; in between it is a new empty directory.
\<close>

theorem temp_directory_cycle:
  assumes "is_absolute (current_path os)" and "new_TempDirectory ud base g os = (Ret (d, g'), os')"
  shows "\<exists>loc. locate os (dir_path d) = None \<and> locate os' (dir_path d) = Some loc \<and> fs_lookup (tree os') loc = Some (Dir [])
    \<and> (\<forall>f. delete_TempDirectory d (os'\<lparr>tree := fs_change f loc (tree os')\<rparr>) = os)"
proof -
  from assms(2) obtain p g1 where p: "get_unique_temporary_path ud os base g = Ret (p, g1)"
    and n: "new_Directory p os = (Ret d, os')"
    by (auto simp: new_TempDirectory_def split: run.splits prod.splits)
  from unique_path_in_base [OF p assms(1)] obtain b s where
    b: "p = path_append b s" "is_name s" "\<not> exists_path os p" "is_absolute b" "is_directory os b" by blast
  from is_directoryE [OF b(5)] obtain bl es where bl: "locate os b = Some bl" "fs_lookup (tree os) bl = Some (Dir es)" by blast
  note child = b(4) bl b(2)
  have new: "map_of es s = None" using b(1,3) status_child [OF child] by (simp add: exists_path_def)
  have d: "d = \<lparr>dir_path = p\<rparr>" "os' = os\<lparr>tree := fs_change (put_entry s (Dir [])) bl (tree os)\<rparr>"
    using n new new_Directory_child [OF child] b(1) by simp_all
  let ?os = "\<lambda>u. os\<lparr>tree := fs_change (put_entry s u) bl (tree os)\<rparr>"
  have at: "locate (?os u) p = Some (bl @ [s])" for u
  proof -
    have "fs_extends (tree os) (tree (?os u))"
      using fs_extends_change [OF bl(2), of "put_entry s u"] fs_extends_put_entry [OF new, of u] by simp
    from locate_extends [OF this _ bl(1)] have "locate (?os u) b = Some bl" by simp
    from locate_child [OF b(4) this _ b(2), of "AList.update s u es"] b(1) show ?thesis
      by (simp add: fs_lookup_change bl(2) update_conv')
  qed
  have "delete_TempDirectory d (os'\<lparr>tree := fs_change f (bl @ [s]) (tree os')\<rparr>) = os" for f
    using at [of "f (Dir [])"] put_then_drop [OF bl(2) new] put_then_change [OF bl(2)] d
    by (simp add: delete_TempDirectory_def remove_all_def)
  moreover have "fs_lookup (tree os') (bl @ [s]) = Some (Dir [])"
    using d(2) bl(2) by (simp add: fs_lookup_append fs_lookup_change update_conv')
  moreover have "locate os p = None" using locate_child [OF child] new b(1) by simp
  ultimately show ?thesis using at [of "Dir []"] d by auto
qed


theorem temp_directory_cycle_witness:
  "\<exists>d g' os' loc. new_TempDirectory (\<lambda>g :: nat. (g mod 36, Suc g)) (Some ''/tmp/..'') 5
      \<lparr>tree = Dir [(''tmp'', Dir [(''f'', File 3)]), (''x'', File 7)], current_path = ''/tmp'', environment = (\<lambda>_. []),
       temp_setting = ''/tmp'', exe_link = None\<rparr> = (Ret (d, g'), os') \<and> locate os' (dir_path d) = Some loc
    \<and> delete_TempDirectory d (os'\<lparr>tree := fs_change (put_entry ''new'' (File 9)) loc (tree os')\<rparr>) =
      \<lparr>tree = Dir [(''tmp'', Dir [(''f'', File 3)]), (''x'', File 7)], current_path = ''/tmp'', environment = (\<lambda>_. []),
       temp_setting = ''/tmp'', exe_link = None\<rparr>"
proof -
  let ?os = "\<lparr>tree = Dir [(''tmp'', Dir [(''f'', File 3)]), (''x'', File 7)], current_path = ''/tmp'', environment = (\<lambda>_. []),
    temp_setting = ''/tmp'', exe_link = None\<rparr>"
  let ?ud = "\<lambda>g :: nat. (g mod 36, Suc g)"
  have "case fst (new_TempDirectory ?ud (Some ''/tmp/..'') 5 ?os) of Ret r \<Rightarrow> True | _ \<Rightarrow> False" by code_simp
  then obtain d g' os' where n: "new_TempDirectory ?ud (Some ''/tmp/..'') 5 ?os = (Ret (d, g'), os')"
    by (cases "new_TempDirectory ?ud (Some ''/tmp/..'') 5 ?os") (auto split: run.splits)
  have "is_absolute (current_path ?os)" by (simp add: is_absolute_def slash_def)
  from temp_directory_cycle [OF this n] n show ?thesis by blast
qed

text \<open>
  The constructor never loses anything: every file stays as it is and every directory stays a directory, even when it
  throws half way. When it returns, the path is absolute and a directory stands there.
\<close>

theorem directory_constructed:
  assumes "is_absolute (current_path os)" and "is_dir (tree os)" and "new_Directory path os = (r, os')"
  shows "fs_extends (tree os) (tree os') \<and> (\<forall>d. r = Ret d \<longrightarrow> is_absolute (dir_path d) \<and> dir_exists os' d)"
proof -
  define p where "p = directory_path path os"
  have p: "is_absolute p"
    using assms(1) is_absolute_absolute [of os] by (auto simp: p_def directory_path_def is_absolute_def Let_def)
  obtain r1 os1 where c: "dir_create \<lparr>dir_path = p\<rparr> os = (r1, os1)" by fastforce
  from dir_create_outcome [OF p _ assms(2) c] show ?thesis
    using assms(3) p c by (auto simp: new_Directory_def p_def [symmetric] split: if_splits)
qed


theorem directory_constructed_witness:
  "\<exists>r os'. new_Directory ''data/sub'' \<lparr>tree = Dir [(''home'', Dir [(''f'', File 3)])], current_path = ''/home'',
      environment = (\<lambda>_. []), temp_setting = ''/tmp'', exe_link = None\<rparr> = (r, os')
    \<and> fs_extends (Dir [(''home'', Dir [(''f'', File 3)])]) (tree os') \<and> (\<exists>d. r = Ret d \<and> dir_exists os' d)"
proof -
  let ?os = "\<lparr>tree = Dir [(''home'', Dir [(''f'', File 3)])], current_path = ''/home'',
      environment = (\<lambda>_. []), temp_setting = ''/tmp'', exe_link = None\<rparr>"
  obtain r os' where n: "new_Directory ''data/sub'' ?os = (r, os')" by fastforce
  have "case fst (new_Directory ''data/sub'' ?os) of Ret d \<Rightarrow> True | _ \<Rightarrow> False" by code_simp
  with n have r: "\<exists>d. r = Ret d" by (auto split: run.splits)
  have "is_absolute (current_path ?os)" "is_dir (tree ?os)" by (simp_all add: is_absolute_def slash_def)
  from directory_constructed [OF this n] n r show ?thesis by auto
qed

text \<open>
  C39: \<^verbatim>\<open>clear\<close> removes exactly the entries of its directory, all of them when it recurses and those that are not
  directories when it does not, and touches nothing else; afterwards the directory is pristine just when nothing was kept.
\<close>

theorem dir_clear_correct:
  assumes "plain_path (dir_path d)" and "status os (dir_path d) = Some (Dir es)"
    and "distinct (map fst es)" and "list_all (\<lambda>e. is_name (fst e)) es"
    and "kept = filter (\<lambda>e. is_dir (snd e) \<and> \<not> recurse) es"
  shows "\<exists>os'. dir_clear recurse d os = (Ret (), os')
    \<and> os' = os\<lparr>tree := fs_change (\<lambda>_. Dir kept) (components (dir_path d)) (tree os)\<rparr>
    \<and> is_pristine os' d = Ret (kept = [])"
proof -
  let ?loc = "components (dir_path d)"
  have "locate os (dir_path d) = Some ?loc \<and> fs_lookup (tree os) ?loc = Some (Dir es)"
  proof -
    from assms(2) obtain l where l: "locate os (dir_path d) = Some l" "fs_lookup (tree os) l = Some (Dir es)"
      by (auto simp: status_def split: option.splits)
    have "l = ?loc" using locate_components [OF _ l(1)] assms(1) fs_walk_names by (auto simp: plain_path_def)
    with l show ?thesis by simp
  qed
  then have lk: "fs_lookup (tree os) ?loc = Some (Dir es)" by simp
  let ?os = "\<lambda>es. os\<lparr>tree := fs_change (\<lambda>_. Dir es) ?loc (tree os)\<rparr>"
  have "?os es = os" using fs_change_id [OF lk, of "\<lambda>_. Dir es"] by simp
  with clear_entries_keeps [OF assms(1) lk, of "[]" es recurse] assms(3,4,5)
  have "clear_entries recurse d (map fst es) os = ?os kept" by simp
  moreover have "is_pristine (?os kept) d = Ret (kept = [])"
  proof -
    have k: "fs_lookup (tree (?os kept)) ?loc = Some (Dir kept)" using lk by (simp add: fs_lookup_change)
    with plain_path_locate [OF assms(1) k] show ?thesis by (simp add: is_pristine_def status_def)
  qed
  ultimately show ?thesis using assms(2) by (simp add: dir_clear_def)
qed

theorem dir_clear_correct_witness:
  "\<exists>os'. dir_clear False \<lparr>dir_path = ''/d''\<rparr> \<lparr>tree = Dir [(''d'', Dir [(''f'', File 3), (''s'', Dir [])])], current_path = ''/'',
      environment = (\<lambda>_. []), temp_setting = ''/tmp'', exe_link = None\<rparr> = (Ret (), os')
    \<and> is_pristine os' \<lparr>dir_path = ''/d''\<rparr> = Ret False"
proof -
  let ?os = "\<lparr>tree = Dir [(''d'', Dir [(''f'', File 3), (''s'', Dir [])])], current_path = ''/'',
      environment = (\<lambda>_. []), temp_setting = ''/tmp'', exe_link = None\<rparr>"
  have "plain_path (dir_path \<lparr>dir_path = ''/d''\<rparr>)" by code_simp
  moreover have "status ?os (dir_path \<lparr>dir_path = ''/d''\<rparr>) = Some (Dir [(''f'', File 3), (''s'', Dir [])])" by code_simp
  ultimately show ?thesis
    using dir_clear_correct [of "\<lparr>dir_path = ''/d''\<rparr>" ?os "[(''f'', File 3), (''s'', Dir [])]" "[(''s'', Dir [])]" False]
    by (auto simp: is_name_def slash_def)
qed

text \<open>
  \<^verbatim>\<open>size\<close> adds up the sizes of the regular files, of the whole tree below when it recurses and of the directory alone
  when it does not, modulo \<open>2 ^ 64\<close>.
\<close>

theorem dir_size_correct:
  assumes "status os (dir_path d) = Some (Dir es)"
  shows "dir_size os d True = Ret (of_nat (node_total (Dir es)))
    \<and> dir_size os d False = Ret (of_nat (sum_list (map (\<lambda>e. case snd e of File k \<Rightarrow> k | _ \<Rightarrow> 0) es)))"
  using assms by (simp add: dir_size_def size_loop_total size_loop_direct)

theorem dir_size_correct_witness:
  "dir_size \<lparr>tree = Dir [(''d'', Dir [(''f'', File 3), (''s'', Dir [(''g'', File 4)])])], current_path = ''/'',
      environment = (\<lambda>_. []), temp_setting = ''/tmp'', exe_link = None\<rparr> \<lparr>dir_path = ''/d''\<rparr> True = Ret 7"
proof -
  let ?os = "\<lparr>tree = Dir [(''d'', Dir [(''f'', File 3), (''s'', Dir [(''g'', File 4)])])], current_path = ''/'',
      environment = (\<lambda>_. []), temp_setting = ''/tmp'', exe_link = None\<rparr>"
  have "status ?os (dir_path \<lparr>dir_path = ''/d''\<rparr>) = Some (Dir [(''f'', File 3), (''s'', Dir [(''g'', File 4)])])" by code_simp
  from dir_size_correct [OF this] show ?thesis by simp
qed

text \<open>
  Deploying a data directory in which the three names are free or taken by directories succeeds and makes exactly
  the missing ones among the three subdirectories, empty; nothing else in the file system changes.
\<close>

theorem deploy_correct:
  assumes "is_absolute (dir_path d)" and "locate os (dir_path d) = Some loc" and "fs_lookup (tree os) loc = Some (Dir es)"
    and "list_all (\<lambda>n. case map_of es n of None \<Rightarrow> True | Some u \<Rightarrow> is_dir u) [''chaindata'', ''etl-tmp'', ''nodes'']"
  shows "\<exists>es'. deploy d os = (Ret (), os\<lparr>tree := fs_change (\<lambda>_. Dir es') loc (tree os)\<rparr>)
    \<and> (\<forall>n. map_of es' n = (if map_of es n = None \<and> n \<in> {''chaindata'', ''etl-tmp'', ''nodes''} then Some (Dir []) else map_of es n))"
proof -
  have "list_all is_name [''chaindata'', ''etl-tmp'', ''nodes'']" by code_simp
  from deploy_all_makes [OF assms(1-3) this assms(4)] show ?thesis
    unfolding deploy_def
    by (intro exI [of _ "add_missing [''chaindata'', ''etl-tmp'', ''nodes''] es"])
      (auto simp: map_of_add_missing split: option.split)
qed

theorem deploy_correct_witness:
  "\<exists>es'. deploy \<lparr>dir_path = ''/d''\<rparr> \<lparr>tree = Dir [(''d'', Dir [(''nodes'', Dir [(''n'', File 3)])])], current_path = ''/'',
      environment = (\<lambda>_. []), temp_setting = ''/tmp'', exe_link = None\<rparr> =
      (Ret (), \<lparr>tree = Dir [(''d'', Dir es')], current_path = ''/'', environment = (\<lambda>_. []), temp_setting = ''/tmp'', exe_link = None\<rparr>)
    \<and> map_of es' ''chaindata'' = Some (Dir []) \<and> map_of es' ''nodes'' = Some (Dir [(''n'', File 3)])"
proof -
  let ?os = "\<lparr>tree = Dir [(''d'', Dir [(''nodes'', Dir [(''n'', File 3)])])], current_path = ''/'',
      environment = (\<lambda>_. []), temp_setting = ''/tmp'', exe_link = None\<rparr>"
  have "is_absolute (dir_path \<lparr>dir_path = ''/d''\<rparr>)" "locate ?os (dir_path \<lparr>dir_path = ''/d''\<rparr>) = Some [''d'']"
    "fs_lookup (tree ?os) [''d''] = Some (Dir [(''nodes'', Dir [(''n'', File 3)])])" by code_simp+
  from deploy_correct [OF this] show ?thesis by fastforce
qed

text \<open>
  The subdirectory operator accepts two dots, and then gives the parent instead of a subdirectory.
\<close>

theorem subdirectory_escapes:
  assumes "is_absolute (dir_path d)" and "locate os (dir_path d) = Some loc" and "fs_lookup (tree os) loc = Some (Dir es)"
  shows "dir_at d ''..'' os = (Ret \<lparr>dir_path = path_append (dir_path d) ''..''\<rparr>, os)
    \<and> locate os (path_append (dir_path d) ''..'') = Some (butlast loc)"
proof -
  let ?p = "path_append (dir_path d) ''..''"
  have rel: "\<not> is_absolute ''..''" "has_filename ''..''" "components ''..'' = [''..'']" by code_simp+
  have p: "is_absolute ?p" "?p \<noteq> []" "has_filename ?p"
    using assms(1) rel(2) by (simp_all add: is_absolute_append has_filename_append) (simp add: path_append_def is_absolute_def)
  from fs_lookup_parent [OF assms(3)] assms(3) obtain es' where up: "fs_lookup (tree os) (butlast loc) = Some (Dir es')"
    by (cases "loc = []") (auto simp: is_dir_iff)
  have l: "locate os ?p = Some (butlast loc)"
    using locate_components [OF assms(1,2)] p rel assms(3) up
    by (simp add: locate_def absolute_def lookup_components_def components_path_append fs_walk_append fs_step_def)
  then show ?thesis
    using up p rel by (simp add: dir_at_def new_Directory_def directory_path_def dir_create_def dir_exists_def exists_path_def
        is_directory_def status_def Let_def)
qed

theorem subdirectory_escapes_witness:
  "locate \<lparr>tree = Dir [(''d'', Dir [])], current_path = ''/'',
      environment = (\<lambda>_. []), temp_setting = ''/tmp'', exe_link = None\<rparr> (path_append ''/d'' ''..'') = Some []"
proof -
  let ?os = "\<lparr>tree = Dir [(''d'', Dir [])], current_path = ''/'',
      environment = (\<lambda>_. []), temp_setting = ''/tmp'', exe_link = None\<rparr>"
  have "is_absolute (dir_path \<lparr>dir_path = ''/d''\<rparr>)" "locate ?os (dir_path \<lparr>dir_path = ''/d''\<rparr>) = Some [''d'']"
    "fs_lookup (tree ?os) [''d''] = Some (Dir [])" by code_simp+
  from subdirectory_escapes [OF this] show ?thesis by simp
qed

end
