(* ===== verification/Db_Open.thy ===== *)
theory Db_Open
  imports Db_Layer Human_Bytes File_System
begin

section \<open>Opening an environment\<close>

text \<open>
  \<^verbatim>\<open>open_env\<close> of \<^verbatim>\<open>zen/node/database/mdbx.cpp\<close>, over the file system of \<open>File_System\<close>. libmdbx is a parameter, the record \<open>Env_ops\<close>;
  \<open>Inl what\<close> is an \<^verbatim>\<open>mdbx::exception\<close>. Its flags are fields, options are given by name, and a field \<open>None\<close> of the geometry is
  libmdbx's default. The locale \<open>mdbx_env\<close> states what creating an environment in an empty directory does.
\<close>

subsection \<open>Operations\<close>

record EnvConfig =
  cfg_path :: string
  cfg_create :: bool
  cfg_readonly :: bool
  cfg_exclusive :: bool
  cfg_inmemory :: bool
  cfg_shared :: bool
  cfg_read_ahead :: bool
  cfg_write_map :: bool
  cfg_page_size :: u64
  cfg_max_size :: u64
  cfg_growth_size :: u64
  cfg_max_tables :: u32
  cfg_max_readers :: u32

definition default_EnvConfig :: EnvConfig where
  "default_EnvConfig =
     \<lparr>cfg_path = [], cfg_create = False, cfg_readonly = False, cfg_exclusive = False, cfg_inmemory = False,
      cfg_shared = False, cfg_read_ahead = False, cfg_write_map = False, cfg_page_size = lit_KiB 4,
      cfg_max_size = lit_TiB 3, cfg_growth_size = lit_GiB 2, cfg_max_tables = 128, cfg_max_readers = 100\<rparr>"

record Geometry =
  size_upper :: "int option"
  growth_step :: "int option"
  pagesize :: "int option"

record 'e Env_ops =
  f_NOTLS :: u32
  f_NORDAHEAD :: u32
  f_COALESCE :: u32
  f_SYNC_DURABLE :: u32
  f_RDONLY :: u32
  f_NOMETASYNC :: u32
  f_EXCLUSIVE :: u32
  f_ACCEDE :: u32
  f_WRITEMAP :: u32
  env_managed :: "string \<Rightarrow> Geometry \<Rightarrow> u32 \<Rightarrow> u32 \<Rightarrow> u32 \<Rightarrow> bool \<Rightarrow> Os \<Rightarrow> (string + 'e) \<times> Os"
  get_pagesize :: "'e \<Rightarrow> u64"
  env_set_option :: "string \<Rightarrow> u64 \<Rightarrow> 'e \<Rightarrow> string + 'e"
  env_get_option :: "string \<Rightarrow> 'e \<Rightarrow> string + u64"
  check_readers :: "'e \<Rightarrow> string + 'e"

definition kDbDataFileName :: string where
  "kDbDataFileName = ''mdbx.dat''"

definition get_datafile_path :: "string \<Rightarrow> string" where
  "get_datafile_path base_path = path_append base_path kDbDataFileName"

definition env_flags :: "'e Env_ops \<Rightarrow> EnvConfig \<Rightarrow> u32" where
  "env_flags M config =
     (let flags = or (or (or (f_NOTLS M) (f_NORDAHEAD M)) (f_COALESCE M)) (f_SYNC_DURABLE M);
          flags = (if cfg_read_ahead config then and flags (not (f_NORDAHEAD M)) else flags);
          flags = (if cfg_readonly config then or flags (f_RDONLY M) else flags);
          flags = (if cfg_inmemory config then or flags (f_NOMETASYNC M) else flags);
          flags = (if cfg_exclusive config then or flags (f_EXCLUSIVE M) else flags);
          flags = (if cfg_shared config then or flags (f_ACCEDE M) else flags)
      in if cfg_write_map config then or flags (f_WRITEMAP M) else flags)"

definition env_geometry :: "EnvConfig \<Rightarrow> u64 \<Rightarrow> Geometry" where
  "env_geometry config db_ondisk_file_size =
     (if cfg_shared config then \<lparr>size_upper = None, growth_step = None, pagesize = None\<rparr>
      else \<lparr>size_upper = Some (sint (if cfg_inmemory config then lit_MiB 128 else cfg_max_size config)),
            growth_step = Some (sint (if cfg_inmemory config then lit_MiB 8 else cfg_growth_size config)),
            pagesize = (if db_ondisk_file_size = 0 then Some (sint (cfg_page_size config)) else None)\<rparr>)"

definition set_options :: "'e Env_ops \<Rightarrow> EnvConfig \<Rightarrow> 'e \<Rightarrow> 'e run" where
  "set_options M config e =
     (if cfg_shared config then Ret e
      else
        run_bind (mdbx_call (env_set_option M ''rp_augment_limit'' (lit_MiB 32) e)) (\<lambda>e.
        if cfg_readonly config then Ret e
        else
          run_bind (mdbx_call (env_set_option M ''txn_dp_initial'' (lit_KiB 16) e)) (\<lambda>e.
          run_bind (mdbx_call (env_set_option M ''dp_reserve_limit'' (lit_KiB 16) e)) (\<lambda>e.
          run_bind (mdbx_call (env_get_option M ''txn_dp_limit'' e)) (\<lambda>dirty_pages_limit.
          run_bind (mdbx_call (env_set_option M ''txn_dp_limit'' (dirty_pages_limit * 2) e)) (\<lambda>e.
          mdbx_call (env_set_option M ''merge_threshold_16dot16_percent'' (lit_KiB 32) e)))))))"

definition mdbx_sys :: "(string + 'a) \<times> 's \<Rightarrow> 'a run \<times> 's" where
  "mdbx_sys r = (mdbx_call (fst r), snd r)"

definition prepare_dir :: "string \<Rightarrow> Os \<Rightarrow> unit run \<times> Os" where
  "prepare_dir db_path os =
     (if \<not> exists_path os db_path then create_directories db_path os
      else if \<not> is_directory os db_path then (Throw (Runtime_error (''Path '' @ db_path @ '' is not valid'')), os)
      else (Ret (), os))"

definition ondisk_file_size :: "string \<Rightarrow> Os \<Rightarrow> u64 run" where
  "ondisk_file_size db_file os = (if exists_path os db_file then file_size os db_file else Ret 0)"

definition check_config :: "'d Float_ops \<Rightarrow> EnvConfig \<Rightarrow> string \<Rightarrow> u64 \<Rightarrow> unit run" where
  "check_config F config db_file db_ondisk_file_size =
     (if \<not> cfg_create config \<and> db_ondisk_file_size = 0
      then Throw (Runtime_error (''Unable to locate '' @ db_file @ '', which is required to exist''))
      else if cfg_create config \<and> db_ondisk_file_size \<noteq> 0
      then Throw (Runtime_error (''File '' @ db_file @ '' already exists but create was set''))
      else if db_ondisk_file_size > cfg_max_size config
      then run_bind (to_human_bytes F db_ondisk_file_size False) (\<lambda>h.
           Throw (Ios_failure (''Database map size is too small. Min required '' @ h)))
      else if cfg_exclusive config \<and> cfg_shared config
      then Throw (Invalid_argument ''Exclusive conflicts with Shared'')
      else if cfg_create config \<and> cfg_shared config
      then Throw (Invalid_argument ''Create conflicts with Shared'')
      else if cfg_create config \<and> cfg_readonly config
      then Throw (Invalid_argument ''Create conflicts with Readonly'')
      else Ret ())"

definition check_page_size :: "'e Env_ops \<Rightarrow> 'd Float_ops \<Rightarrow> EnvConfig \<Rightarrow> 'e \<Rightarrow> unit run" where
  "check_page_size M F config e =
     (if get_pagesize M e \<noteq> cfg_page_size config
      then run_bind (to_human_bytes F (cfg_page_size config) False) (\<lambda>h1.
           run_bind (to_human_bytes F (get_pagesize M e) False) (\<lambda>h2.
           Throw (Length_error (''Incompatible page size. Requested '' @ h1 @ '' db has '' @ h2))))
      else Ret ())"

definition open_env :: "'e Env_ops \<Rightarrow> 'd Float_ops \<Rightarrow> EnvConfig \<Rightarrow> Os \<Rightarrow> 'e run \<times> Os" where
  "open_env M F config os =
     (if cfg_path config = [] then (Throw (Invalid_argument ''Invalid argument : config.path''), os)
      else
        let db_path = cfg_path config @ (if has_filename (cfg_path config) then [slash] else []) in
        sys_bind (prepare_dir db_path os) (\<lambda>_ os.
        let db_file = get_datafile_path db_path in
        sys_bind (ondisk_file_size db_file os, os) (\<lambda>db_ondisk_file_size os.
        sys_bind (check_config F config db_file db_ondisk_file_size, os) (\<lambda>_ os.
        sys_bind (mdbx_sys (env_managed M db_path (env_geometry config db_ondisk_file_size) (env_flags M config)
               (cfg_max_tables config) (cfg_max_readers config) (cfg_shared config) os)) (\<lambda>e os.
          (run_bind (check_page_size M F config e) (\<lambda>_.
           run_bind (set_options M config e) (\<lambda>e.
           if cfg_inmemory config then Ret e else mdbx_call (check_readers M e))), os))))))"

subsection \<open>Lemmas\<close>

lemma mdbx_call_Ret: "mdbx_call r = Ret a \<longleftrightarrow> r = Inr a"
  by (cases r) (simp_all add: mdbx_call_def)

lemma mdbx_sys_Ret: "mdbx_sys r = (Ret a, s) \<longleftrightarrow> r = (Inr a, s)"
  by (cases r) (simp add: mdbx_sys_def mdbx_call_Ret)

text \<open>A path with a trailing slash exists only as a directory.\<close>

lemma exists_slash:
  assumes "\<not> has_filename p" "exists_path os p"
  shows "is_directory os p"
proof -
  from assms(2) obtain loc where loc: "locate os p = Some loc" by (auto simp: exists_path_def status_def split: option.splits)
  then have "p \<noteq> []" by (auto simp: locate_def)
  then have "\<not> has_filename (absolute os p)"
    using assms(1) by (auto simp: absolute_def has_filename_append)
  with loc obtain l where "fs_walk (tree os) l [''.''] = Some loc"
    by (auto simp: locate_def lookup_components_def fs_walk_append Option.bind_eq_Some_conv split: if_splits)
  then show ?thesis
    using loc by (auto simp: is_directory_def status_def fs_step_def split: option.splits fs_node.splits if_splits)
qed

lemma locate_slash:
  assumes "is_absolute p" "locate os p = Some loc" "fs_lookup (tree os) loc = Some (Dir es)"
  shows "locate os (p @ [slash]) = Some loc"
proof -
  have "components (p @ [slash]) = components p"
    using components_slash [of p "[]"] by (simp add: components_def)
  moreover have "is_absolute (p @ [slash])" "\<not> has_filename (p @ [slash])"
    using assms(1) by (auto simp: is_absolute_def has_filename_def)
  ultimately show ?thesis
    using locate_components [OF assms(1,2)] assms(3)
    by (simp add: locate_def absolute_def lookup_components_def fs_walk_append fs_step_def)
qed

lemma data_file_is_name: "is_name kDbDataFileName"
  by (simp add: kDbDataFileName_def is_name_def slash_def)

text \<open>The directory of the configuration, with its trailing slash, and the data file in it.\<close>

definition db_dir :: "EnvConfig \<Rightarrow> string" where
  "db_dir config = cfg_path config @ (if has_filename (cfg_path config) then [slash] else [])"

lemma db_dir_slash: "cfg_path config \<noteq> [] \<Longrightarrow> \<not> has_filename (db_dir config)"
  by (auto simp: db_dir_def has_filename_def)

lemma db_dir_locate:
  assumes "is_absolute (cfg_path config)" "locate os (cfg_path config) = Some loc" "fs_lookup (tree os) loc = Some (Dir es)"
  shows "locate os (db_dir config) = Some loc" "is_absolute (db_dir config)"
  using assms locate_slash [OF assms] by (auto simp: db_dir_def is_absolute_def)

lemma data_file_status:
  assumes "is_absolute (cfg_path config)" "locate os (cfg_path config) = Some loc" "fs_lookup (tree os) loc = Some (Dir es)"
  shows "status os (get_datafile_path (db_dir config)) = map_of es kDbDataFileName"
  unfolding get_datafile_path_def
  by (rule status_child [OF db_dir_locate(2) [OF assms] db_dir_locate(1) [OF assms] assms(3) data_file_is_name])

lemma prepare_existing: "is_directory os p \<Longrightarrow> prepare_dir p os = (Ret (), os)"
  by (auto simp: prepare_dir_def is_directory_def exists_path_def split: option.splits)

lemma open_env_existing:
  assumes "cfg_path config \<noteq> []" "is_directory os (db_dir config)"
    "ondisk_file_size (get_datafile_path (db_dir config)) os = Ret sz"
  shows "open_env M F config os =
    sys_bind (check_config F config (get_datafile_path (db_dir config)) sz, os) (\<lambda>_ os.
      sys_bind (mdbx_sys (env_managed M (db_dir config) (env_geometry config sz) (env_flags M config)
             (cfg_max_tables config) (cfg_max_readers config) (cfg_shared config) os)) (\<lambda>e os.
        (run_bind (check_page_size M F config e) (\<lambda>_.
         run_bind (set_options M config e) (\<lambda>e.
         if cfg_inmemory config then Ret e else mdbx_call (check_readers M e))), os)))"
  using assms prepare_existing [OF assms(2)]
  by (simp add: open_env_def db_dir_def [symmetric] Let_def)

subsection \<open>The contract of an environment\<close>

text \<open>
  libmdbx refuses option values out of range (\<open>in_range\<close>); for the merge threshold the range is documented, from an eighth to a half in
  units of 1/65536. \<open>accepts\<close> tells which geometry, number of tables and number of readers it takes. \<open>dp_limit\<close> is the limit of dirty
  pages of an environment, \<open>dp_default\<close> what a new one has.
\<close>

locale mdbx_env =
  fixes M :: "'e Env_ops" and accepts :: "Geometry \<Rightarrow> u32 \<Rightarrow> u32 \<Rightarrow> bool" and in_range :: "string \<Rightarrow> u64 \<Rightarrow> bool"
    and dp_limit :: "'e \<Rightarrow> u64" and dp_default :: u64
  assumes create_law: "locate os dir = Some loc \<Longrightarrow> fs_lookup (tree os) loc = Some (Dir es) \<Longrightarrow>
      map_of es kDbDataFileName = None \<Longrightarrow> accepts g mt mr \<Longrightarrow> pagesize g = Some n \<Longrightarrow> and fl (f_RDONLY M) = 0 \<Longrightarrow>
      \<exists>e os' k. env_managed M dir g fl mt mr False os = (Inr e, os') \<and> get_pagesize M e = word_of_int n \<and> dp_limit e = dp_default
        \<and> fs_extends (tree os) (tree os') \<and> current_path os' = current_path os
        \<and> 0 < k \<and> k < 2 ^ 64 \<and> fs_lookup (tree os') (loc @ [kDbDataFileName]) = Some (File k)"
    and set_law: "in_range opt v \<Longrightarrow> \<exists>e'. env_set_option M opt v e = Inr e' \<and> get_pagesize M e' = get_pagesize M e
        \<and> dp_limit e' = (if opt = ''txn_dp_limit'' then v else dp_limit e)"
    and refuse_law: "\<not> in_range opt v \<Longrightarrow> \<exists>what. env_set_option M opt v e = Inl what"
    and merge_law: "in_range ''merge_threshold_16dot16_percent'' v \<longleftrightarrow> 8192 \<le> v \<and> v \<le> 32768"
    and get_law: "env_get_option M ''txn_dp_limit'' e = Inr (dp_limit e)"
    and readers_law: "\<exists>e'. check_readers M e = Inr e' \<and> get_pagesize M e' = get_pagesize M e \<and> dp_limit e' = dp_limit e"
    and flags_law: "and (or (or (or (f_NOTLS M) (f_NORDAHEAD M)) (f_COALESCE M)) (f_SYNC_DURABLE M)) (f_RDONLY M) = 0"
      "and (f_NOMETASYNC M) (f_RDONLY M) = 0" "and (f_EXCLUSIVE M) (f_RDONLY M) = 0" "and (f_ACCEDE M) (f_RDONLY M) = 0"
      "and (f_WRITEMAP M) (f_RDONLY M) = 0"

text \<open>The values the node asks for, other than the merge threshold, must be in range: 32 Mi, 16 Ki twice, and twice the default limit.\<close>

definition values_in_range :: "(string \<Rightarrow> u64 \<Rightarrow> bool) \<Rightarrow> u64 \<Rightarrow> bool" where
  "values_in_range in_range dp \<longleftrightarrow>
     in_range ''rp_augment_limit'' 33554432 \<and> in_range ''txn_dp_initial'' 16384 \<and> in_range ''dp_reserve_limit'' 16384
     \<and> in_range ''txn_dp_limit'' (dp * 2)"

context mdbx_env
begin

lemma set_call:
  assumes "in_range opt v"
  obtains e' where "mdbx_call (env_set_option M opt v e) = Ret e'" "get_pagesize M e' = get_pagesize M e"
    "dp_limit e' = (if opt = ''txn_dp_limit'' then v else dp_limit e)"
  using set_law [OF assms, of e] by (auto simp: mdbx_call_def)

lemma set_options_ok:
  assumes "values_in_range in_range (dp_limit e)" "\<not> cfg_shared config" "\<not> cfg_readonly config"
  shows "\<exists>e'. set_options M config e = Ret e' \<and> get_pagesize M e' = get_pagesize M e \<and> dp_limit e' = dp_limit e * 2"
proof -
  have u: "lit_MiB 32 = 33554432" "lit_KiB 16 = 16384" "lit_KiB 32 = 32768"
    by (simp_all add: lit_MiB_def kMiB_def lit_KiB_def kKiB_def)
  have merge: "in_range ''merge_threshold_16dot16_percent'' (lit_KiB 32)" unfolding merge_law u by simp
  note ok = assms(1) [unfolded values_in_range_def, folded u]
  obtain e1 where e1: "mdbx_call (env_set_option M ''rp_augment_limit'' (lit_MiB 32) e) = Ret e1"
    "get_pagesize M e1 = get_pagesize M e" "dp_limit e1 = dp_limit e"
    using set_call [of "''rp_augment_limit''" "lit_MiB 32" e] ok by auto
  obtain e2 where e2: "mdbx_call (env_set_option M ''txn_dp_initial'' (lit_KiB 16) e1) = Ret e2"
    "get_pagesize M e2 = get_pagesize M e1" "dp_limit e2 = dp_limit e1"
    using set_call [of "''txn_dp_initial''" "lit_KiB 16" e1] ok by auto
  obtain e3 where e3: "mdbx_call (env_set_option M ''dp_reserve_limit'' (lit_KiB 16) e2) = Ret e3"
    "get_pagesize M e3 = get_pagesize M e2" "dp_limit e3 = dp_limit e2"
    using set_call [of "''dp_reserve_limit''" "lit_KiB 16" e2] ok by auto
  have v: "mdbx_call (env_get_option M ''txn_dp_limit'' e3) = Ret (dp_limit e)" using e1 e2 e3 by (simp add: get_law mdbx_call_def)
  obtain e4 where e4: "mdbx_call (env_set_option M ''txn_dp_limit'' (dp_limit e * 2) e3) = Ret e4"
    "get_pagesize M e4 = get_pagesize M e3" "dp_limit e4 = dp_limit e * 2"
    using set_call [of "''txn_dp_limit''" "dp_limit e * 2" e3] ok by auto
  obtain e5 where e5: "mdbx_call (env_set_option M ''merge_threshold_16dot16_percent'' (lit_KiB 32) e4) = Ret e5"
    "get_pagesize M e5 = get_pagesize M e4" "dp_limit e5 = dp_limit e4"
    using set_call [OF merge, of e4] by auto
  from e1 e2 e3 v e4 e5 assms(2,3) show ?thesis by (simp add: set_options_def)
qed

lemma env_flags_writable: "\<not> cfg_readonly config \<Longrightarrow> and (env_flags M config) (f_RDONLY M) = 0"
proof -
  have o: "and x (f_RDONLY M) = 0 \<Longrightarrow> and y (f_RDONLY M) = 0 \<Longrightarrow> and (or x y) (f_RDONLY M) = 0" for x y
    by (simp add: bit.conj_disj_distrib2)
  have a: "and x (f_RDONLY M) = 0 \<Longrightarrow> and (and x y) (f_RDONLY M) = 0" for x y
    by (metis and.assoc and.commute bit.conj_zero_right)
  show "\<not> cfg_readonly config \<Longrightarrow> and (env_flags M config) (f_RDONLY M) = 0"
    unfolding env_flags_def Let_def using flags_law by (auto intro!: o a)
qed

lemma open_env_creates:
  assumes "is_absolute (cfg_path config)" "locate os (cfg_path config) = Some loc" "fs_lookup (tree os) loc = Some (Dir es)"
    "map_of es kDbDataFileName = None" "cfg_create config" "\<not> cfg_shared config" "\<not> cfg_readonly config"
    "accepts (env_geometry config 0) (cfg_max_tables config) (cfg_max_readers config)" "values_in_range in_range dp_default"
  shows "\<exists>e os' k. open_env M F config os = (Ret e, os') \<and> get_pagesize M e = cfg_page_size config \<and> dp_limit e = dp_default * 2
    \<and> fs_extends (tree os) (tree os') \<and> current_path os' = current_path os \<and> 0 < k \<and> k < 2 ^ 64
    \<and> fs_lookup (tree os') (loc @ [kDbDataFileName]) = Some (File k)"
proof -
  have path: "cfg_path config \<noteq> []" using assms(1) by (auto simp: is_absolute_def)
  have dir: "is_directory os (db_dir config)"
    using db_dir_locate(1) [OF assms(1-3)] assms(3) by (simp add: is_directory_def status_def)
  have size: "ondisk_file_size (get_datafile_path (db_dir config)) os = Ret 0"
    using data_file_status [OF assms(1-3)] assms(4) by (simp add: ondisk_file_size_def exists_path_def)
  have check: "check_config F config (get_datafile_path (db_dir config)) 0 = Ret ()"
    using assms(5-7) by (simp add: check_config_def)
  have "pagesize (env_geometry config 0) = Some (sint (cfg_page_size config))" using assms(6) by (simp add: env_geometry_def)
  from create_law [OF db_dir_locate(1) [OF assms(1-3)] assms(3,4,8) this env_flags_writable [OF assms(7)]]
  obtain e os' k where m: "env_managed M (db_dir config) (env_geometry config 0) (env_flags M config) (cfg_max_tables config)
      (cfg_max_readers config) False os = (Inr e, os')" "get_pagesize M e = cfg_page_size config" "dp_limit e = dp_default"
      "fs_extends (tree os) (tree os')" "current_path os' = current_path os" "0 < k" "k < 2 ^ 64"
      "fs_lookup (tree os') (loc @ [kDbDataFileName]) = Some (File k)"
    by fastforce
  obtain e1 where e1: "set_options M config e = Ret e1" "get_pagesize M e1 = get_pagesize M e" "dp_limit e1 = dp_default * 2"
    using set_options_ok [of e config] assms(6,7,9) m(3) by auto
  obtain e2 where e2: "check_readers M e1 = Inr e2" "get_pagesize M e2 = get_pagesize M e1" "dp_limit e2 = dp_limit e1"
    using readers_law by blast
  have "open_env M F config os = (Ret (if cfg_inmemory config then e1 else e2), os')"
    using open_env_existing [OF path dir size, of M F] check m(1,2) e1 e2 assms(6)
    by (simp add: check_page_size_def mdbx_call_def mdbx_sys_def)
  with m e1 e2 show ?thesis by auto
qed

end

lemma open_env_create_twice:
  assumes "is_absolute (cfg_path config)" "locate os (cfg_path config) = Some loc" "fs_lookup (tree os) loc = Some (Dir es)"
    "map_of es kDbDataFileName = Some (File k)" "0 < k" "k < 2 ^ 64" "cfg_create config"
  shows "open_env M F config os =
    (Throw (Runtime_error (''File '' @ get_datafile_path (db_dir config) @ '' already exists but create was set'')), os)"
proof -
  have path: "cfg_path config \<noteq> []" using assms(1) by (auto simp: is_absolute_def)
  have dir: "is_directory os (db_dir config)"
    using db_dir_locate(1) [OF assms(1-3)] assms(3) by (simp add: is_directory_def status_def)
  have size: "ondisk_file_size (get_datafile_path (db_dir config)) os = Ret (of_nat k)"
    using data_file_status [OF assms(1-3)] assms(4) by (simp add: ondisk_file_size_def exists_path_def file_size_def)
  have "(of_nat k :: u64) \<noteq> 0" using assms(5,6) by (auto simp: word_of_nat_eq_0_iff dest: dvd_imp_le)
  then show ?thesis
    using open_env_existing [OF path dir size, of M F] assms(7) by (simp add: check_config_def)
qed

text \<open>An environment that remembers its page size and the limit of dirty pages; the data file appears when it is created.\<close>

definition ref_in_range :: "string \<Rightarrow> u64 \<Rightarrow> bool" where
  "ref_in_range opt v \<longleftrightarrow> (opt = ''merge_threshold_16dot16_percent'' \<longrightarrow> 8192 \<le> v \<and> v \<le> 32768)"

definition ref_env_ops :: "(u64 \<times> u64) Env_ops" where
  "ref_env_ops =
     \<lparr>f_NOTLS = 0x200000, f_NORDAHEAD = 0x800000, f_COALESCE = 0x2000000,
      f_SYNC_DURABLE = 0, f_RDONLY = 0x20000, f_NOMETASYNC = 0x40000, f_EXCLUSIVE = 0x400000, f_ACCEDE = 0x40000000,
      f_WRITEMAP = 0x80000,
      env_managed = (\<lambda>dir g fl mt mr sh os.
        case locate os dir of
          None \<Rightarrow> (Inl ''ENOENT'', os)
        | Some loc \<Rightarrow>
            if fs_lookup (tree os) (loc @ [kDbDataFileName]) = None
            then (Inr (case pagesize g of None \<Rightarrow> 4096 | Some n \<Rightarrow> word_of_int n, 65536),
                  os\<lparr>tree := fs_change (put_entry kDbDataFileName (File 65536)) loc (tree os)\<rparr>)
            else (Inr (4096, 65536), os)),
      get_pagesize = fst,
      env_set_option = (\<lambda>opt v e. if ref_in_range opt v then Inr (fst e, if opt = ''txn_dp_limit'' then v else snd e) else Inl ''EINVAL''),
      env_get_option = (\<lambda>opt e. Inr (snd e)),
      check_readers = Inr\<rparr>"

interpretation ref_env: mdbx_env ref_env_ops "\<lambda>g mt mr. True" ref_in_range snd 65536
proof unfold_locales
  fix os dir loc es and g :: Geometry and n fl mt mr
  assume a: "locate os dir = Some loc" "fs_lookup (tree os) loc = Some (Dir es)" "map_of es kDbDataFileName = None" "pagesize g = Some n"
  show "\<exists>e os' k. env_managed ref_env_ops dir g fl mt mr False os = (Inr e, os') \<and> get_pagesize ref_env_ops e = word_of_int n
        \<and> snd e = 65536
        \<and> fs_extends (tree os) (tree os') \<and> current_path os' = current_path os
        \<and> 0 < k \<and> k < 2 ^ 64 \<and> fs_lookup (tree os') (loc @ [kDbDataFileName]) = Some (File k)"
    using a fs_extends_change [OF a(2), of "put_entry kDbDataFileName (File 65536)"] fs_extends_put_entry [OF a(3), of "File 65536"]
    by (simp add: ref_env_ops_def fs_lookup_append fs_lookup_change update_conv')
qed (simp_all add: ref_env_ops_def ref_in_range_def)

subsection \<open>What the configuration asks for\<close>

text \<open>The flags and the geometry, written down apart from the code.\<close>

definition wanted_flags :: "'e Env_ops \<Rightarrow> EnvConfig \<Rightarrow> u32" where
  "wanted_flags M config =
     foldr or (map snd (filter fst
       [(True, f_NOTLS M), (True, f_COALESCE M), (True, f_SYNC_DURABLE M), (\<not> cfg_read_ahead config, f_NORDAHEAD M),
        (cfg_readonly config, f_RDONLY M), (cfg_inmemory config, f_NOMETASYNC M), (cfg_exclusive config, f_EXCLUSIVE M),
        (cfg_shared config, f_ACCEDE M), (cfg_write_map config, f_WRITEMAP M)])) 0"

definition wanted_geometry :: "EnvConfig \<Rightarrow> u64 \<Rightarrow> Geometry \<Rightarrow> bool" where
  "wanted_geometry config sz g \<longleftrightarrow>
     (if cfg_shared config then size_upper g = None \<and> growth_step g = None \<and> pagesize g = None
      else (if cfg_inmemory config then size_upper g = Some 134217728 \<and> growth_step g = Some 8388608
            else size_upper g = Some (sint (cfg_max_size config)) \<and> growth_step g = Some (sint (cfg_growth_size config)))
        \<and> (sz = 0 \<longrightarrow> pagesize g = Some (sint (cfg_page_size config))) \<and> (sz \<noteq> 0 \<longrightarrow> pagesize g = None))"

lemma env_flags_wanted:
  assumes "and (or (or (f_NOTLS M) (f_COALESCE M)) (f_SYNC_DURABLE M)) (f_NORDAHEAD M) = 0"
  shows "env_flags M config = wanted_flags M config"
proof -
  have a: "and (or (or (or (f_NOTLS M) (f_NORDAHEAD M)) (f_COALESCE M)) (f_SYNC_DURABLE M)) (not (f_NORDAHEAD M))
      = or (or (f_NOTLS M) (f_COALESCE M)) (f_SYNC_DURABLE M)"
    using assms by (auto simp: bit_eq_iff bit_simps)
  show ?thesis unfolding env_flags_def wanted_flags_def Let_def a by (simp add: or.assoc or.left_commute or.commute)
qed

lemma env_geometry_wanted: "wanted_geometry config sz (env_geometry config sz)"
  by (simp add: wanted_geometry_def env_geometry_def lit_MiB_def kMiB_def kKiB_def)

text \<open>The directory is there once it was prepared, and nothing else changed.\<close>

lemma prepare_dir_done:
  assumes "prepare_dir p os = (Ret (), os')" "p \<noteq> []" "\<not> has_filename p" "is_dir (tree os)"
  shows "is_directory os' p \<and> fs_extends (tree os) (tree os') \<and> (is_directory os p \<longrightarrow> os' = os)"
proof (cases "exists_path os p")
  case True
  with assms(1) show ?thesis by (auto simp: prepare_dir_def split: if_splits)
next
  case False
  then obtain t where m: "make_dirs (tree os) [] (components (absolute os p)) = (t, True)" and os': "os' = os\<lparr>tree := t\<rparr>"
    using assms(1) by (auto simp: prepare_dir_def create_directories_def split: prod.splits if_splits)
  have ext: "fs_extends (tree os) t" using make_dirs_extends [of "tree os" "[]" "components (absolute os p)"] m by simp
  obtain es where "fs_lookup (tree os) [] = Some (Dir es)" using assms(4) by (auto simp: is_dir_iff)
  from make_dirs_walk [OF m this] obtain loc es' where
    l: "fs_walk t [] (components (absolute os p)) = Some loc" "fs_lookup t loc = Some (Dir es')" by blast
  have "\<not> has_filename (absolute os p)" using assms(2,3) by (auto simp: absolute_def has_filename_append)
  moreover have "absolute os' p = absolute os p" "tree os' = t" by (simp_all add: os' absolute_def)
  ultimately have "locate os' p = Some loc"
    using l assms(2) by (simp add: locate_def lookup_components_def fs_walk_append fs_step_def)
  then have "is_directory os' p" using l(2) by (simp add: is_directory_def status_def \<open>tree os' = t\<close>)
  moreover have "\<not> is_directory os p" using False by (auto simp: is_directory_def exists_path_def split: option.splits)
  ultimately show ?thesis using ext by (simp add: os')
qed

subsection \<open>Properties\<close>



text \<open>
  When the configured path names a file that is not a directory, \<^verbatim>\<open>open_env\<close> throws the file system error of
  \<^verbatim>\<open>create_directories\<close>, never its own message that the path is not valid, and changes nothing: with the separator it appends, a path exists only as a
  directory, so the check after \<^verbatim>\<open>fs::exists\<close> cannot fail.
\<close>

theorem open_env_on_file:
  assumes "is_absolute (cfg_path config)" and "has_filename (cfg_path config)"
    and "status os (cfg_path config) = Some u" and "\<not> is_dir u"
  shows "open_env M F config os = (Throw (Filesystem_error ''cannot create directories''), os)
    \<and> (\<forall>os p. fst (prepare_dir (db_dir config) os) \<noteq> Throw (Runtime_error (''Path '' @ p @ '' is not valid'')))"
proof -
  have path: "cfg_path config \<noteq> []" using assms(1) by (auto simp: is_absolute_def)
  have d: "db_dir config = cfg_path config @ [slash]" using assms(2) by (simp add: db_dir_def)
  have comp: "components (cfg_path config @ [slash]) = components (cfg_path config)"
    using components_slash [of "cfg_path config" "[]"] by (simp add: components_def)
  from assms(3) obtain loc where loc: "locate os (cfg_path config) = Some loc" "fs_lookup (tree os) loc = Some u"
    by (auto simp: status_def split: option.splits)
  have w: "fs_walk (tree os) [] (components (cfg_path config)) = Some loc" by (rule locate_components [OF assms(1) loc(1)])
  have "is_absolute (db_dir config)" "\<not> has_filename (db_dir config)" "db_dir config \<noteq> []"
    using assms(1) by (auto simp: d is_absolute_def has_filename_def)
  then have "locate os (db_dir config) = None"
    using w loc(2) assms(4) comp d by (cases u) (simp_all add: locate_def absolute_def lookup_components_def fs_walk_append)
  then have "\<not> exists_path os (db_dir config)" by (simp add: exists_path_def status_def)
  moreover have "make_dirs (tree os) [] (components (db_dir config)) = (tree os, False)"
    using make_dirs_on_file [OF w components_not_Nil [OF assms(2)] loc(2) assms(4)] comp d by simp
  ultimately have "prepare_dir (db_dir config) os = (Throw (Filesystem_error ''cannot create directories''), os)"
    using \<open>is_absolute (db_dir config)\<close> by (simp add: prepare_dir_def create_directories_def absolute_def)
  then have "open_env M F config os = (Throw (Filesystem_error ''cannot create directories''), os)"
    using path by (simp add: open_env_def db_dir_def [symmetric] Let_def)
  moreover have "fst (prepare_dir (db_dir config) os) \<noteq> Throw (Runtime_error (''Path '' @ p @ '' is not valid''))" for os p
    using exists_slash [of "db_dir config" os] db_dir_slash [OF path]
    by (auto simp: prepare_dir_def create_directories_def split: prod.splits)
  ultimately show ?thesis by blast
qed

theorem open_env_on_file_witness:
  "open_env ref_env_ops exact_floats (default_EnvConfig\<lparr>cfg_path := ''/data'', cfg_create := True\<rparr>)
     \<lparr>tree = Dir [(''data'', File 5)], current_path = ''/'', environment = (\<lambda>_. []), temp_setting = ''/tmp'', exe_link = None\<rparr>
   = (Throw (Filesystem_error ''cannot create directories''),
     \<lparr>tree = Dir [(''data'', File 5)], current_path = ''/'', environment = (\<lambda>_. []), temp_setting = ''/tmp'', exe_link = None\<rparr>)"
proof -
  let ?config = "default_EnvConfig\<lparr>cfg_path := ''/data'', cfg_create := True\<rparr>"
  let ?os = "\<lparr>tree = Dir [(''data'', File 5)], current_path = ''/'', environment = (\<lambda>_. []), temp_setting = ''/tmp'', exe_link = None\<rparr>"
  have "is_absolute (cfg_path ?config)" "has_filename (cfg_path ?config)" "status ?os (cfg_path ?config) = Some (File 5)"
    by (simp_all add: status_def is_absolute_def slash_def locate_def absolute_def lookup_components_def components_def has_filename_def
        fs_step_def)
  then show ?thesis by (rule open_env_on_file [THEN conjunct1]) simp
qed

end
