(* ===== verification/Node_Settings.thy ===== *)
theory Node_Settings
  imports Directories Db_Open Hash_Type
begin

section \<open>Node settings and block headers\<close>

text \<open>
  \<^verbatim>\<open>zen/node/common/settings.hpp\<close> and \<^verbatim>\<open>zen/core/types/block.hpp\<close>: two structures. The settings own the data directory and carry the
  configuration of the chain database; \<open>default_NodeSettings\<close> has the member initialisers of the source. A block header has no
  operations yet; its hashes are \<open>h256\<close>, and its version is an \<^verbatim>\<open>int32_t\<close>, a word that \<open>sint\<close> reads.
\<close>

record NodeSettings =
  build_info :: string
  data_directory :: "Directory option"
  chaindata_env_config :: EnvConfig
  batch_size :: u64
  etl_buffer_size :: u64
  fake_pow :: bool
  sync_loop_throttle_seconds :: u32
  sync_loop_log_interval_seconds :: u32

definition default_NodeSettings :: NodeSettings where
  "default_NodeSettings =
     \<lparr>build_info = [], data_directory = None, chaindata_env_config = default_EnvConfig,
      batch_size = lit_MiB 512, etl_buffer_size = lit_MiB 256, fake_pow = False,
      sync_loop_throttle_seconds = 0, sync_loop_log_interval_seconds = 30\<rparr>"

record BlockHeader =
  version :: u32
  parent_hash :: Hash
  merkle_root :: Hash
  sidechains_commitment_root :: Hash
  time :: u32
  bits :: u32

definition BlockHeader_wf :: "BlockHeader \<Rightarrow> bool" where
  "BlockHeader_wf b \<longleftrightarrow> Hash_wf h256_size (parent_hash b) \<and> Hash_wf h256_size (merkle_root b) \<and> Hash_wf h256_size (sidechains_commitment_root b)"

text \<open>The default settings have no database path, so opening the chain database with them is refused before the file system is touched.\<close>

lemma default_settings_open:
  "open_env M F (chaindata_env_config default_NodeSettings) os = (Throw (Invalid_argument ''Invalid argument : config.path''), os)"
  by (simp add: default_NodeSettings_def default_EnvConfig_def open_env_def)

lemma default_buffers:
  "unat (batch_size default_NodeSettings) = 512 * 1024 * 1024" "etl_buffer_size default_NodeSettings * 2 = batch_size default_NodeSettings"
  by (simp_all add: default_NodeSettings_def lit_MiB_def kMiB_def kKiB_def)

end
