(* ===== verification/Signals.thy ===== *)
theory Signals
  imports Moria_Prelude
begin

section \<open>Operating system signals and stop requests\<close>

text \<open>
  \<^verbatim>\<open>zen/node/concurrency/ossignals.cpp\<close> and \<^verbatim>\<open>stoppable.cpp\<close>. The static members of \<^verbatim>\<open>Ossignals\<close> are the record
  \<open>Ossignals\<close>, with the output written to \<^verbatim>\<open>std::cerr\<close> and the set of signals hooked by \<^verbatim>\<open>signal\<close>. The custom
  handler works on a state \<open>'e\<close> of its own. Signal numbers are those of Linux; \<^verbatim>\<open>SIGBREAK\<close>, \<^verbatim>\<open>SIGSTP\<close> and
  \<^verbatim>\<open>SIGABRT_COMPAT\<close> are not defined there. \<open>fmt\<close> stands for \<^verbatim>\<open>boost::format\<close>. The counter is a 32-bit atomic.
\<close>

subsection \<open>Ossignals\<close>

definition sig_name :: "int \<Rightarrow> string" where
  "sig_name sig_code =
     (if sig_code = 11 then ''SIGSEGV''
      else if sig_code = 7 then ''SIGBUS''
      else if sig_code = 31 then ''SIGSYS''
      else if sig_code = 8 then ''SIGFPE''
      else if sig_code = 4 then ''SIGILL''
      else if sig_code = 5 then ''SIGTRAP''
      else if sig_code = 3 then ''SIGQUIT''
      else if sig_code = 19 then ''SIGSTOP''
      else if sig_code = 9 then ''SIGKILL''
      else if sig_code = 6 then ''SIGABRT''
      else if sig_code = 2 then ''SIGINT''
      else if sig_code = 15 then ''SIGTERM''
      else if sig_code = 26 then ''SIGVTALRM''
      else if sig_code = 25 then ''SIGXFZS''
      else if sig_code = 24 then ''SIGXCPU''
      else if sig_code = 1 then ''SIGHUP''
      else if sig_code = 14 then ''SIGALRM''
      else if sig_code = 10 then ''SIGUSR1''
      else if sig_code = 12 then ''SIGUSR2''
      else ''Unknown'')"

definition SIGQUIT :: int where "SIGQUIT = 3"
definition SIGTSTP :: int where "SIGTSTP = 20"
definition SIGINT :: int where "SIGINT = 2"
definition SIGTERM :: int where "SIGTERM = 15"

definition kHandleableCodes :: "int list" where
  "kHandleableCodes = [SIGQUIT, SIGTSTP, SIGINT, SIGTERM]"

record 'e Ossignals =
  sig_code :: int
  sig_count :: u32
  os_signalled :: bool
  custom_handler :: "(int \<Rightarrow> 'e \<Rightarrow> 'e) option"
  handler_env :: 'e
  cerr :: "string list"
  hooks :: "int set"

definition signals_start :: "'e \<Rightarrow> 'e Ossignals" where
  "signals_start e =
     \<lparr>sig_code = 0, sig_count = 0, os_signalled = False, custom_handler = None, handler_env = e,
      cerr = [], hooks = {}\<rparr>"

definition signals_init :: "(int \<Rightarrow> 'e \<Rightarrow> 'e) option \<Rightarrow> 'e Ossignals \<Rightarrow> 'e Ossignals" where
  "signals_init h s =
     (let s = fold (\<lambda>c s. s\<lparr>hooks := insert c (hooks s)\<rparr>) kHandleableCodes s in s\<lparr>custom_handler := h\<rparr>)"

definition handle_first :: "(string \<Rightarrow> string list \<Rightarrow> string) \<Rightarrow> int \<Rightarrow> 'e Ossignals \<Rightarrow> 'e Ossignals" where
  "handle_first fmt code s =
     (if \<not> os_signalled s then
        s\<lparr>os_signalled := True, sig_code := code,
          cerr := cerr s @ [fmt ''Caught OS signal %s, shutting down ...'' [sig_name code]]\<rparr>
      else s)"

definition handle :: "(string \<Rightarrow> string list \<Rightarrow> string) \<Rightarrow> (u32 \<Rightarrow> string) \<Rightarrow> int \<Rightarrow> 'e Ossignals \<Rightarrow> 'e Ossignals run" where
  "handle fmt num code s =
     (let s = handle_first fmt code s;
          count = sig_count s + 1;
          s = s\<lparr>sig_count := count\<rparr>
      in if count \<ge> 10 then Abort
         else
           let s = (if count > 1
                    then s\<lparr>cerr := cerr s @ [fmt ''Already shutting down. Interrupt other %u times to panic.'' [num (10 - count)]]\<rparr>
                    else s);
               s = (case custom_handler s of None \<Rightarrow> s | Some h \<Rightarrow> s\<lparr>handler_env := h code (handler_env s)\<rparr>)
           in Ret (s\<lparr>hooks := insert code (hooks s)\<rparr>))"

definition signals_reset :: "'e Ossignals \<Rightarrow> 'e Ossignals" where
  "signals_reset s = s\<lparr>os_signalled := False, sig_count := 0\<rparr>"

definition os_signal_exception :: "(string \<Rightarrow> string list \<Rightarrow> string) \<Rightarrow> int \<Rightarrow> cpp_exception" where
  "os_signal_exception fmt code = Os_signal_exception code (fmt ''Caught OS signal %s'' [sig_name code])"

definition throw_if_signalled :: "(string \<Rightarrow> string list \<Rightarrow> string) \<Rightarrow> 'e Ossignals \<Rightarrow> unit run" where
  "throw_if_signalled fmt s = (if os_signalled s then Throw (os_signal_exception fmt (sig_code s)) else Ret ())"

subsection \<open>Stoppable\<close>

record Stoppable =
  stop_requested :: bool

definition Stoppable_stop :: "'a Stoppable_scheme \<Rightarrow> bool \<times> 'a Stoppable_scheme" where
  "Stoppable_stop c = (if stop_requested c then (False, c) else (True, c\<lparr>stop_requested := True\<rparr>))"

definition is_stopping :: "'a Stoppable_scheme \<Rightarrow> bool \<Rightarrow> bool" where
  "is_stopping c sig \<longleftrightarrow> stop_requested c \<or> sig"

subsection \<open>Runs of the handler\<close>

lemma handle_once:
  assumes "\<not> 10 \<le> sig_count s + 1"
  shows "\<exists>t. handle fmt num c s = Ret t \<and> sig_count t = sig_count s + 1 \<and> os_signalled t
    \<and> sig_code t = (if os_signalled s then sig_code s else c) \<and> custom_handler t = custom_handler s
    \<and> handler_env t = (case custom_handler s of None \<Rightarrow> handler_env s | Some h \<Rightarrow> h c (handler_env s))
    \<and> hooks t = insert c (hooks s)"
  using assms
  by (cases "os_signalled s"; cases "custom_handler s"; cases "sig_count s + 1 > 1")
    (simp_all add: handle_def handle_first_def Let_def)

lemma handle_counts:
  assumes "unat (sig_count s) + length codes < 10"
  shows "\<exists>t. each (handle fmt num) codes (Ret s) = Ret t
    \<and> unat (sig_count t) = unat (sig_count s) + length codes
    \<and> os_signalled t = (os_signalled s \<or> codes \<noteq> [])
    \<and> sig_code t = (if os_signalled s \<or> codes = [] then sig_code s else hd codes)
    \<and> custom_handler t = custom_handler s
    \<and> handler_env t = (case custom_handler s of None \<Rightarrow> handler_env s | Some h \<Rightarrow> fold h codes (handler_env s))
    \<and> hooks t = hooks s \<union> set codes"
  using assms
proof (induction codes arbitrary: s)
  case Nil
  then show ?case by (cases "custom_handler s") simp_all
next
  case (Cons c codes)
  have count: "unat (sig_count s + 1) = unat (sig_count s) + 1"
    using Cons.prems by (simp add: unat_word_ariths)
  then have "\<not> sig_count s + 1 \<ge> 10"
    using Cons.prems by (simp add: word_le_nat_alt)
  then obtain s1 where s1: "handle fmt num c s = Ret s1" "sig_count s1 = sig_count s + 1" "os_signalled s1"
    "sig_code s1 = (if os_signalled s then sig_code s else c)" "custom_handler s1 = custom_handler s"
    "handler_env s1 = (case custom_handler s of None \<Rightarrow> handler_env s | Some h \<Rightarrow> h c (handler_env s))"
    "hooks s1 = insert c (hooks s)"
    using handle_once [of s fmt num c] by blast
  moreover from this Cons.prems count have "unat (sig_count s1) + length codes < 10" by simp
  ultimately show ?case using Cons.IH [of s1] count by (auto split: option.splits)
qed

lemma handle_panics: "sig_count s = 9 \<Longrightarrow> handle fmt num c s = Abort"
  by (simp add: handle_def handle_first_def Let_def)

subsection \<open>Properties\<close>

text \<open>
  From the unsignalled state (at start or after \<^verbatim>\<open>reset\<close>), up to nine signals are survived: the code
  kept is that of the first one, the count is their number, the custom handler ran once for each, in order,
  and every signal that came is hooked again. The tenth aborts the process.
\<close>

theorem tenth_signal_aborts:
  assumes "sig_count s = 0" and "\<not> os_signalled s" and "codes \<noteq> []"
  shows "if length codes < 10
    then \<exists>t. each (handle fmt num) codes (Ret s) = Ret t \<and> os_signalled t \<and> sig_code t = hd codes
      \<and> unat (sig_count t) = length codes \<and> set codes \<subseteq> hooks t
      \<and> (\<forall>h. custom_handler s = Some h \<longrightarrow> handler_env t = fold h codes (handler_env s))
    else each (handle fmt num) codes (Ret s) = Abort"
proof (cases "length codes < 10")
  case True
  then show ?thesis using handle_counts [of s codes fmt num] assms by auto
next
  case False
  define first where "first = take 9 codes"
  obtain c rest where split: "codes = first @ c # rest"
    using False id_take_nth_drop [of 9 codes] unfolding first_def by auto
  have "length first = 9" using False by (simp add: first_def)
  then obtain t where t: "each (handle fmt num) first (Ret s) = Ret t" "unat (sig_count t) = 9"
    using handle_counts [of s first fmt num] assms(1) by auto
  then have "sig_count t = 9" by (simp add: word_unat_eq_iff)
  with t split False show ?thesis by (simp add: handle_panics)
qed

theorem tenth_signal_aborts_witness:
  "each (handle (\<lambda>f as. f) (\<lambda>n. [])) (replicate 10 SIGINT) (Ret (signals_init None (signals_start ()))) = Abort"
  using tenth_signal_aborts [of "signals_init None (signals_start ())" "replicate 10 SIGINT" "\<lambda>f as. f" "\<lambda>n. []"]
  by (simp add: signals_init_def signals_start_def kHandleableCodes_def Let_def)

text \<open>
  The signal of Ctrl+Z is hooked but has no name: the case that should name it is compiled only if a macro
  \<^verbatim>\<open>SIGSTP\<close> exists, which it does not. \<^verbatim>\<open>throw_if_signalled\<close> after it reports an unknown signal.
\<close>

theorem ctrl_z_unnamed:
  "SIGTSTP \<in> hooks (signals_init h (signals_start e)) \<and> sig_name SIGTSTP = ''Unknown''
   \<and> (\<forall>c \<in> set kHandleableCodes. c \<noteq> SIGTSTP \<longrightarrow> sig_name c \<noteq> ''Unknown'')"
  by (simp add: signals_init_def signals_start_def kHandleableCodes_def sig_name_def SIGTSTP_def SIGQUIT_def SIGINT_def
      SIGTERM_def Let_def)

theorem ctrl_z_unnamed_witness:
  "sig_name SIGINT \<noteq> ''Unknown''"
  using ctrl_z_unnamed by (auto simp: kHandleableCodes_def SIGTSTP_def SIGINT_def)

end
