(* ===== verification/Sync_Stage.thy ===== *)
theory Sync_Stage
  imports Db_Env Signals Node_Settings
begin

section \<open>Stages of the synchronisation loop\<close>

text \<open>
  \<^verbatim>\<open>zen/node/stages/stage.hpp\<close> and \<^verbatim>\<open>stage.cpp\<close>: the base class of the stages. The work of a stage (\<^verbatim>\<open>forward\<close>, \<^verbatim>\<open>unwind\<close>,
  \<^verbatim>\<open>prune\<close>) belongs to classes that are not part of the program yet; what is modelled is what the base class gives
  them: progress kept in the database, the check of the block sequence, the stop request and the error type. A
  \<open>Stage\<close> is a \<open>Stoppable\<close>; the node settings are kept for the classes built on it. \<^verbatim>\<open>magic_enum\<close> gives an enumerator its
  position and its name.
\<close>

record SyncContext =
  is_first_cycle :: bool
  unwind_point :: "BlockNum option"
  previous_unwind_point :: "BlockNum option"

datatype Result =
    kSuccess | kDbError | kAborted | kBadBlockHash | kBadChainSequence | kUnknownConsensusEngine | kInvalidRange
  | kInvalidProgress | kInvalidBlock | kInvalidTransaction | kDecodingError | kUnknownError | kStoppedByEnv | kUnspecified

datatype OperationType = No_operation | Forward_operation | Unwind_operation | Prune_operation

fun result_entry :: "Result \<Rightarrow> int \<times> string" where
  "result_entry kSuccess = (0, ''kSuccess'')"
| "result_entry kDbError = (1, ''kDbError'')"
| "result_entry kAborted = (2, ''kAborted'')"
| "result_entry kBadBlockHash = (3, ''kBadBlockHash'')"
| "result_entry kBadChainSequence = (4, ''kBadChainSequence'')"
| "result_entry kUnknownConsensusEngine = (5, ''kUnknownConsensusEngine'')"
| "result_entry kInvalidRange = (6, ''kInvalidRange'')"
| "result_entry kInvalidProgress = (7, ''kInvalidProgress'')"
| "result_entry kInvalidBlock = (8, ''kInvalidBlock'')"
| "result_entry kInvalidTransaction = (9, ''kInvalidTransaction'')"
| "result_entry kDecodingError = (10, ''kDecodingError'')"
| "result_entry kUnknownError = (11, ''kUnknownError'')"
| "result_entry kStoppedByEnv = (12, ''kStoppedByEnv'')"
| "result_entry kUnspecified = (13, ''kUnspecified'')"

record Stage = Stoppable +
  sync_context :: SyncContext
  stage_name :: string
  node_settings :: NodeSettings
  operation :: OperationType
  log_prefix :: string

definition new_Stage :: "SyncContext \<Rightarrow> string \<Rightarrow> NodeSettings \<Rightarrow> Stage" where
  "new_Stage ctx name settings =
     \<lparr>stop_requested = False, sync_context = ctx, stage_name = name, node_settings = settings, operation = No_operation, log_prefix = []\<rparr>"

definition set_log_prefix :: "string \<Rightarrow> Stage \<Rightarrow> Stage" where
  "set_log_prefix p st = st\<lparr>log_prefix := p\<rparr>"

definition StageError :: "Result \<Rightarrow> cpp_exception" where
  "StageError err = Stage_error (fst (result_entry err)) (snd (result_entry err))"

definition StageError_message :: "Result \<Rightarrow> string \<Rightarrow> cpp_exception" where
  "StageError_message err message = Stage_error (fst (result_entry err)) message"

text \<open>The functions of a stage reach the transaction through the holder, \<^verbatim>\<open>*txn\<close>; a null handle makes libmdbx throw.\<close>

definition with_txn :: "('t \<Rightarrow> ('a \<times> 't) run) \<Rightarrow> 't Txn_holder \<Rightarrow> ('a \<times> 't Txn_holder) run" where
  "with_txn f h =
     (case holder_txn h of
        None \<Rightarrow> Throw (Mdbx_exception ''MDBX_BAD_TXN'')
      | Some t \<Rightarrow> run_bind (f t) (\<lambda>(a, t). Ret (a, holder_put t h)))"

definition get_progress :: "'t Txn_ops \<Rightarrow> Endian_ops \<Rightarrow> Stage \<Rightarrow> 't Txn_holder \<Rightarrow> (BlockNum \<times> 't Txn_holder) run" where
  "get_progress T E st = with_txn (\<lambda>t. read_stage_progress T E t (stage_name st))"

definition get_prune_progress :: "'t Txn_ops \<Rightarrow> Endian_ops \<Rightarrow> Stage \<Rightarrow> 't Txn_holder \<Rightarrow> (BlockNum \<times> 't Txn_holder) run" where
  "get_prune_progress T E st = with_txn (\<lambda>t. read_stage_prune_progress T E t (stage_name st))"

definition update_progress :: "'t Txn_ops \<Rightarrow> Endian_ops \<Rightarrow> Stage \<Rightarrow> BlockNum \<Rightarrow> 't Txn_holder \<Rightarrow> (unit \<times> 't Txn_holder) run" where
  "update_progress T E st progress =
     with_txn (\<lambda>t. run_bind (write_stage_progress T E t (stage_name st) progress) (\<lambda>t. Ret ((), t)))"

definition check_block_sequence :: "BlockNum \<Rightarrow> BlockNum \<Rightarrow> unit run" where
  "check_block_sequence actual expected =
     (if actual \<noteq> expected then
        Throw (StageError_message kBadChainSequence
          (''bad block sequence : expected '' @ show_nat (unat expected) @ '' got '' @ show_nat (unat actual)))
      else Ret ())"

definition throw_if_stopping :: "Stage \<Rightarrow> bool \<Rightarrow> unit run" where
  "throw_if_stopping st sig = (if is_stopping st sig then Throw (StageError kAborted) else Ret ())"

definition success_or_throw :: "Result \<Rightarrow> unit run" where
  "success_or_throw code = (if code \<noteq> kSuccess then Throw (StageError code) else Ret ())"

subsection \<open>Progress through a holder\<close>

lemma holder_put_txn [simp]: "holder_txn h \<noteq> None \<Longrightarrow> holder_txn (holder_put t h) = Some t"
  by (auto simp: holder_put_def holder_txn_def split: option.splits)

lemma holder_put_external [simp]: "external (holder_put t h) = None \<longleftrightarrow> external h = None"
  by (simp add: holder_put_def)

lemma with_txn_value: "holder_txn h = Some t \<Longrightarrow> map_ret fst (with_txn f h) = map_ret fst (f t)"
  by (cases "f t") (auto simp: with_txn_def simp del: map_ret_Ret_iff)

context mdbx_store
begin

lemma read_progress_view:
  assumes "live t" "is_known_stage s" "view t' = view t" "live t'"
  shows "map_ret fst (read_stage_progress T E t' s) = map_ret fst (read_stage_progress T E t s)"
  unfolding read_stage_progress_def get_stage_data_live [OF assms(1,2) node_tables(2)] get_stage_data_live [OF assms(4,2) node_tables(2)] assms(3) ..

lemma update_holder:
  assumes "holder_txn h = Some t" "live t" "intx_endian E" "is_known_stage (stage_name st)"
  shows "\<exists>h' t'. update_progress T E st n h = Ret ((), h') \<and> external h' = external (holder_put t' h)
    \<and> holder_txn h' = Some t' \<and> live t' \<and> map_ret fst (read_stage_progress T E t' (stage_name st)) = Ret n"
proof -
  obtain t' where t': "set_stage_data T E t (stage_name st) n kSyncStageProgress None = Ret t'" "live t'"
    "view t' = (view t)(map_name kSyncStageProgress :=
       (view t (map_name kSyncStageProgress))(to_slice (item_key (stage_name st) None) \<mapsto> store_big_u32 E n))"
    by (rule set_stage_data_live [OF assms(2,4) node_tables(2) assms(3) insertI1])
  have "map_ret fst (read_stage_progress T E t' (stage_name st)) = Ret n"
    unfolding read_stage_progress_def get_stage_data_live [OF t'(2) assms(4) node_tables(2)]
    using assms(3) by (simp add: t'(3) stored_def intx_endian.length_store_big32 intx_endian.load_store_big32)
  with t' assms(1) show ?thesis
    by (intro exI [of _ "holder_put t' h"] exI [of _ t'])
      (simp add: update_progress_def with_txn_def write_stage_progress_def del: run_bind_Ret_iff map_ret_Ret_iff)
qed

text \<open>After an abort a new transaction begins with what was stored.\<close>

lemma aborted_then_new:
  assumes "external h = None" "holder_txn h = Some t" "live t" "busy s"
  shows "\<exists>h1 s1 h2 s2 t2. holder_abort S h s = (Ret (), h1, s1) \<and> durable s1 = durable s \<and> RWTxn_env S s1 = Ret (h2, s2)
    \<and> holder_txn h2 = Some t2 \<and> live t2 \<and> view t2 = durable s"
proof -
  obtain h1 s1 where a: "holder_abort S h s = (Ret (), h1, s1)" "durable s1 = durable s" "\<not> busy s1"
    using abort_managed [OF assms] by blast
  obtain h2 t2 s2 where "RWTxn_env S s1 = Ret (h2, s2)" "holder_txn h2 = Some t2" "live t2" "view t2 = durable s1"
    by (rule new_holder [OF a(3)])
  with a show ?thesis by auto
qed

end

subsection \<open>Properties\<close>

text \<open>
  C9: Progress survives the transaction: on an environment without an open write transaction a stage opens one, records its progress and commits, and it finds that progress in the renewed
  transaction; so does any later transaction, which can begin when the renewed one has ended. An abort instead leaves what was stored: a later transaction reads
  the progress there was before. While a write transaction is open no other can begin.
\<close>

theorem progress_survives_commit:
  assumes "mdbx_store T live view maps S durable busy" and "intx_endian E" and "is_known_stage (stage_name st)" and "\<not> busy env"
  shows "\<exists>h0 env0 h1 h2 env2. RWTxn_env S env = Ret (h0, env0) \<and> update_progress T E st n h0 = Ret ((), h1)
    \<and> holder_commit S True h1 env0 = (Ret (), h2, env2) \<and> map_ret fst (get_progress T E st h2) = Ret n
    \<and> (\<exists>h3 env3 h4 env4. holder_abort S h2 env2 = (Ret (), h3, env3) \<and> RWTxn_env S env3 = Ret (h4, env4)
        \<and> map_ret fst (get_progress T E st h4) = Ret n)
    \<and> (\<exists>h3 env3 h4 env4. holder_abort S h1 env0 = (Ret (), h3, env3) \<and> durable env3 = durable env \<and> RWTxn_env S env3 = Ret (h4, env4)
        \<and> map_ret fst (get_progress T E st h4) = map_ret fst (get_progress T E st h0))
    \<and> (\<exists>what. RWTxn_env S env0 = Throw (Mdbx_exception what)) \<and> (\<exists>what. RWTxn_env S env2 = Throw (Mdbx_exception what))"
proof -
  note store = assms(1)
  obtain h0 t0 env0 where h0: "RWTxn_env S env = Ret (h0, env0)" "external h0 = None" "holder_txn h0 = Some t0" "live t0"
    "view t0 = durable env" "durable env0 = durable env" "busy env0"
    by (rule mdbx_store.new_holder [OF store assms(4)])
  obtain h1 t1 where h1: "update_progress T E st n h0 = Ret ((), h1)" "external h1 = external (holder_put t1 h0)"
    "holder_txn h1 = Some t1" "live t1" "map_ret fst (read_stage_progress T E t1 (stage_name st)) = Ret n"
    using mdbx_store.update_holder [OF store h0(3,4) assms(2,3)] by blast
  have x1: "external h1 = None" using h1(2) h0(2) by simp
  obtain h2 env2 t2 where h2: "holder_commit S True h1 env0 = (Ret (), h2, env2)" "durable env2 = view t1" "external h2 = None" "busy env2"
    "holder_txn h2 = Some t2" "live t2" "view t2 = view t1"
    using mdbx_store.commit_managed [OF store x1 h1(3,4) h0(7), of True] by auto
  note reads = mdbx_store.aborted_then_new [OF store]
  from reads [OF h2(3,5,6,4)] obtain h3 env3 h4 env4 t4 where h4: "holder_abort S h2 env2 = (Ret (), h3, env3)" "RWTxn_env S env3 = Ret (h4, env4)"
    "holder_txn h4 = Some t4" "live t4" "view t4 = durable env2" by blast
  from reads [OF x1 h1(3,4) h0(7)] obtain h5 env5 h6 env6 t6 where h6: "holder_abort S h1 env0 = (Ret (), h5, env5)" "durable env5 = durable env0"
    "RWTxn_env S env5 = Ret (h6, env6)" "holder_txn h6 = Some t6" "live t6" "view t6 = durable env0" by blast
  note same = mdbx_store.read_progress_view [OF store _ assms(3), of _ _ E]
  have "map_ret fst (get_progress T E st h2) = Ret n"
    unfolding get_progress_def with_txn_value [OF h2(5)] same [OF h1(4) h2(7,6)] by (rule h1(5))
  moreover have v4: "view t4 = view t1" using h4(5) h2(2) by simp
  moreover have "map_ret fst (get_progress T E st h4) = Ret n"
    unfolding get_progress_def with_txn_value [OF h4(3)] same [OF h1(4) v4 h4(4)] by (rule h1(5))
  moreover have v6: "view t6 = view t0" using h6(6) h0(5,6) by simp
  moreover have "map_ret fst (get_progress T E st h6) = map_ret fst (get_progress T E st h0)"
    unfolding get_progress_def with_txn_value [OF h6(4)] with_txn_value [OF h0(3)] by (rule same [OF h0(4) v6 h6(5)])
  moreover note mdbx_store.second_writer_refused [OF store h0(7)] mdbx_store.second_writer_refused [OF store h2(4)]
  ultimately show ?thesis using h0(1,6) h1(1) h2(1) h4(1,2) h6(1-3) by metis
qed

theorem progress_survives_commit_witness:
  "\<exists>h0 env0 h1 h2 env2. RWTxn_env ref_store (({}, \<lambda>_ _. None), False) = Ret (h0, env0)
     \<and> update_progress ref_ops reference_endian (new_Stage \<lparr>is_first_cycle = True, unwind_point = None, previous_unwind_point = None\<rparr> ''Execution'' default_NodeSettings) 1200 h0 = Ret ((), h1)
     \<and> holder_commit ref_store True h1 env0 = (Ret (), h2, env2)"
proof -
  have "is_known_stage (stage_name (new_Stage \<lparr>is_first_cycle = True, unwind_point = None, previous_unwind_point = None\<rparr> ''Execution'' default_NodeSettings))" by (simp add: new_Stage_def known_stages)
  from progress_survives_commit [OF ref_store.mdbx_store_axioms ref_endian.intx_endian_axioms this, of "(({}, \<lambda>_ _. None), False)" 1200] show ?thesis by auto
qed

text \<open>
  A holder of an external transaction leaves it to its owner: commit and abort do nothing, and the work done
  through the holder is in the external transaction.
\<close>

theorem external_transaction_untouched:
  assumes "holder_put t (Txn_external t0) = h"
  shows "holder_commit S renew h env = (Ret (), h, env) \<and> holder_abort S h env = (Ret (), h, env) \<and> holder_txn h = Some t"
  using assms by (auto simp: Txn_external_def holder_put_def holder_commit_def holder_abort_def holder_txn_def)

theorem external_transaction_untouched_witness:
  "holder_commit ref_store True (Txn_external ({}, \<lambda>_ _. None)) (({}, \<lambda>_ _. None), False)
     = (Ret (), Txn_external ({}, \<lambda>_ _. None), (({}, \<lambda>_ _. None), False))"
  using external_transaction_untouched [of "({}, \<lambda>_ _. None)" "({}, \<lambda>_ _. None)" _ ref_store True "(({}, \<lambda>_ _. None), False)"]
  by (simp add: Txn_external_def holder_put_def)

text \<open>
  The errors of a stage can be told apart: distinct results give distinct codes and distinct names, the code of
  success is zero, and \<^verbatim>\<open>success_or_throw\<close> throws the error of its argument for every other one.
\<close>

theorem stage_errors_distinct:
  "(result_entry a = result_entry b \<longleftrightarrow> a = b) \<and> (fst (result_entry a) = fst (result_entry b) \<longleftrightarrow> a = b)
   \<and> (StageError a = StageError b \<longleftrightarrow> a = b)
   \<and> success_or_throw a = (if fst (result_entry a) = 0 then Ret () else Throw (StageError a))"
proof -
  have f: "fst (result_entry a) = fst (result_entry b) \<longleftrightarrow> a = b" by (cases a; cases b; simp)
  moreover have "fst (result_entry a) = 0 \<longleftrightarrow> a = kSuccess" by (cases a) simp_all
  ultimately show ?thesis by (auto simp: StageError_def success_or_throw_def)
qed

end
