(* ===== verification/Process_Memory.thy ===== *)
theory Process_Memory
  imports Locked_Pages Decimal_Text
begin

unbundle bit_operations_syntax

section \<open>Memory of the process\<close>

text \<open>
  The parts of \<^verbatim>\<open>zen/core/common/memory.cpp\<close> and \<^verbatim>\<open>memory.hpp\<close> that talk to Linux: memory use, page size, the page locker, the single
  instance of the page manager, and locking of objects. The system is the record \<open>Os_memory\<close>: the calls \<^verbatim>\<open>mlock\<close> and \<^verbatim>\<open>munlock\<close> on a state
  \<open>'l\<close> of the kernel, what \<^verbatim>\<open>sysconf\<close> and \<^verbatim>\<open>getpagesize\<close> return, and the text of \<^verbatim>\<open>/proc/self/statm\<close> (\<open>None\<close> when it cannot be
  opened). The manager comes into being at the first call of \<^verbatim>\<open>instance\<close>.
\<close>

record 'l Os_memory =
  os_mlock :: "u64 \<Rightarrow> u64 \<Rightarrow> 'l \<Rightarrow> int \<times> 'l"
  os_munlock :: "u64 \<Rightarrow> u64 \<Rightarrow> 'l \<Rightarrow> int \<times> 'l"
  os_sysconf_pagesize :: int
  os_getpagesize :: int
  os_statm :: "string option"

subsection \<open>System queries\<close>

text \<open>\<^verbatim>\<open>%lu\<close> of \<^verbatim>\<open>fscanf\<close> on a text without signs: leading blanks are skipped, then there must be a digit;
a number out of range gives the largest value, as \<^verbatim>\<open>strtoul\<close> does.\<close>

definition is_blank :: "char \<Rightarrow> bool" where
  "is_blank c \<longleftrightarrow> c = CHR '' '' \<or> (9 \<le> (of_char c :: nat) \<and> of_char c \<le> (13 :: nat))"

definition scan_ulong :: "string \<Rightarrow> (u64 \<times> string) option" where
  "scan_ulong s =
     (let t = dropWhile is_blank s; ds = takeWhile is_digit t
      in if ds = [] then None else Some (of_nat (min (dec_val ds) (2 ^ 64 - 1)), dropWhile is_digit t))"

definition get_mem_usage :: "'l Os_memory \<Rightarrow> bool \<Rightarrow> u64" where
  "get_mem_usage A resident =
     (let (vm_size, rm_size) =
        (case os_statm A of
           None \<Rightarrow> (0, 0)
         | Some f \<Rightarrow>
             (case scan_ulong f of
                None \<Rightarrow> (0, 0)
              | Some (vm, f) \<Rightarrow>
                  (case scan_ulong f of
                     None \<Rightarrow> (0, 0)
                   | Some (rm, f) \<Rightarrow> (vm * word_of_int (os_getpagesize A), rm * word_of_int (os_getpagesize A)))))
      in if resident then rm_size else vm_size)"

definition get_system_page_size :: "'l Os_memory \<Rightarrow> u64" where
  "get_system_page_size A = word_of_int (os_sysconf_pagesize A)"

subsection \<open>The manager of the process\<close>

definition MemoryPageLocker :: "'l Os_memory \<Rightarrow> 'l Locker" where
  "MemoryPageLocker A =
     \<lparr>lk_lock = (\<lambda>addr len l. case os_mlock A addr len l of (r, l) \<Rightarrow> (r = 0, l)),
      lk_unlock = (\<lambda>addr len l. case os_munlock A addr len l of (r, l) \<Rightarrow> (r = 0, l))\<rparr>"

datatype 'l Instance = Not_created 'l | Created "'l LockedPages"

fun manager_instance :: "'l Os_memory \<Rightarrow> 'l Instance \<Rightarrow> 'l LockedPages run" where
  "manager_instance A (Not_created l) = new_LockedPages l (get_system_page_size A)"
| "manager_instance A (Created m) = Ret m"

fun run_option_bind :: "'a run \<Rightarrow> ('a \<Rightarrow> 'b run option) \<Rightarrow> 'b run option" where
  "run_option_bind (Ret a) f = f a"
| "run_option_bind (Throw e) f = Some (Throw e)"
| "run_option_bind Abort f = Some Abort"
| "run_option_bind Undef f = Some Undef"

definition lock_object_memory :: "'l Os_memory \<Rightarrow> u64 \<Rightarrow> nat \<Rightarrow> 'l Instance \<Rightarrow> (bool \<times> 'l Instance) run option" where
  "lock_object_memory A t n i =
     run_option_bind (manager_instance A i) (\<lambda>m.
       map_option (map_ret (\<lambda>(ret, m). (ret, Created m))) (lock_range (MemoryPageLocker A) t (of_nat n) m))"

definition unlock_object_memory ::
  "'l Os_memory \<Rightarrow> u64 \<Rightarrow> nat \<Rightarrow> (u64 \<Rightarrow> byte) \<Rightarrow> 'l Instance \<Rightarrow> (bool \<times> (u64 \<Rightarrow> byte) \<times> 'l Instance) run option" where
  "unlock_object_memory A t n mem i =
     (let mem = memory_cleanse t n mem in
      run_option_bind (manager_instance A i) (\<lambda>m.
        map_option (map_ret (\<lambda>(ret, m). (ret, mem, Created m))) (unlock_range (MemoryPageLocker A) t (of_nat n) m)))"

subsection \<open>Lemmas\<close>

lemma scan_ulong_number:
  assumes "list_all is_blank bs" "rest = [] \<or> \<not> is_digit (hd rest)" "n < 2 ^ 64"
  shows "scan_ulong (bs @ show_nat n @ rest) = Some (of_nat n, rest)"
proof -
  have d: "list_all is_digit (show_nat n)" "show_nat n \<noteq> []" "dec_val (show_nat n) = n" using show_nat_digits [of n] by auto
  obtain c cs where c: "show_nat n = c # cs" using d(2) by (cases "show_nat n") auto
  have "\<not> is_blank c" using d(1) c by (auto simp: is_blank_def is_digit_def)
  then have "dropWhile is_blank (bs @ show_nat n @ rest) = show_nat n @ rest"
    using assms(1) c by (simp add: dropWhile_append2 list_all_iff)
  moreover have "takeWhile is_digit (show_nat n @ rest) = show_nat n" "dropWhile is_digit (show_nat n @ rest) = rest"
    using assms(2) d(1) by (cases rest; simp add: list_all_iff takeWhile_append2 dropWhile_append2)+
  ultimately show ?thesis using d assms(3) by (simp add: scan_ulong_def min_def)
qed

lemma always_locks_kernel:
  assumes "\<And>a n l. fst (os_mlock A a n l) = 0" "\<And>a n l. fst (os_munlock A a n l) = 0"
  shows "always_locks (MemoryPageLocker A)"
  using assms by (auto simp: always_locks_def MemoryPageLocker_def split: prod.splits) (metis fst_conv)+

lemma manager_created:
  assumes "9 \<le> k" "k \<le> 30" "os_sysconf_pagesize A = 2 ^ k" "case i of Not_created l \<Rightarrow> True | Created m \<Rightarrow> manager_ok k m"
  obtains m where "manager_instance A i = Ret m" "manager_ok k m"
    "locked_pages m = (case i of Not_created l \<Rightarrow> Map.empty | Created m \<Rightarrow> locked_pages m)"
    "locker m = (case i of Not_created l \<Rightarrow> l | Created m \<Rightarrow> locker m)"
proof (cases i)
  case (Not_created l)
  have "get_system_page_size A = 2 ^ k" using assms(3) by (simp add: get_system_page_size_def)
  with new_LockedPages_ok [OF assms(1,2), of l] Not_created that show ?thesis by auto
qed (use assms(4) that in auto)

subsection \<open>The contract of the kernel\<close>

text \<open>
  \<^verbatim>\<open>mlock\<close> on a whole page, when it returns 0, keeps the page in memory until \<^verbatim>\<open>munlock\<close> on it returns 0. With such a kernel \<^verbatim>\<open>MemoryPageLocker\<close> is
  a locker as the manager expects it.
\<close>

locale kernel_locks =
  fixes A :: "'l Os_memory" and held :: "'l \<Rightarrow> u64 set" and k :: nat
  assumes mlock_law: "2 ^ k dvd unat p \<Longrightarrow> os_mlock A p (2 ^ k) l = (r, l') \<Longrightarrow> held l' = (if r = 0 then insert p (held l) else held l)"
    and munlock_law: "2 ^ k dvd unat p \<Longrightarrow> os_munlock A p (2 ^ k) l = (r, l') \<Longrightarrow> held l' = (if r = 0 then held l - {p} else held l)"

sublocale kernel_locks \<subseteq> page_locker "MemoryPageLocker A" held k
proof
  fix p :: u64 and l ok l'
  assume al: "2 ^ k dvd unat p"
  show "held l' = (if ok then insert p (held l) else held l)" if "lk_lock (MemoryPageLocker A) p (2 ^ k) l = (ok, l')"
    using that mlock_law [OF al, of l] by (auto simp: MemoryPageLocker_def split: prod.splits)
  show "held l' = (if ok then held l - {p} else held l)" if "lk_unlock (MemoryPageLocker A) p (2 ^ k) l = (ok, l')"
    using that munlock_law [OF al, of l] by (auto simp: MemoryPageLocker_def split: prod.splits)
qed

context kernel_locks
begin

lemma is_page_locker: "page_locker (MemoryPageLocker A) held k"
  by (rule page_locker_axioms)

end

text \<open>The pages held through the instance of the manager, when it is the only one that locks pages.\<close>

fun instance_ok :: "('l \<Rightarrow> u64 set) \<Rightarrow> nat \<Rightarrow> 'l Instance \<Rightarrow> bool" where
  "instance_ok held k (Not_created l) \<longleftrightarrow> held l = {}"
| "instance_ok held k (Created m) \<longleftrightarrow> manager_ok k m \<and> synced held k m \<and> (\<forall>p. has_room (locked_pages m) p)"

subsection \<open>Properties\<close>

text \<open>
  C24: With a kernel that grants the locks and a sane page size, locking an object makes the kernel hold every page with a byte of it,
  and unlocking it returns true, zeroes the bytes of the object and no other byte, leaves the lock counts as they were and the kernel with the pages
  it held before, whether or not the manager existed before.
\<close>

theorem object_memory_cycle:
  assumes "kernel_locks A held k" and "\<And>a n l. fst (os_mlock A a n l) = 0" and "\<And>a n l. fst (os_munlock A a n l) = 0"
    and "9 \<le> k" and "k \<le> 30" and "os_sysconf_pagesize A = 2 ^ k"
    and "instance_ok held k i" and "range_ok k t (of_nat n)" and "n < 2 ^ 64"
  shows "\<exists>m1 m2. lock_object_memory A t n i = Some (Ret (True, Created m1))
    \<and> (\<forall>j<n. (t + of_nat j) AND NOT (2 ^ k - 1) \<in> held (locker m1))
    \<and> unlock_object_memory A t n mem (Created m1) =
        Some (Ret (True, \<lambda>a. if \<exists>j<n. a = t + of_nat j then 0 else mem a, Created m2))
    \<and> locked_pages m2 = (case i of Not_created l \<Rightarrow> Map.empty | Created m \<Rightarrow> locked_pages m)
    \<and> held (locker m2) = held (case i of Not_created l \<Rightarrow> l | Created m \<Rightarrow> locker m)"
proof -
  have un: "unat (of_nat n :: u64) = n" using assms(9) by (simp add: unat_of_nat)
  have i: "case i of Not_created l \<Rightarrow> True | Created m \<Rightarrow> manager_ok k m" using assms(7) by (cases i) simp_all
  obtain m where m: "manager_instance A i = Ret m" "manager_ok k m"
    "locked_pages m = (case i of Not_created l \<Rightarrow> Map.empty | Created m \<Rightarrow> locked_pages m)"
    "locker m = (case i of Not_created l \<Rightarrow> l | Created m \<Rightarrow> locker m)"
    by (rule manager_created [OF assms(4-6) i])
  have s: "synced held k m \<and> (\<forall>p. has_room (locked_pages m) p)"
  proof (cases i)
    case (Not_created l)
    then have "locked_pages m = Map.empty" "held (locker m) = {}" "page_size m = 2 ^ k" using m assms(7) by (simp_all add: manager_ok_def)
    then show ?thesis by (simp add: synced_def has_room_def)
  qed (use assms(7) m(1) in simp_all)
  from page_locker.held_cycle [OF kernel_locks.is_page_locker [OF assms(1)] always_locks_kernel [OF assms(2,3)] m(2) assms(8) conjunct2 [OF s] conjunct1 [OF s]]
  obtain m1 m2 where
    "lock_range (MemoryPageLocker A) t (of_nat n) m = Some (Ret (True, m1))" "unlock_range (MemoryPageLocker A) t (of_nat n) m1 = Some (Ret (True, m2))"
    "\<forall>j<n. (t + of_nat j) AND NOT (2 ^ k - 1) \<in> held (locker m1)" "locked_pages m2 = locked_pages m" "held (locker m2) = held (locker m)"
    unfolding un by metis
  moreover have "memory_cleanse t n mem = (\<lambda>a. if \<exists>j<n. a = t + of_nat j then 0 else mem a)"
    by (rule ext) (rule memory_cleanse_at)
  ultimately show ?thesis
    using m by (intro exI [of _ m1] exI [of _ m2]) (simp add: lock_object_memory_def unlock_object_memory_def)
qed

definition kind_kernel :: "u64 set Os_memory" where
  "kind_kernel = \<lparr>os_mlock = (\<lambda>a n l. (0, insert a l)), os_munlock = (\<lambda>a n l. (0, l - {a})), os_sysconf_pagesize = 4096, os_getpagesize = 4096,
     os_statm = Some ''321 45 6 7 0 89 0''\<rparr>"

interpretation kind_kernel: kernel_locks kind_kernel id k for k
  by unfold_locales (auto simp: kind_kernel_def)

theorem object_memory_cycle_witness:
  "\<exists>m1. lock_object_memory kind_kernel 5000 100 (Not_created {}) = Some (Ret (True, Created m1))
     \<and> (\<forall>j<100. (5000 + of_nat j) AND NOT (2 ^ 12 - 1) \<in> locker m1)"
  using object_memory_cycle [OF kind_kernel.kernel_locks_axioms, of 12 "Not_created {}" 5000 100 "\<lambda>_. 1"]
  by (simp add: kind_kernel_def range_ok_def) blast

text \<open>
  The memory use is the first or the second number of the kernel's line times the page size, modulo \<open>2 ^ 64\<close>, and zero when the file
  cannot be opened.
\<close>

theorem get_mem_usage_correct:
  assumes "os_statm A = Some (show_nat vm @ CHR '' '' # show_nat rm @ rest)" and "rest = [] \<or> \<not> is_digit (hd rest)"
    and "vm < 2 ^ 64" and "rm < 2 ^ 64"
  shows "get_mem_usage A resident = of_nat (if resident then rm else vm) * word_of_int (os_getpagesize A)"
proof -
  have b: "list_all is_blank [CHR '' '']" "\<not> is_digit CHR '' ''" by (simp_all add: is_blank_def is_digit_def)
  have "scan_ulong (show_nat vm @ CHR '' '' # show_nat rm @ rest) = Some (of_nat vm, CHR '' '' # show_nat rm @ rest)"
    using scan_ulong_number [of "[]" "CHR '' '' # show_nat rm @ rest" vm] b(2) assms(3) by simp
  moreover have "scan_ulong (CHR '' '' # show_nat rm @ rest) = Some (of_nat rm, rest)"
    using scan_ulong_number [OF b(1) assms(2), of rm] assms(4) by simp
  ultimately show ?thesis using assms(1) by (simp add: get_mem_usage_def)
qed

theorem get_mem_usage_correct_witness: "get_mem_usage kind_kernel True = 45 * 4096"
proof -
  have "os_statm kind_kernel = Some (show_nat 321 @ CHR '' '' # show_nat 45 @ '' 6 7 0 89 0'')"
    by code_simp
  from get_mem_usage_correct [OF this] show ?thesis by (simp add: is_digit_def kind_kernel_def)
qed

lemma get_mem_usage_unreadable: "os_statm A = None \<Longrightarrow> get_mem_usage A resident = 0"
  by (simp add: get_mem_usage_def)

text \<open>When the page size cannot be determined the first use of the manager aborts the process.\<close>

lemma page_size_unknown_aborts:
  "os_sysconf_pagesize A = - 1 \<Longrightarrow> lock_object_memory A t n (Not_created l) = Some Abort"
  by (simp add: lock_object_memory_def get_system_page_size_def new_LockedPages_def)

end
