(* ===== verification/Worker_Thread.thy ===== *)
theory Worker_Thread
  imports Signals
begin

section \<open>The worker thread\<close>

text \<open>
  \<^verbatim>\<open>zen/node/concurrency/worker.cpp\<close> as a machine of threads that interleave freely: the owner, which calls
  \<^verbatim>\<open>start\<close> and \<^verbatim>\<open>stop\<close>, and the threads the worker starts. Anyone may kick or request a stop, the operating system may
  signal, and the program may reset the signal (\<^verbatim>\<open>Ossignals::reset\<close>), at any time. One step is one access to a shared variable, one
  call of the handlers of \<^verbatim>\<open>signal_worker_state_changed\<close>, or one operation on a thread or condition variable; program counters
  say where each thread is. The two reads of \<^verbatim>\<open>is_stopping\<close> are two steps. The work of a derived class is any sequence of
  calls of \<^verbatim>\<open>wait_for_kick\<close> that ends with a return or an exception; it and the handlers do not call \<^verbatim>\<open>start\<close> or \<^verbatim>\<open>stop(true)\<close>.

  \<^verbatim>\<open>start\<close> creates the thread, which may run at once, and only then stores it in \<^verbatim>\<open>thread_\<close> (\<open>thread_set\<close>). If \<^verbatim>\<open>thread_\<close> still
  holds a thread that was not joined, that one is destroyed by the assignment, which calls \<^verbatim>\<open>std::terminate\<close>; until then both
  threads run, and \<open>prev\<close> is the place of the old one. An exception outside \<^verbatim>\<open>std::exception\<close> also terminates.

  The wait on \<^verbatim>\<open>kicked_cv_\<close> may end at any time (notification, time-out or for no reason), so \<^verbatim>\<open>notify_one\<close> on it adds no
  step. The wait of \<^verbatim>\<open>start\<close> on \<^verbatim>\<open>thread_started_cv_\<close> leaves its loop on a notification, which reaches a
  thread only while it waits, or by a wake-up for no reason (\<open>spurious_step\<close>).

  \<open>notified\<close> lists the states at the calls of the handlers, \<open>answers\<close> the results of \<^verbatim>\<open>wait_for_kick\<close>, \<open>taken\<close> tells whether its loop
  ended by taking a kick, and \<open>withdrawn\<close> whether the signal was ever reset; the code has none of these.
\<close>

subsection \<open>State\<close>

datatype State = kStopped | kStarting | kStarted | kKickWaiting | kStopping

datatype owner_pc =
    Idle
  | Start_signal bool bool
  | Start_clear bool bool
  | Start_kick bool bool
  | Start_id bool
  | Start_spawn bool
  | Start_assign bool
  | Start_enter_wait
  | Start_waiting
  | Stop_kick bool bool
  | Stop_join bool bool
  | Stop_reset bool

datatype thread_pc =
    No_thread
  | T_begin
  | T_cas
  | T_notify
  | T_signal
  | T_work
  | K_test
  | K_check_stop
  | K_check_sig
  | K_mark
  | K_mark_signal
  | K_sleep
  | K_final_stop
  | K_final_sig
  | K_say_stop
  | K_stop_signal
  | K_say_go
  | K_go_signal
  | T_store
  | T_signal_end
  | T_clear_id
  | T_done

record Worker = Stoppable +
  kicked :: bool
  sig_raised :: bool
  w_id :: nat
  w_state :: State
  thread_set :: bool
  captured :: "string option"
  owner :: owner_pc
  thread :: thread_pc
  prev :: thread_pc
  terminated :: bool
  stop_result :: "bool option"
  answers :: "bool list"
  taken :: bool
  withdrawn :: bool
  notified :: "State list"

definition new_Worker :: Worker where
  "new_Worker =
     \<lparr>stop_requested = False, kicked = False, sig_raised = False, w_id = 0, w_state = kStopped, thread_set = False,
      captured = None, owner = Idle, thread = No_thread, prev = No_thread, terminated = False, stop_result = None,
      answers = [], taken = False, withdrawn = False, notified = []\<rparr>"

abbreviation signal_state :: "Worker \<Rightarrow> Worker" where
  "signal_state s \<equiv> s\<lparr>notified := notified s @ [w_state s]\<rparr>"

subsection \<open>Steps\<close>

inductive start_step :: "Worker \<Rightarrow> Worker \<Rightarrow> bool" where
  start_refused: "owner s = Idle \<Longrightarrow> w_state s \<noteq> kStopped \<Longrightarrow> start_step s s"
| start_begin: "owner s = Idle \<Longrightarrow> w_state s = kStopped \<Longrightarrow>
    start_step s (s\<lparr>w_state := kStarting, owner := Start_signal k wait\<rparr>)"
| start_signal: "owner s = Start_signal k wait \<Longrightarrow> start_step s ((signal_state s)\<lparr>owner := Start_clear k wait\<rparr>)"
| start_clear: "owner s = Start_clear k wait \<Longrightarrow> start_step s (s\<lparr>captured := None, owner := Start_kick k wait\<rparr>)"
| start_kick: "owner s = Start_kick k wait \<Longrightarrow> start_step s (s\<lparr>kicked := k, owner := Start_id wait\<rparr>)"
| start_id: "owner s = Start_id wait \<Longrightarrow> start_step s (s\<lparr>w_id := 0, owner := Start_spawn wait\<rparr>)"
| start_spawn: "owner s = Start_spawn wait \<Longrightarrow>
    start_step s (s\<lparr>prev := thread s, thread := T_begin, owner := Start_assign wait\<rparr>)"
| start_assign: "owner s = Start_assign wait \<Longrightarrow> \<not> thread_set s \<Longrightarrow>
    start_step s (s\<lparr>thread_set := True, owner := (if wait then Start_enter_wait else Idle)\<rparr>)"
| start_replaces_thread: "owner s = Start_assign wait \<Longrightarrow> thread_set s \<Longrightarrow> start_step s (s\<lparr>terminated := True\<rparr>)"
| start_enter_wait: "owner s = Start_enter_wait \<Longrightarrow> start_step s (s\<lparr>owner := Start_waiting\<rparr>)"
| start_time_out: "owner s = Start_waiting \<Longrightarrow> start_step s (s\<lparr>owner := Start_enter_wait\<rparr>)"

inductive spurious_step :: "Worker \<Rightarrow> Worker \<Rightarrow> bool" where
  start_wakes: "owner s = Start_waiting \<Longrightarrow> spurious_step s (s\<lparr>owner := Idle\<rparr>)"

inductive stop_step :: "Worker \<Rightarrow> Worker \<Rightarrow> bool" where
  stop_first: "owner s = Idle \<Longrightarrow> Stoppable_stop s = (True, t) \<Longrightarrow> stop_step s (t\<lparr>owner := Stop_kick wait False\<rparr>)"
| stop_again: "owner s = Idle \<Longrightarrow> Stoppable_stop s = (False, t) \<Longrightarrow> stop_step s (t\<lparr>owner := Stop_join wait True\<rparr>)"
| stop_kick: "owner s = Stop_kick wait already \<Longrightarrow> stop_step s (s\<lparr>kicked := True, owner := Stop_join wait already\<rparr>)"
| stop_join: "owner s = Stop_join True already \<Longrightarrow> thread_set s \<Longrightarrow> thread s = T_done \<Longrightarrow>
    stop_step s (s\<lparr>thread := No_thread, owner := Stop_reset already\<rparr>)"
| stop_reset: "owner s = Stop_reset already \<Longrightarrow>
    stop_step s (s\<lparr>thread_set := False, owner := Idle, stop_result := Some (\<not> already \<and> True)\<rparr>)"
| stop_return: "owner s = Stop_join wait already \<Longrightarrow> \<not> (wait \<and> thread_set s) \<Longrightarrow>
    stop_step s (s\<lparr>owner := Idle, stop_result := Some (\<not> already \<and> wait)\<rparr>)"

inductive thread_step :: "Worker \<Rightarrow> Worker \<Rightarrow> bool" where
  t_begin: "thread s = T_begin \<Longrightarrow> thread_step s (s\<lparr>w_id := i, thread := T_cas\<rparr>)"
| t_started: "thread s = T_cas \<Longrightarrow> w_state s = kStarting \<Longrightarrow> thread_step s (s\<lparr>w_state := kStarted, thread := T_notify\<rparr>)"
| t_not_starting: "thread s = T_cas \<Longrightarrow> w_state s \<noteq> kStarting \<Longrightarrow> thread_step s (s\<lparr>thread := T_store\<rparr>)"
| t_notify: "thread s = T_notify \<Longrightarrow>
    thread_step s (s\<lparr>owner := (if owner s = Start_waiting then Idle else owner s), thread := T_signal\<rparr>)"
| t_signal: "thread s = T_signal \<Longrightarrow> thread_step s ((signal_state s)\<lparr>thread := T_work\<rparr>)"
| t_calls_wait: "thread s = T_work \<Longrightarrow> thread_step s (s\<lparr>thread := K_test\<rparr>)"
| t_returns: "thread s = T_work \<Longrightarrow> thread_step s (s\<lparr>thread := T_store\<rparr>)"
| t_throws: "thread s = T_work \<Longrightarrow> thread_step s (s\<lparr>captured := Some what, thread := T_store\<rparr>)"
| t_throws_other: "thread s = T_work \<Longrightarrow> thread_step s (s\<lparr>terminated := True\<rparr>)"
| t_store: "thread s = T_store \<Longrightarrow> thread_step s (s\<lparr>w_state := kStopped, thread := T_signal_end\<rparr>)"
| t_signal_end: "thread s = T_signal_end \<Longrightarrow> thread_step s ((signal_state s)\<lparr>thread := T_clear_id\<rparr>)"
| t_clear_id: "thread s = T_clear_id \<Longrightarrow> thread_step s (s\<lparr>w_id := 0, thread := T_done\<rparr>)"

text \<open>The last lines of a thread that is about to be replaced.\<close>

inductive prev_step :: "Worker \<Rightarrow> Worker \<Rightarrow> bool" where
  p_signal_end: "prev s = T_signal_end \<Longrightarrow> prev_step s ((signal_state s)\<lparr>prev := T_clear_id\<rparr>)"
| p_clear_id: "prev s = T_clear_id \<Longrightarrow> prev_step s (s\<lparr>w_id := 0, prev := T_done\<rparr>)"

inductive wait_step :: "Worker \<Rightarrow> Worker \<Rightarrow> bool" where
  k_taken: "thread s = K_test \<Longrightarrow> kicked s \<Longrightarrow> wait_step s (s\<lparr>kicked := False, taken := True, thread := K_final_stop\<rparr>)"
| k_not_kicked: "thread s = K_test \<Longrightarrow> \<not> kicked s \<Longrightarrow> wait_step s (s\<lparr>thread := K_check_stop\<rparr>)"
| k_break_stop: "thread s = K_check_stop \<Longrightarrow> stop_requested s \<Longrightarrow> wait_step s (s\<lparr>taken := False, thread := K_final_stop\<rparr>)"
| k_no_stop: "thread s = K_check_stop \<Longrightarrow> \<not> stop_requested s \<Longrightarrow> wait_step s (s\<lparr>thread := K_check_sig\<rparr>)"
| k_break_sig: "thread s = K_check_sig \<Longrightarrow> sig_raised s \<Longrightarrow> wait_step s (s\<lparr>taken := False, thread := K_final_stop\<rparr>)"
| k_no_sig: "thread s = K_check_sig \<Longrightarrow> \<not> sig_raised s \<Longrightarrow> wait_step s (s\<lparr>thread := K_mark\<rparr>)"
| k_mark: "thread s = K_mark \<Longrightarrow> w_state s = kStarted \<Longrightarrow> wait_step s (s\<lparr>w_state := kKickWaiting, thread := K_mark_signal\<rparr>)"
| k_marked: "thread s = K_mark \<Longrightarrow> w_state s \<noteq> kStarted \<Longrightarrow> wait_step s (s\<lparr>thread := K_sleep\<rparr>)"
| k_mark_signal: "thread s = K_mark_signal \<Longrightarrow> wait_step s ((signal_state s)\<lparr>thread := K_sleep\<rparr>)"
| k_wakes: "thread s = K_sleep \<Longrightarrow> wait_step s (s\<lparr>thread := K_test\<rparr>)"
| k_final_stop: "thread s = K_final_stop \<Longrightarrow>
    wait_step s (s\<lparr>thread := (if stop_requested s then K_say_stop else K_final_sig)\<rparr>)"
| k_final_sig: "thread s = K_final_sig \<Longrightarrow> wait_step s (s\<lparr>thread := (if sig_raised s then K_say_stop else K_say_go)\<rparr>)"
| k_say_stop: "thread s = K_say_stop \<Longrightarrow> wait_step s (s\<lparr>w_state := kStopping, thread := K_stop_signal\<rparr>)"
| k_stop_signal: "thread s = K_stop_signal \<Longrightarrow> wait_step s ((signal_state s)\<lparr>answers := answers s @ [False], thread := T_work\<rparr>)"
| k_say_go: "thread s = K_say_go \<Longrightarrow> wait_step s (s\<lparr>w_state := kStarted, thread := K_go_signal\<rparr>)"
| k_go_signal: "thread s = K_go_signal \<Longrightarrow> wait_step s ((signal_state s)\<lparr>answers := answers s @ [True], thread := T_work\<rparr>)"

definition kick :: "Worker \<Rightarrow> Worker" where
  "kick s = s\<lparr>kicked := True\<rparr>"

text \<open>What the rest of the program and the system can do at any time; a \<^verbatim>\<open>stop(false)\<close> is a stop followed by a kick.\<close>

inductive outside_step :: "Worker \<Rightarrow> Worker \<Rightarrow> bool" where
  outside_kick: "outside_step s (kick s)"
| outside_stop: "outside_step s (snd (Stoppable_stop s))"
| outside_signal: "outside_step s (s\<lparr>sig_raised := True\<rparr>)"
| outside_reset: "outside_step s (s\<lparr>sig_raised := False, withdrawn := True\<rparr>)"

inductive worker_step :: "Worker \<Rightarrow> Worker \<Rightarrow> bool" where
  by_start: "\<not> terminated s \<Longrightarrow> start_step s t \<Longrightarrow> worker_step s t"
| by_spurious: "\<not> terminated s \<Longrightarrow> spurious_step s t \<Longrightarrow> worker_step s t"
| by_stop: "\<not> terminated s \<Longrightarrow> stop_step s t \<Longrightarrow> worker_step s t"
| by_thread: "\<not> terminated s \<Longrightarrow> thread_step s t \<Longrightarrow> worker_step s t"
| by_prev: "\<not> terminated s \<Longrightarrow> prev_step s t \<Longrightarrow> worker_step s t"
| by_wait: "\<not> terminated s \<Longrightarrow> wait_step s t \<Longrightarrow> worker_step s t"
| by_outside: "\<not> terminated s \<Longrightarrow> outside_step s t \<Longrightarrow> worker_step s t"

definition reachable :: "Worker \<Rightarrow> bool" where
  "reachable s \<longleftrightarrow> worker_step\<^sup>*\<^sup>* new_Worker s"

inductive_cases worker_stepE: "worker_step s t"

subsection \<open>Queries\<close>

definition has_exception :: "Worker \<Rightarrow> bool" where
  "has_exception s \<longleftrightarrow> captured s \<noteq> None"

definition rethrow :: "Worker \<Rightarrow> unit run" where
  "rethrow s = (case captured s of None \<Rightarrow> Ret () | Some what \<Rightarrow> Throw (Runtime_error what))"

definition worker_what :: "Worker \<Rightarrow> string" where
  "worker_what s = (case rethrow s of Throw (Runtime_error what) \<Rightarrow> what | Throw e \<Rightarrow> ''Undefined error'' | r \<Rightarrow> [])"

subsection \<open>The invariant\<close>

fun in_kick_loop :: "thread_pc \<Rightarrow> bool" where
  "in_kick_loop p \<longleftrightarrow> p \<in> {K_test, K_check_stop, K_check_sig, K_mark, K_mark_signal, K_sleep, K_final_stop, K_final_sig,
     K_say_stop, K_stop_signal, K_say_go, K_go_signal}"

definition at_work :: "thread_pc \<Rightarrow> bool" where
  "at_work p \<longleftrightarrow> p = T_work \<or> in_kick_loop p"

fun before_spawn :: "owner_pc \<Rightarrow> bool" where
  "before_spawn (Start_signal _ _) = True"
| "before_spawn (Start_clear _ _) = True"
| "before_spawn (Start_kick _ _) = True"
| "before_spawn (Start_id _) = True"
| "before_spawn (Start_spawn _) = True"
| "before_spawn _ = False"

fun assigning :: "owner_pc \<Rightarrow> bool" where
  "assigning (Start_assign _) = True"
| "assigning _ = False"

fun resetting :: "owner_pc \<Rightarrow> bool" where
  "resetting (Stop_reset _) = True"
| "resetting _ = False"

fun resting :: "thread_pc \<Rightarrow> bool" where
  "resting No_thread = True"
| "resting T_signal_end = True"
| "resting T_clear_id = True"
| "resting T_done = True"
| "resting _ = False"

fun allowed :: "thread_pc \<Rightarrow> State set" where
  "allowed No_thread = {kStopped}"
| "allowed T_begin = {kStarting}"
| "allowed T_cas = {kStarting}"
| "allowed T_notify = {kStarted}"
| "allowed T_signal = {kStarted}"
| "allowed T_work = {kStarted, kStopping}"
| "allowed K_mark_signal = {kKickWaiting}"
| "allowed K_stop_signal = {kStopping}"
| "allowed K_go_signal = {kStarted}"
| "allowed T_store = {kStarted, kStopping}"
| "allowed T_signal_end = {kStopped}"
| "allowed T_clear_id = {kStopped}"
| "allowed T_done = {kStopped}"
| "allowed _ = {kStarted, kKickWaiting, kStopping}"

text \<open>
  How the published state, the threads and the owner agree. Between the first step of \<^verbatim>\<open>start\<close> and the creation of the thread
  no thread is at work; otherwise the state is one the place of the thread allows. \<^verbatim>\<open>thread_\<close> tells whether there is a thread that was
  not joined, except that \<^verbatim>\<open>start\<close> stores the new thread after creating it and \<^verbatim>\<open>stop\<close> clears it after the join.
\<close>

definition state_ok :: "Worker \<Rightarrow> bool" where
  "state_ok s \<longleftrightarrow> (if before_spawn (owner s) then w_state s = kStarting \<and> resting (thread s) else w_state s \<in> allowed (thread s))"

definition pointer_ok :: "Worker \<Rightarrow> bool" where
  "pointer_ok s \<longleftrightarrow>
     (if assigning (owner s) then thread s \<noteq> No_thread \<and> resting (prev s) \<and> (thread_set s \<longleftrightarrow> prev s \<noteq> No_thread)
      else prev s = No_thread \<and>
        (if resetting (owner s) then thread s = No_thread \<and> thread_set s else thread_set s \<longleftrightarrow> thread s \<noteq> No_thread))"

text \<open>Why the loop of \<^verbatim>\<open>wait_for_kick\<close> ended, as long as no signal was reset.\<close>

fun exit_reason :: "thread_pc \<Rightarrow> Worker \<Rightarrow> bool" where
  "exit_reason K_final_stop s \<longleftrightarrow> taken s \<or> stop_requested s \<or> sig_raised s"
| "exit_reason K_final_sig s \<longleftrightarrow> taken s \<or> sig_raised s"
| "exit_reason K_say_go s \<longleftrightarrow> taken s"
| "exit_reason K_go_signal s \<longleftrightarrow> taken s"
| "exit_reason K_say_stop s \<longleftrightarrow> stop_requested s \<or> sig_raised s"
| "exit_reason K_stop_signal s \<longleftrightarrow> stop_requested s \<or> sig_raised s"
| "exit_reason _ s \<longleftrightarrow> True"

definition worker_inv :: "Worker \<Rightarrow> bool" where
  "worker_inv s \<longleftrightarrow> state_ok s \<and> pointer_ok s \<and> (\<not> withdrawn s \<longrightarrow> exit_reason (thread s) s)"

lemma resting_exit: "resting p \<Longrightarrow> exit_reason p s"
  by (cases p) simp_all

lemma resting_allowed: "kStopped \<in> allowed p \<longleftrightarrow> resting p"
  by (cases p) simp_all

lemma exit_reason_cong [simp]:
  "exit_reason p (s\<lparr>w_state := a\<rparr>) = exit_reason p s" "exit_reason p (s\<lparr>owner := b\<rparr>) = exit_reason p s"
  "exit_reason p (s\<lparr>notified := c\<rparr>) = exit_reason p s" "exit_reason p (s\<lparr>captured := d\<rparr>) = exit_reason p s"
  "exit_reason p (s\<lparr>kicked := e\<rparr>) = exit_reason p s" "exit_reason p (s\<lparr>w_id := i\<rparr>) = exit_reason p s"
  "exit_reason p (s\<lparr>thread := q\<rparr>) = exit_reason p s" "exit_reason p (s\<lparr>prev := q\<rparr>) = exit_reason p s"
  "exit_reason p (s\<lparr>thread_set := f\<rparr>) = exit_reason p s" "exit_reason p (s\<lparr>terminated := f\<rparr>) = exit_reason p s"
  "exit_reason p (s\<lparr>stop_result := g\<rparr>) = exit_reason p s" "exit_reason p (s\<lparr>answers := h\<rparr>) = exit_reason p s"
  by (cases p; simp)+

lemma exit_reason_more:
  "exit_reason p s \<Longrightarrow> exit_reason p (s\<lparr>stop_requested := True\<rparr>)" "exit_reason p s \<Longrightarrow> exit_reason p (s\<lparr>sig_raised := True\<rparr>)"
  by (cases p; simp)+

lemmas inv_simps = worker_inv_def state_ok_def pointer_ok_def Stoppable_stop_def resting_allowed

lemma start_step_inv: "start_step s t \<Longrightarrow> worker_inv s \<Longrightarrow> worker_inv t"
  by (induction rule: start_step.induct) (auto simp: inv_simps resting_exit)

lemma spurious_step_inv: "spurious_step s t \<Longrightarrow> worker_inv s \<Longrightarrow> worker_inv t"
  by (induction rule: spurious_step.induct) (auto simp: inv_simps)

lemma stop_step_inv: "stop_step s t \<Longrightarrow> worker_inv s \<Longrightarrow> worker_inv t"
  by (induction rule: stop_step.induct) (auto simp: inv_simps exit_reason_more split: if_splits)

lemma thread_step_inv: "thread_step s t \<Longrightarrow> worker_inv s \<Longrightarrow> worker_inv t"
  by (induction rule: thread_step.induct) (auto simp: inv_simps split: if_splits)

lemma prev_step_inv: "prev_step s t \<Longrightarrow> worker_inv s \<Longrightarrow> worker_inv t"
  by (induction rule: prev_step.induct) (auto simp: inv_simps split: if_splits)

lemma wait_step_inv: "wait_step s t \<Longrightarrow> worker_inv s \<Longrightarrow> worker_inv t"
  by (induction rule: wait_step.induct) (auto simp: inv_simps split: if_splits)

lemma outside_step_inv: "outside_step s t \<Longrightarrow> worker_inv s \<Longrightarrow> worker_inv t"
  by (induction rule: outside_step.induct) (auto simp: inv_simps kick_def exit_reason_more)

lemmas step_invs = start_step_inv spurious_step_inv stop_step_inv thread_step_inv prev_step_inv wait_step_inv outside_step_inv

lemma worker_step_inv: "worker_step s t \<Longrightarrow> worker_inv s \<Longrightarrow> worker_inv t"
  by (elim worker_stepE; rule step_invs; assumption)

lemma reachable_inv: "reachable s \<Longrightarrow> worker_inv s"
  unfolding reachable_def
proof (induction rule: rtranclp_induct)
  case base
  show ?case by (simp add: new_Worker_def inv_simps)
qed (rule worker_step_inv)

subsection \<open>Stopping\<close>

lemmas step_elims = start_step.cases spurious_step.cases stop_step.cases thread_step.cases prev_step.cases wait_step.cases
  outside_step.cases

lemma stop_requested_stays: "worker_step s t \<Longrightarrow> stop_requested s \<Longrightarrow> stop_requested t"
  by (elim worker_stepE step_elims) (auto simp: Stoppable_stop_def kick_def split: if_splits)

text \<open>How many more steps of its own the thread can take inside \<^verbatim>\<open>wait_for_kick\<close> once a stop was requested.\<close>

fun kick_rank :: "thread_pc \<Rightarrow> nat" where
  "kick_rank K_check_sig = 10"
| "kick_rank K_mark = 9"
| "kick_rank K_mark_signal = 8"
| "kick_rank K_sleep = 7"
| "kick_rank K_test = 6"
| "kick_rank K_check_stop = 5"
| "kick_rank K_final_stop = 4"
| "kick_rank K_final_sig = 3"
| "kick_rank K_say_stop = 2"
| "kick_rank K_say_go = 2"
| "kick_rank K_stop_signal = 1"
| "kick_rank K_go_signal = 1"
| "kick_rank _ = 0"

lemma wait_step_rank: "wait_step s t \<Longrightarrow> stop_requested s \<Longrightarrow> kick_rank (thread t) < kick_rank (thread s)"
  by (induction rule: wait_step.induct) simp_all

lemma wait_step_exists: "in_kick_loop (thread s) \<Longrightarrow> \<exists>t. wait_step s t"
  by (cases "thread s"; simp; (cases "kicked s")?; (cases "stop_requested s")?; (cases "sig_raised s")?;
      (cases "w_state s = kStarted")?; blast intro: wait_step.intros)

lemma wait_step_result:
  "wait_step s t \<Longrightarrow> in_kick_loop (thread t) \<and> answers t = answers s \<or> thread t = T_work \<and> (\<exists>b. answers t = answers s @ [b])"
  by (induction rule: wait_step.induct) auto

lemma others_keep_pc:
  assumes "worker_step s t" "worker_inv s" "in_kick_loop (thread s)" "\<not> wait_step s t"
  shows "thread t = thread s \<and> answers t = answers s"
  using assms(1)
proof (cases rule: worker_step.cases)
  case by_start
  from by_start(2) assms(2,3) show ?thesis
    by (cases rule: start_step.cases) (auto simp: worker_inv_def state_ok_def)
qed (use assms in \<open>auto elim!: spurious_step.cases stop_step.cases thread_step.cases prev_step.cases outside_step.cases
  simp: Stoppable_stop_def kick_def split: if_splits\<close>)

text \<open>The places behind the last read of \<^verbatim>\<open>stop_requested_\<close> from which the call still answers true.\<close>

definition too_late :: "thread_pc \<Rightarrow> bool" where
  "too_late p \<longleftrightarrow> p \<in> {K_final_sig, K_say_go, K_go_signal}"

lemma answers_after_stop:
  assumes "worker_step s t" "stop_requested s"
  shows "answers t = answers s \<and> (too_late (thread t) \<longrightarrow> too_late (thread s))
    \<or> answers t = answers s @ [False] \<and> \<not> too_late (thread t)
    \<or> answers t = answers s @ [True] \<and> too_late (thread s) \<and> \<not> too_late (thread t)"
  using assms
  by (elim worker_stepE step_elims) (auto simp: too_late_def Stoppable_stop_def kick_def split: if_splits)

text \<open>A list of answers all false, apart from the first if that came late.\<close>

definition false_after :: "bool \<Rightarrow> bool list \<Rightarrow> bool" where
  "false_after late bs \<longleftrightarrow> (\<exists>n. bs = replicate n False \<or> late \<and> bs = True # replicate n False)"

lemma false_after_simps: "false_after late []" "false_after late [False]" "late \<Longrightarrow> false_after late [True]"
  by (auto simp: false_after_def intro: exI [of _ 0] exI [of _ 1])

lemma false_after_more: "false_after late bs \<Longrightarrow> false_after late (bs @ [False])"
  unfolding false_after_def by (metis append_Cons replicate_Suc replicate_append_same)

lemma answers_run:
  assumes "worker_step\<^sup>*\<^sup>* s t" "stop_requested s"
  shows "stop_requested t \<and> (\<exists>bs. answers t = answers s @ bs \<and> false_after (too_late (thread s)) bs
    \<and> (too_late (thread t) \<longrightarrow> too_late (thread s) \<and> bs = []))"
  using assms(1)
proof (induction rule: rtranclp_induct)
  case base
  then show ?case using assms(2) by (auto intro: false_after_simps)
next
  case (step t u)
  then obtain bs where t: "stop_requested t" "answers t = answers s @ bs" "false_after (too_late (thread s)) bs"
    "too_late (thread t) \<longrightarrow> too_late (thread s) \<and> bs = []" by blast
  from answers_after_stop [OF step.hyps(2) t(1)] show ?case
  proof (elim disjE conjE)
    assume "answers u = answers t" "too_late (thread u) \<longrightarrow> too_late (thread t)"
    with t stop_requested_stays [OF step.hyps(2) t(1)] show ?thesis by (intro conjI exI [of _ bs]) simp_all
  next
    assume "answers u = answers t @ [False]" "\<not> too_late (thread u)"
    with t stop_requested_stays [OF step.hyps(2) t(1)] false_after_more [OF t(3)] show ?thesis by (intro conjI exI [of _ "bs @ [False]"]) simp_all
  next
    assume "answers u = answers t @ [True]" "too_late (thread t)" "\<not> too_late (thread u)"
    with t stop_requested_stays [OF step.hyps(2) t(1)] show ?thesis by (intro conjI exI [of _ "[True]"]) (simp_all add: false_after_simps)
  qed
qed

subsection \<open>The wait for the thread to start\<close>

fun past_notify :: "thread_pc \<Rightarrow> bool" where
  "past_notify No_thread = False"
| "past_notify T_begin = False"
| "past_notify T_cas = False"
| "past_notify T_notify = False"
| "past_notify _ = True"

definition start_stuck :: "Worker \<Rightarrow> bool" where
  "start_stuck s \<longleftrightarrow> (owner s = Start_enter_wait \<or> owner s = Start_waiting) \<and> past_notify (thread s)"

definition notified_step :: "Worker \<Rightarrow> Worker \<Rightarrow> bool" where
  "notified_step s t \<longleftrightarrow> worker_step s t \<and> \<not> spurious_step s t"

lemma start_stuck_stays: "notified_step s t \<Longrightarrow> start_stuck s \<Longrightarrow> start_stuck t"
  unfolding notified_step_def
  by (elim conjE worker_stepE step_elims)
    (auto simp: start_stuck_def kick_def Stoppable_stop_def intro: start_wakes split: if_splits)

lemma start_stuck_forever: "notified_step\<^sup>*\<^sup>* s t \<Longrightarrow> start_stuck s \<Longrightarrow> start_stuck t"
  by (induction rule: rtranclp_induct) (auto intro: start_stuck_stays)

definition restart_stuck :: "Worker \<Rightarrow> bool" where
  "restart_stuck s \<longleftrightarrow> thread_set s \<and> (before_spawn (owner s) \<and> thread s = T_done \<or> assigning (owner s))"

lemma restart_stuck_stays: "worker_step s t \<Longrightarrow> restart_stuck s \<Longrightarrow> restart_stuck t"
  by (elim worker_stepE step_elims) (auto simp: restart_stuck_def kick_def Stoppable_stop_def split: if_splits)

lemma restart_stuck_forever: "worker_step\<^sup>*\<^sup>* s t \<Longrightarrow> restart_stuck s \<Longrightarrow> restart_stuck t"
  by (induction rule: rtranclp_induct) (auto intro: restart_stuck_stays)

subsection \<open>Runs\<close>

text \<open>Runs are built rule by rule, from any state in which \<^verbatim>\<open>start\<close> passes its guard.\<close>

lemma reachable_new: "reachable new_Worker"
  by (simp add: reachable_def)

lemma reachable_step: "reachable s \<Longrightarrow> worker_step s t \<Longrightarrow> reachable t"
  unfolding reachable_def by (rule rtranclp.rtrancl_into_rtrancl)

lemma reachable_run: "reachable s \<Longrightarrow> worker_step\<^sup>*\<^sup>* s t \<Longrightarrow> reachable t"
  unfolding reachable_def by (rule rtranclp_trans)

lemma start_run:
  assumes "owner s = Idle" "w_state s = kStopped" "\<not> terminated s"
  shows "worker_step\<^sup>*\<^sup>* (s\<lparr>w_state := kStarting, owner := Start_signal k wait\<rparr>)
    (s\<lparr>w_state := kStarting, notified := notified s @ [kStarting], captured := None, kicked := k, w_id := 0, prev := thread s,
       thread := T_begin, owner := Start_assign wait\<rparr>)"
proof -
  let ?s1 = "s\<lparr>w_state := kStarting, owner := Start_signal k wait\<rparr>"
  let ?s2 = "(signal_state ?s1)\<lparr>owner := Start_clear k wait\<rparr>"
  let ?s3 = "?s2\<lparr>captured := None, owner := Start_kick k wait\<rparr>"
  let ?s4 = "?s3\<lparr>kicked := k, owner := Start_id wait\<rparr>"
  let ?s5 = "?s4\<lparr>w_id := 0, owner := Start_spawn wait\<rparr>"
  let ?s6 = "?s5\<lparr>prev := thread ?s5, thread := T_begin, owner := Start_assign wait\<rparr>"
  have "worker_step ?s1 ?s2" by (rule by_start, simp add: assms) (rule start_signal, simp)
  moreover have "worker_step ?s2 ?s3" by (rule by_start, simp add: assms) (rule start_clear, simp)
  moreover have "worker_step ?s3 ?s4" by (rule by_start, simp add: assms) (rule start_kick, simp)
  moreover have "worker_step ?s4 ?s5" by (rule by_start, simp add: assms) (rule start_id, simp)
  moreover have "worker_step ?s5 ?s6" by (rule by_start, simp add: assms) (rule start_spawn, simp)
  ultimately have "worker_step\<^sup>*\<^sup>* ?s1 ?s6" by (meson converse_rtranclp_into_rtranclp rtranclp.rtrancl_refl)
  then show ?thesis by simp
qed

lemma reach_spawned:
  "\<exists>s. reachable s \<and> owner s = Start_assign wait \<and> thread s = T_begin \<and> \<not> terminated s \<and> \<not> thread_set s \<and> answers s = []
     \<and> w_state s = kStarting \<and> kicked s = k \<and> \<not> stop_requested s \<and> \<not> sig_raised s"
proof -
  let ?s1 = "new_Worker\<lparr>w_state := kStarting, owner := Start_signal k wait\<rparr>"
  have "reachable ?s1"
    by (rule reachable_step [OF reachable_new], rule by_start, simp add: new_Worker_def)
      (rule start_begin; simp add: new_Worker_def)
  let ?s2 = "new_Worker\<lparr>w_state := kStarting, notified := notified new_Worker @ [kStarting], captured := None, kicked := k, w_id := 0,
    prev := thread new_Worker, thread := T_begin, owner := Start_assign wait\<rparr>"
  have "reachable ?s2" by (rule reachable_run [OF \<open>reachable ?s1\<close> start_run]) (simp_all add: new_Worker_def)
  then show ?thesis by (intro exI [of _ ?s2]) (simp add: new_Worker_def)
qed

text \<open>The thread goes to work, whatever the owner does meanwhile, unless that waits.\<close>

lemma begin_run:
  assumes "thread s = T_begin" "w_state s = kStarting" "\<not> terminated s" "owner s \<noteq> Start_waiting"
  shows "worker_step\<^sup>*\<^sup>* s (s\<lparr>w_id := 1, w_state := kStarted, notified := notified s @ [kStarted], thread := T_work\<rparr>)"
proof -
  let ?s1 = "s\<lparr>w_id := 1, thread := T_cas\<rparr>"
  let ?s2 = "?s1\<lparr>w_state := kStarted, thread := T_notify\<rparr>"
  let ?s3 = "?s2\<lparr>owner := (if owner ?s2 = Start_waiting then Idle else owner ?s2), thread := T_signal\<rparr>"
  let ?s4 = "(signal_state ?s3)\<lparr>thread := T_work\<rparr>"
  have "worker_step s ?s1" by (rule by_thread, simp add: assms) (rule t_begin, simp add: assms)
  moreover have "worker_step ?s1 ?s2" by (rule by_thread, simp add: assms) (rule t_started, simp_all add: assms)
  moreover have "worker_step ?s2 ?s3" by (rule by_thread, simp add: assms) (rule t_notify, simp)
  moreover have "worker_step ?s3 ?s4" by (rule by_thread, simp add: assms) (rule t_signal, simp)
  ultimately have "worker_step\<^sup>*\<^sup>* s ?s4" by (meson converse_rtranclp_into_rtranclp rtranclp.rtrancl_refl)
  then show ?thesis using assms(4) by simp
qed

lemma reach_working:
  "\<exists>s. reachable s \<and> owner s = (if wait then Start_enter_wait else Idle) \<and> thread s = T_work
     \<and> \<not> terminated s \<and> thread_set s \<and> answers s = [] \<and> w_state s = kStarted \<and> kicked s = k \<and> \<not> stop_requested s \<and> \<not> sig_raised s"
proof -
  obtain s where s: "reachable s" "owner s = Start_assign wait" "thread s = T_begin" "\<not> terminated s" "\<not> thread_set s"
    "w_state s = kStarting" "kicked s = k" "\<not> stop_requested s" "\<not> sig_raised s" "answers s = []" using reach_spawned by blast
  let ?s1 = "s\<lparr>thread_set := True, owner := (if wait then Start_enter_wait else Idle)\<rparr>"
  have "reachable ?s1" by (rule reachable_step [OF s(1)], rule by_start [OF s(4)], rule start_assign [OF s(2,5)])
  let ?s2 = "?s1\<lparr>w_id := 1, w_state := kStarted, notified := notified ?s1 @ [kStarted], thread := T_work\<rparr>"
  have "reachable ?s2" by (rule reachable_run [OF \<open>reachable ?s1\<close> begin_run]) (simp_all add: s)
  then show ?thesis by (intro exI [of _ ?s2]) (simp add: s)
qed

lemma reach_waiting:
  "\<exists>s. reachable s \<and> thread s = K_test \<and> \<not> terminated s \<and> answers s = [] \<and> kicked s = k \<and> \<not> stop_requested s \<and> \<not> sig_raised s"
proof -
  obtain s where s: "reachable s" "thread s = T_work" "\<not> terminated s" "kicked s = k" "\<not> stop_requested s" "\<not> sig_raised s" "answers s = []"
    using reach_working [of False k] by auto
  let ?s1 = "s\<lparr>thread := K_test\<rparr>"
  have "reachable ?s1" by (rule reachable_step [OF s(1)], rule by_thread [OF s(3)], rule t_calls_wait [OF s(2)])
  then show ?thesis using s by (intro exI [of _ ?s1]) simp
qed

lemma reach_finished:
  "\<exists>s. reachable s \<and> owner s = Idle \<and> thread s = T_done \<and> \<not> terminated s \<and> thread_set s \<and> w_state s = kStopped"
proof -
  obtain s where s: "reachable s" "owner s = Idle" "thread s = T_work" "\<not> terminated s" "thread_set s"
    using reach_working [of False True] by auto
  let ?s1 = "s\<lparr>thread := T_store\<rparr>"
  have 1: "reachable ?s1" by (rule reachable_step [OF s(1)], rule by_thread [OF s(4)], rule t_returns [OF s(3)])
  let ?s2 = "?s1\<lparr>w_state := kStopped, thread := T_signal_end\<rparr>"
  have 2: "reachable ?s2" by (rule reachable_step [OF 1], rule by_thread, simp add: s) (rule t_store, simp)
  let ?s3 = "(signal_state ?s2)\<lparr>thread := T_clear_id\<rparr>"
  have 3: "reachable ?s3" by (rule reachable_step [OF 2], rule by_thread, simp add: s) (rule t_signal_end, simp)
  let ?s4 = "?s3\<lparr>w_id := 0, thread := T_done\<rparr>"
  have "reachable ?s4" by (rule reachable_step [OF 3], rule by_thread, simp add: s) (rule t_clear_id, simp)
  then show ?thesis by (intro exI [of _ ?s4]) (simp add: s)
qed

subsection \<open>Properties\<close>

text \<open>
  C6: In every reachable state the published state is true: while the work of the worker runs it is neither
  \<^verbatim>\<open>kStopped\<close> nor \<^verbatim>\<open>kStarting\<close>, it is \<^verbatim>\<open>kKickWaiting\<close> only inside \<^verbatim>\<open>wait_for_kick\<close>, and when it is \<^verbatim>\<open>kStopped\<close> the work is over or was never begun. \<^verbatim>\<open>thread_\<close> is
  set while there is a thread that was not joined, except between the creation of a thread and its assignment in \<^verbatim>\<open>start\<close>; it is set without
  a thread only between the join and the reset in \<^verbatim>\<open>stop\<close>. A thread that is being replaced is past its work, so two never work at once.
\<close>

theorem worker_state_truthful:
  assumes "reachable s"
  shows "(at_work (thread s) \<longrightarrow> w_state s \<noteq> kStopped \<and> w_state s \<noteq> kStarting)
    \<and> (w_state s = kKickWaiting \<longrightarrow> in_kick_loop (thread s)) \<and> (w_state s = kStopped \<longrightarrow> resting (thread s))
    \<and> (thread s \<noteq> No_thread \<and> \<not> assigning (owner s) \<longrightarrow> thread_set s)
    \<and> (thread_set s \<and> \<not> resetting (owner s) \<longrightarrow> thread s \<noteq> No_thread)
    \<and> (assigning (owner s) \<longrightarrow> (thread_set s \<longleftrightarrow> prev s \<noteq> No_thread)) \<and> resting (prev s)"
proof -
  have inv: "state_ok s" "pointer_ok s" using reachable_inv [OF assms] by (simp_all add: worker_inv_def)
  have "at_work p \<Longrightarrow> \<not> resting p \<and> kStarting \<notin> allowed p" "kKickWaiting \<in> allowed p \<Longrightarrow> in_kick_loop p" for p
    by (cases p; simp add: at_work_def)+
  with inv(1) have "(at_work (thread s) \<longrightarrow> w_state s \<noteq> kStopped \<and> w_state s \<noteq> kStarting)
    \<and> (w_state s = kKickWaiting \<longrightarrow> in_kick_loop (thread s)) \<and> (w_state s = kStopped \<longrightarrow> resting (thread s))"
    by (auto simp: state_ok_def resting_allowed simp del: in_kick_loop.simps split: if_splits)
  with inv(2) show ?thesis by (auto simp: pointer_ok_def simp del: in_kick_loop.simps split: if_splits)
qed

theorem worker_state_truthful_witness:
  "\<exists>s. reachable s \<and> at_work (thread s) \<and> w_state s \<noteq> kStopped \<and> thread_set s"
  using reach_working [of True True] worker_state_truthful by (metis at_work_def)

text \<open>
  The thread can be at work while \<^verbatim>\<open>thread_\<close> is still empty, so that \<^verbatim>\<open>id\<close>, called from a handler of the state change, finds no thread.
\<close>

theorem works_before_assignment:
  "\<exists>s. reachable s \<and> thread s = T_work \<and> \<not> thread_set s"
proof -
  obtain s where s: "reachable s" "owner s = Start_assign False" "thread s = T_begin" "\<not> terminated s" "\<not> thread_set s"
    "w_state s = kStarting" using reach_spawned by blast
  let ?s1 = "s\<lparr>w_id := 1, w_state := kStarted, notified := notified s @ [kStarted], thread := T_work\<rparr>"
  have "reachable ?s1" by (rule reachable_run [OF s(1) begin_run]) (simp_all add: s)
  then show ?thesis by (intro exI [of _ ?s1]) (simp add: s)
qed

text \<open>
  \<^verbatim>\<open>wait_for_kick\<close> answers correctly as long as no signal is reset: when it is about to return true it has taken a kick and the
  state is \<^verbatim>\<open>kStarted\<close>; when it is about to return false the worker was asked to stop and the state is \<^verbatim>\<open>kStopping\<close>.
\<close>

theorem wait_for_kick_answer:
  assumes "reachable s" and "\<not> withdrawn s"
  shows "(thread s = K_go_signal \<longrightarrow> taken s \<and> w_state s = kStarted)
    \<and> (thread s = K_stop_signal \<longrightarrow> (stop_requested s \<or> sig_raised s) \<and> w_state s = kStopping)"
  using reachable_inv [OF assms(1)] assms(2) by (auto simp: worker_inv_def state_ok_def split: if_splits)

text \<open>
  When a signal is reset it may answer true without a kick: the signal ends the loop, and the second check no longer sees it.
\<close>

theorem answers_true_without_kick:
  "\<exists>s. reachable s \<and> thread s = T_work \<and> \<not> taken s \<and> answers s = [True]"
proof -
  obtain s where s: "reachable s" "thread s = K_test" "\<not> terminated s" "\<not> kicked s" "\<not> stop_requested s" "answers s = []"
    using reach_waiting [of False] by blast
  let ?s1 = "s\<lparr>thread := K_check_stop\<rparr>"
  let ?s2 = "?s1\<lparr>thread := K_check_sig\<rparr>"
  let ?s3 = "?s2\<lparr>sig_raised := True\<rparr>"
  let ?s4 = "?s3\<lparr>taken := False, thread := K_final_stop\<rparr>"
  let ?s5 = "?s4\<lparr>sig_raised := False, withdrawn := True\<rparr>"
  let ?s6 = "?s5\<lparr>thread := (if stop_requested ?s5 then K_say_stop else K_final_sig)\<rparr>"
  let ?s7 = "?s6\<lparr>thread := (if sig_raised ?s6 then K_say_stop else K_say_go)\<rparr>"
  let ?s8 = "?s7\<lparr>w_state := kStarted, thread := K_go_signal\<rparr>"
  let ?s9 = "(signal_state ?s8)\<lparr>answers := answers ?s8 @ [True], thread := T_work\<rparr>"
  have 1: "reachable ?s1" by (rule reachable_step [OF s(1)], rule by_wait [OF s(3)], rule k_not_kicked [OF s(2,4)])
  have 2: "reachable ?s2" by (rule reachable_step [OF 1], rule by_wait, simp add: s) (rule k_no_stop; simp add: s)
  have 3: "reachable ?s3" by (rule reachable_step [OF 2], rule by_outside, simp add: s) (rule outside_signal)
  have 4: "reachable ?s4" by (rule reachable_step [OF 3], rule by_wait, simp add: s) (rule k_break_sig; simp)
  have 5: "reachable ?s5" by (rule reachable_step [OF 4], rule by_outside, simp add: s) (rule outside_reset)
  have 6: "reachable ?s6" by (rule reachable_step [OF 5], rule by_wait, simp add: s) (rule k_final_stop; simp)
  have 7: "reachable ?s7" by (rule reachable_step [OF 6], rule by_wait, simp add: s) (rule k_final_sig; simp add: s)
  have 8: "reachable ?s8" by (rule reachable_step [OF 7], rule by_wait, simp add: s) (rule k_say_go; simp add: s)
  have "reachable ?s9" by (rule reachable_step [OF 8], rule by_wait, simp add: s) (rule k_go_signal; simp)
  then show ?thesis by (intro exI [of _ ?s9]) (simp add: s)
qed

text \<open>
  C11: A stop request ends the wait, however the threads interleave: the request is never withdrawn; inside
  \<^verbatim>\<open>wait_for_kick\<close> the thread always has a step, each of its steps decreases a rank that is at most ten until the call answers, and no
  step of another thread moves it. From then on every call answers false, in this thread and in those started later, with one exception: a call that had already
  read \<^verbatim>\<open>stop_requested_\<close> for the last time when the request came may still answer true.
\<close>

theorem stop_ends_wait:
  assumes "reachable s" and "stop_requested s" and "in_kick_loop (thread s)"
  shows "kick_rank (thread s) \<le> 10 \<and> (\<exists>t. wait_step s t)
    \<and> (\<forall>t. wait_step s t \<longrightarrow> kick_rank (thread t) < kick_rank (thread s)
          \<and> (in_kick_loop (thread t) \<and> answers t = answers s \<or> thread t = T_work \<and> (\<exists>b. answers t = answers s @ [b])))
    \<and> (\<forall>t. worker_step s t \<longrightarrow> stop_requested t \<and> (wait_step s t \<or> thread t = thread s \<and> answers t = answers s))
    \<and> (\<forall>t. worker_step\<^sup>*\<^sup>* s t \<longrightarrow> (\<exists>n. answers t = answers s @ replicate n False
          \<or> too_late (thread s) \<and> answers t = answers s @ True # replicate n False))"
proof -
  have "kick_rank p \<le> 10" for p by (cases p) simp_all
  moreover have "\<exists>n. answers t = answers s @ replicate n False \<or> too_late (thread s) \<and> answers t = answers s @ True # replicate n False"
    if "worker_step\<^sup>*\<^sup>* s t" for t
    using answers_run [OF that assms(2)] by (auto simp: false_after_def)
  ultimately show ?thesis
    using wait_step_exists [OF assms(3)] stop_requested_stays [OF _ assms(2)] wait_step_rank [OF _ assms(2)]
      wait_step_result others_keep_pc [OF _ reachable_inv [OF assms(1)] assms(3)] by blast
qed

theorem stop_ends_wait_witness:
  "\<exists>s t. reachable s \<and> stop_requested s \<and> \<not> too_late (thread s) \<and> wait_step s t \<and> kick_rank (thread t) < kick_rank (thread s)
    \<and> (\<forall>u. worker_step\<^sup>*\<^sup>* s u \<longrightarrow> set (answers u) \<subseteq> {False})"
proof -
  obtain s where s: "reachable s" "thread s = K_test" "\<not> terminated s" "answers s = []"
    using reach_waiting by blast
  let ?s1 = "snd (Stoppable_stop s)"
  have r: "reachable ?s1" by (rule reachable_step [OF s(1)], rule by_outside [OF s(3)], rule outside_stop)
  have q: "stop_requested ?s1" "thread ?s1 = K_test" "answers ?s1 = []" using s by (simp_all add: Stoppable_stop_def)
  have late: "\<not> too_late (thread ?s1)" using q(2) by (simp add: too_late_def)
  have loop: "in_kick_loop (thread ?s1)" using q(2) by simp
  note facts = stop_ends_wait [OF r q(1) loop]
  from facts obtain t where t: "wait_step ?s1 t" by blast
  with facts have "kick_rank (thread t) < kick_rank (thread ?s1)" by blast
  moreover have "set (answers u) \<subseteq> {False}" if "worker_step\<^sup>*\<^sup>* ?s1 u" for u
  proof -
    from facts that late q(3) obtain n where "answers u = replicate n False" by auto
    then show ?thesis by auto
  qed
  ultimately show ?thesis using r q(1) late t by blast
qed

text \<open>
  A lost wake-up: \<^verbatim>\<open>start(kicked, wait=true)\<close> can miss the only notification of the new thread, sent before
  the caller begins to wait. Such a state is reachable, and from it the call never returns unless the condition variable wakes for no reason.
\<close>

theorem start_can_wait_forever:
  "\<exists>s. reachable s \<and> owner s = Start_enter_wait \<and> w_state s = kStarted
    \<and> (\<forall>t. notified_step\<^sup>*\<^sup>* s t \<longrightarrow> owner t = Start_enter_wait \<or> owner t = Start_waiting)"
proof -
  obtain s where s: "reachable s" "owner s = Start_enter_wait" "thread s = T_work" "w_state s = kStarted"
    using reach_working [of True True] by auto
  then have "start_stuck s" by (simp add: start_stuck_def)
  then have "start_stuck t" if "notified_step\<^sup>*\<^sup>* s t" for t using start_stuck_forever [OF that] by blast
  with s show ?thesis by (auto simp: start_stuck_def)
qed

text \<open>
  A worker whose thread ended by itself reads \<^verbatim>\<open>kStopped\<close>, and starting it again without \<^verbatim>\<open>stop(true)\<close> ends the
  process: the state is reachable, \<^verbatim>\<open>start\<close> passes its guard and creates a thread, which may even work, but storing it destroys
  the unjoined one, which calls \<^verbatim>\<open>std::terminate\<close>, and no run gets past that point.
\<close>

theorem restart_terminates:
  "\<exists>s t. reachable s \<and> owner s = Idle \<and> w_state s = kStopped \<and> \<not> terminated s
    \<and> worker_step s t \<and> owner t = Start_signal k wait
    \<and> (\<exists>u. worker_step\<^sup>*\<^sup>* t u \<and> terminated u)
    \<and> (\<forall>u. worker_step\<^sup>*\<^sup>* t u \<longrightarrow> before_spawn (owner u) \<or> assigning (owner u))"
proof -
  obtain s where s: "reachable s" "owner s = Idle" "thread s = T_done" "\<not> terminated s" "thread_set s" "w_state s = kStopped"
    using reach_finished by blast
  let ?t = "s\<lparr>w_state := kStarting, owner := Start_signal k wait\<rparr>"
  let ?s2 = "s\<lparr>w_state := kStarting, notified := notified s @ [kStarting], captured := None, kicked := k, w_id := 0, prev := thread s,
    thread := T_begin, owner := Start_assign wait\<rparr>"
  let ?u = "?s2\<lparr>terminated := True\<rparr>"
  have t: "worker_step s ?t" by (rule by_start [OF s(4)], rule start_begin [OF s(2,6)])
  have "worker_step ?s2 ?u" by (rule by_start, simp add: s) (rule start_replaces_thread; simp add: s)
  with start_run [OF s(2,6,4)] have u: "worker_step\<^sup>*\<^sup>* ?t ?u" by (rule rtranclp.rtrancl_into_rtrancl)
  have "restart_stuck ?t" using s by (simp add: restart_stuck_def)
  then have "before_spawn (owner v) \<or> assigning (owner v)" if "worker_step\<^sup>*\<^sup>* ?t v" for v
    using restart_stuck_forever [OF that] by (auto simp: restart_stuck_def)
  with t u s show ?thesis by (intro exI [of _ s] exI [of _ ?t] conjI exI [of _ ?u]) simp_all
qed

text \<open>
  When \<^verbatim>\<open>stop(true)\<close> returns, as in the destructor, there is no thread left, \<^verbatim>\<open>thread_\<close> is empty and the state is \<^verbatim>\<open>kStopped\<close>, so nothing
  joinable is destroyed; the result tells whether this call was the first request.
\<close>

theorem stop_leaves_no_thread:
  assumes "reachable s" and "owner s = Stop_join True already \<or> owner s = Stop_reset already" and "stop_step s t" and "owner t = Idle"
  shows "thread t = No_thread \<and> \<not> thread_set t \<and> w_state t = kStopped \<and> stop_result t = Some (\<not> already)"
  using assms(3,2,4) reachable_inv [OF assms(1)]
  by (cases rule: stop_step.cases) (auto simp: worker_inv_def state_ok_def pointer_ok_def split: if_splits)

text \<open>
  A stop request is for good: \<^verbatim>\<open>start\<close> does not withdraw it, so a worker started after it gets only the answer false.
\<close>

theorem no_kick_after_stop:
  assumes "stop_requested s" and "owner s = Idle" and "thread s = No_thread" and "worker_step\<^sup>*\<^sup>* s t"
  shows "stop_requested t \<and> (\<exists>n. answers t = answers s @ replicate n False)"
  using answers_run [OF assms(4,1)] assms(3) by (auto simp: too_late_def false_after_def)

end
