(* ===== verification/Stop_Watch.thy ===== *)
theory Stop_Watch
  imports Decimal_Text
begin

section \<open>The stop watch\<close>

text \<open>
  \<^verbatim>\<open>zen/node/common/stopwatch.cpp\<close>. Time points and durations are nanoseconds; the epoch, \<^verbatim>\<open>TimePoint()\<close>, is zero and marks
  a watch that was never started. The clock is a function on a state of its own, read where the code calls
  \<^verbatim>\<open>high_resolution_clock::now\<close>; its readings stay far from the limits of the 64-bit counters.
\<close>

type_synonym TimePoint = int
type_synonym Duration = int
type_synonym lap_time = "TimePoint \<times> Duration"

record StopWatch =
  started :: bool
  start_time :: TimePoint
  laps :: "lap_time list"

definition empty_StopWatch :: StopWatch where
  "empty_StopWatch = \<lparr>started = False, start_time = 0, laps = []\<rparr>"

definition sw_lap :: "('k \<Rightarrow> int \<times> 'k) \<Rightarrow> StopWatch \<Rightarrow> 'k \<Rightarrow> lap_time \<times> StopWatch \<times> 'k" where
  "sw_lap now w k =
     (if \<not> started w \<or> laps w = [] then ((0, 0), w, k)
      else
        let (lap_time, k) = now k;
            (t, d) = last (laps w);
            w = w\<lparr>laps := laps w @ [(lap_time, lap_time - t)]\<rparr>
        in (last (laps w), w, k))"

definition sw_stop :: "('k \<Rightarrow> int \<times> 'k) \<Rightarrow> StopWatch \<Rightarrow> 'k \<Rightarrow> lap_time \<times> StopWatch \<times> 'k" where
  "sw_stop now w k =
     (if \<not> started w then ((0, 0), w, k)
      else let (ret, w, k) = sw_lap now w k in (ret, w\<lparr>started := False\<rparr>, k))"

definition sw_reset :: "('k \<Rightarrow> int \<times> 'k) \<Rightarrow> StopWatch \<Rightarrow> 'k \<Rightarrow> StopWatch \<times> 'k" where
  "sw_reset now w k = (let (_, w, k) = sw_stop now w k in (w\<lparr>start_time := 0, laps := []\<rparr>, k))"

definition sw_start :: "('k \<Rightarrow> int \<times> 'k) \<Rightarrow> bool \<Rightarrow> StopWatch \<Rightarrow> 'k \<Rightarrow> TimePoint \<times> StopWatch \<times> 'k" where
  "sw_start now with_reset w k =
     (let (w, k) = (if with_reset then sw_reset now w k else (w, k)) in
      if started w then (start_time w, w, k)
      else
        let w = w\<lparr>started := True\<rparr>;
            (w, k) = (if start_time w = 0 then let (t, k) = now k in (w\<lparr>start_time := t\<rparr>, k) else (w, k));
            w = (if laps w \<noteq> []
                 then let (t, d) = last (laps w) in w\<lparr>laps := laps w @ [(start_time w, start_time w - t)]\<rparr>
                 else w\<lparr>laps := [(start_time w, 0)]\<rparr>)
        in (start_time w, w, k))"

definition new_StopWatch :: "('k \<Rightarrow> int \<times> 'k) \<Rightarrow> bool \<Rightarrow> 'k \<Rightarrow> StopWatch \<times> 'k" where
  "new_StopWatch now auto_start k =
     (if auto_start then snd (sw_start now False empty_StopWatch k) else (empty_StopWatch, k))"

definition since_start_at :: "TimePoint \<Rightarrow> StopWatch \<Rightarrow> Duration" where
  "since_start_at origin w = (if start_time w = 0 then 0 else origin - start_time w)"

definition since_start :: "('k \<Rightarrow> int \<times> 'k) \<Rightarrow> StopWatch \<Rightarrow> 'k \<Rightarrow> Duration \<times> 'k" where
  "since_start now w k = (let (t, k) = now k in (since_start_at t w, k))"

text \<open>
  One part of a long duration: the count of whole units, if any, with a space before it when something was
  written already; the state is the text, the remaining duration and \<^verbatim>\<open>need_space\<close>.
\<close>

definition format_part :: "nat \<Rightarrow> string \<Rightarrow> string \<times> nat \<times> bool \<Rightarrow> string \<times> nat \<times> bool" where
  "format_part unit_ns suffix = (\<lambda>(os, duration, need_space).
     let n = duration div unit_ns in
     if n \<noteq> 0
     then (os @ (if need_space then '' '' else []) @ show_nat n @ suffix, duration - n * unit_ns, True)
     else (os, duration, need_space))"

definition format_fraction :: "nat \<Rightarrow> nat \<Rightarrow> string \<Rightarrow> string" where
  "format_fraction n frac suffix =
     show_nat n @ (if frac \<noteq> 0 then ''.'' @ pad_left 3 (show_nat frac) else []) @ suffix"

definition sw_format :: "Duration \<Rightarrow> string" where
  "sw_format duration =
     (let ns = nat duration in
      if duration \<ge> 60000000000 then
        fst (format_part 1000000000 ''s'' (format_part 60000000000 ''m'' (format_part 3600000000000 ''h''
          (format_part 86400000000000 ''d'' ([], ns, False)))))
      else if duration \<ge> 1000000000 then
        format_fraction (ns div 1000000000) (ns mod 1000000000 div 1000000) ''s''
      else if duration \<ge> 1000000 then
        format_fraction (ns div 1000000) (ns mod 1000000 div 1000) ''ms''
      else if duration \<ge> 1000 then show_nat (ns div 1000) @ ''us''
      else [])"

subsection \<open>Laps\<close>

text \<open>
  Every lap but the first lasts from the lap before it, the first one lasts nothing; a running watch has a lap.
\<close>

definition laps_ok :: "StopWatch \<Rightarrow> bool" where
  "laps_ok w \<longleftrightarrow> (started w \<longrightarrow> laps w \<noteq> []) \<and> (laps w \<noteq> [] \<longrightarrow> snd (hd (laps w)) = 0)
     \<and> successively (\<lambda>a b. snd b = fst b - fst a) (laps w)"

lemma laps_snoc:
  "laps_ok w \<Longrightarrow> laps w \<noteq> [] \<Longrightarrow>
   laps_ok (w\<lparr>started := b, laps := laps w @ [(t, t - fst (last (laps w)))], start_time := u\<rparr>)"
  by (simp add: laps_ok_def successively_append_iff)

lemma lap_ok: "laps_ok w \<Longrightarrow> laps_ok (fst (snd (sw_lap now w k)))"
  using laps_snoc [where w = w and t = "fst (now k)" and b = "started w" and u = "start_time w"]
  by (auto simp: sw_lap_def case_prod_unfold Let_def)

lemma lap_keeps: "started (fst (snd (sw_lap now w k))) = started w" "start_time (fst (snd (sw_lap now w k))) = start_time w"
  by (simp_all add: sw_lap_def case_prod_unfold Let_def)

lemma stop_ok: "laps_ok w \<Longrightarrow> laps_ok (fst (snd (sw_stop now w k)))"
  using lap_ok [of w now k] by (simp add: sw_stop_def case_prod_unfold Let_def laps_ok_def)

lemma stop_started: "\<not> started (fst (snd (sw_stop now w k)))"
  by (simp add: sw_stop_def case_prod_unfold Let_def)

lemma reset_ok: "laps_ok (fst (sw_reset now w k))" "\<not> started (fst (sw_reset now w k))" "laps (fst (sw_reset now w k)) = []"
  using stop_started [of now w k] by (simp_all add: sw_reset_def case_prod_unfold Let_def laps_ok_def)

lemma start_ok: "laps_ok w \<Longrightarrow> laps_ok (fst (snd (sw_start now with_reset w k)))"
proof -
  assume w: "laps_ok w"
  define w1 k1 where "w1 = fst (if with_reset then sw_reset now w k else (w, k))"
    and "k1 = snd (if with_reset then sw_reset now w k else (w, k))"
  have ok: "laps_ok w1" using w reset_ok(1) [of now w k] by (simp add: w1_def)
  define u where "u = (if start_time w1 = 0 then fst (now k1) else start_time w1)"
  have "fst (snd (sw_start now with_reset w k)) =
    (if started w1 then w1
     else if laps w1 \<noteq> [] then w1\<lparr>started := True, laps := laps w1 @ [(u, u - fst (last (laps w1)))], start_time := u\<rparr>
     else w1\<lparr>started := True, laps := [(u, 0)], start_time := u\<rparr>)"
    by (simp add: sw_start_def Let_def case_prod_unfold w1_def k1_def u_def)
  with ok laps_snoc [OF ok] show ?thesis by (auto simp: laps_ok_def)
qed

lemma laps_sum:
  fixes ls :: "lap_time list"
  shows "successively (\<lambda>a b. snd b = fst b - fst a) ls \<Longrightarrow> ls \<noteq> [] \<Longrightarrow> snd (hd ls) = 0 \<Longrightarrow>
   sum_list (map snd ls) = fst (last ls) - fst (hd ls)"
proof (induction ls rule: rev_induct)
  case (snoc x ls)
  then show ?case by (cases "ls = []") (auto simp: successively_append_iff)
qed simp

text \<open>The calls a user can make.\<close>

datatype sw_call = Start bool | Lap | Stop | Reset

fun sw_do :: "('k \<Rightarrow> int \<times> 'k) \<Rightarrow> sw_call \<Rightarrow> StopWatch \<times> 'k \<Rightarrow> StopWatch \<times> 'k" where
  "sw_do now (Start r) (w, k) = snd (sw_start now r w k)"
| "sw_do now Lap (w, k) = snd (sw_lap now w k)"
| "sw_do now Stop (w, k) = snd (sw_stop now w k)"
| "sw_do now Reset (w, k) = sw_reset now w k"

lemma calls_ok: "laps_ok (fst s) \<Longrightarrow> laps_ok (fst (fold (sw_do now) calls s))"
proof (induction calls arbitrary: s)
  case (Cons c calls)
  have "laps_ok (fst (sw_do now c s))"
    using Cons.prems by (cases c; cases s) (simp_all add: start_ok lap_ok stop_ok reset_ok)
  with Cons.IH show ?case by simp
qed simp

subsection \<open>Text of a duration\<close>

text \<open>The parts of a long duration that are not zero, largest unit first.\<close>

definition long_parts :: "nat \<Rightarrow> (nat \<times> string) list" where
  "long_parts secs =
     filter (\<lambda>p. fst p \<noteq> 0)
       [(secs div 86400, ''d''), (secs div 3600 mod 24, ''h''), (secs div 60 mod 60, ''m''), (secs mod 60, ''s'')]"

fun part_text :: "nat \<times> string \<Rightarrow> string" where
  "part_text (n, u) = show_nat n @ u"

fun spaced :: "(nat \<times> string) list \<Rightarrow> string" where
  "spaced [] = []"
| "spaced (p # ps) = part_text p @ concat (map (\<lambda>p. '' '' @ part_text p) ps)"

lemma parts_value:
  "secs div 86400 * 86400 + secs div 3600 mod 24 * 3600 + secs div 60 mod 60 * 60 + secs mod 60 = (secs :: nat)"
proof -
  define m h c r mr hr where "m = secs div 60" and "h = m div 60" and "c = h div 24"
    and "r = secs mod 60" and "mr = m mod 60" and "hr = h mod 24"
  note v = m_def h_def c_def r_def mr_def hr_def
  have "m * 60 + r = secs" "h * 60 + mr = m" "c * 24 + hr = h" unfolding v by (rule div_mult_mod_eq)+
  then have "c * 86400 + hr * 3600 + mr * 60 + r = secs" by (simp add: algebra_simps)
  moreover have "secs div 3600 = h" "secs div 86400 = c" by (simp_all add: v div_mult2_eq [symmetric])
  ultimately show ?thesis by (simp add: v)
qed

definition add_part :: "nat \<Rightarrow> string \<Rightarrow> string \<Rightarrow> bool \<Rightarrow> string" where
  "add_part n suffix os need_space =
     (if n \<noteq> 0 then os @ (if need_space then '' '' else []) @ show_nat n @ suffix else os)"

lemma format_part_eq:
  "format_part u suffix (os, d, sp) = (add_part (d div u) suffix os sp, d mod u, sp \<or> d div u \<noteq> 0)"
proof (cases "d div u = 0")
  case True
  then have "d mod u = d" using div_mult_mod_eq [of d u] by (simp only: mult_0 add_0)
  with True show ?thesis by (simp add: format_part_def add_part_def Let_def)
qed (simp add: format_part_def add_part_def Let_def minus_div_mult_eq_mod)

lemma add_parts:
  "add_part s ''s'' (add_part m ''m'' (add_part h ''h'' (add_part d ''d'' [] False) (False \<or> d \<noteq> 0))
     ((False \<or> d \<noteq> 0) \<or> h \<noteq> 0)) (((False \<or> d \<noteq> 0) \<or> h \<noteq> 0) \<or> m \<noteq> 0)
   = spaced (filter (\<lambda>p. fst p \<noteq> 0) [(d, ''d''), (h, ''h''), (m, ''m''), (s, ''s'')])"
  by (cases "d = 0"; cases "h = 0"; cases "m = 0"; cases "s = 0") (simp_all add: add_part_def)

lemma mod_div_nested: "(n :: nat) mod (a * b) div a = n div a mod b" if "a > 0"
  using that by (simp add: mod_mult2_eq)

lemma format_long:
  fixes ns :: nat
  defines "secs \<equiv> ns div 1000000000"
  shows "fst (format_part 1000000000 ''s'' (format_part 60000000000 ''m'' (format_part 3600000000000 ''h''
          (format_part 86400000000000 ''d'' ([], ns, False))))) = spaced (long_parts secs)"
proof -
  have d: "ns div 86400000000000 = secs div 86400" by (simp add: secs_def div_mult2_eq [symmetric])
  have h: "ns mod 86400000000000 div 3600000000000 = secs div 3600 mod 24"
    using mod_div_nested [of 3600000000000 ns 24] by (simp add: secs_def div_mult2_eq [symmetric])
  have m: "ns mod 86400000000000 mod 3600000000000 div 60000000000 = secs div 60 mod 60"
    using mod_div_nested [of 60000000000 ns 60] mod_mod_cancel [of 3600000000000 86400000000000 ns]
    by (simp add: secs_def div_mult2_eq [symmetric])
  have s: "ns mod 86400000000000 mod 3600000000000 mod 60000000000 div 1000000000 = secs mod 60"
    using mod_div_nested [of 1000000000 ns 60] mod_mod_cancel [of 3600000000000 86400000000000 ns]
      mod_mod_cancel [of 60000000000 3600000000000 ns]
    by (simp add: secs_def)
  show ?thesis
    unfolding format_part_eq d h m s long_parts_def fst_conv by (rule add_parts)
qed

subsection \<open>Properties\<close>

text \<open>
  Whatever calls are made on a watch, the recorded laps are consistent: every lap lasts from the time of the
  one before it, so the durations add up to the time between the first and the last lap; a running watch has a lap.
\<close>

theorem laps_add_up:
  assumes "fst (fold (sw_do now) calls (new_StopWatch now auto_start k)) = w"
  shows "(started w \<longrightarrow> laps w \<noteq> [])
    \<and> (laps w \<noteq> [] \<longrightarrow> sum_list (map snd (laps w)) = fst (last (laps w)) - fst (hd (laps w)))"
proof -
  have "laps_ok empty_StopWatch" by (simp add: laps_ok_def empty_StopWatch_def)
  then have "laps_ok (fst (new_StopWatch now auto_start k))" by (simp add: new_StopWatch_def start_ok)
  then have "laps_ok w" using calls_ok assms by blast
  then show ?thesis by (simp add: laps_ok_def laps_sum)
qed

theorem laps_add_up_witness:
  "laps (fst (fold (sw_do (\<lambda>k. (k, k + 5))) [Lap, Stop] (new_StopWatch (\<lambda>k. (k, k + 5)) True 10))) = [(10, 0), (15, 5), (20, 5)]
   \<and> sum_list (map snd [(10, 0), (15, 5), (20 :: int, 5 :: int)]) = 20 - 10"
proof -
  let ?w = "fst (fold (sw_do (\<lambda>k. (k, k + 5))) [Lap, Stop] (new_StopWatch (\<lambda>k. (k, k + 5)) True (10 :: int)))"
  have "laps ?w = [(10, 0), (15, 5), (20, 5)]"
    by (simp add: new_StopWatch_def sw_start_def sw_lap_def sw_stop_def empty_StopWatch_def Let_def)
  with laps_add_up [of "\<lambda>k. (k, k + 5)" "[Lap, Stop]" True "10 :: int" ?w, OF refl] show ?thesis by simp
qed

text \<open>
  Starting a stopped watch again without a reset records a lap that ends before it begins: the new lap is dated
  with the first start, so its duration is the negative of the time the watch ran.
\<close>

theorem restart_records_negative_lap:
  assumes "\<not> started w" and "start_time w \<noteq> 0" and "laps w \<noteq> []" and "start_time w < fst (last (laps w))"
  shows "laps (fst (snd (sw_start now False w k))) = laps w @ [(start_time w, start_time w - fst (last (laps w)))]
    \<and> snd (last (laps (fst (snd (sw_start now False w k))))) < 0"
  using assms by (simp add: sw_start_def Let_def case_prod_unfold)

theorem restart_records_negative_lap_witness:
  "snd (last (laps (fst (snd (sw_start (\<lambda>k. (k, k)) False \<lparr>started = False, start_time = 10, laps = [(10, 0), (25, 15)]\<rparr> (30 :: int)))))) < 0"
  using restart_records_negative_lap [of "\<lparr>started = False, start_time = 10, laps = [(10, 0), (25, 15)]\<rparr>" "\<lambda>k. (k, k)" "30 :: int"]
  by simp

text \<open>
  The text of a duration of a minute or more lists its non-zero days, hours, minutes and seconds in this order,
  separated by single spaces, and the listed amounts add up to the whole seconds of the duration; hours stay below
  24, minutes and seconds below 60.
\<close>

theorem format_long_duration:
  assumes "60000000000 \<le> duration"
  defines "secs \<equiv> nat duration div 1000000000"
  shows "\<exists>d h m s. h < 24 \<and> m < 60 \<and> s < 60 \<and> d * 86400 + h * 3600 + m * 60 + s = secs
    \<and> sw_format duration = spaced (filter (\<lambda>p. fst p \<noteq> 0) [(d, ''d''), (h, ''h''), (m, ''m''), (s, ''s'')])"
proof -
  have "sw_format duration = spaced (long_parts secs)"
    using assms(1) format_long [of "nat duration"] by (simp add: sw_format_def secs_def Let_def del: fst_conv)
  then have f: "sw_format duration = spaced (filter (\<lambda>p. fst p \<noteq> 0)
      [(secs div 86400, ''d''), (secs div 3600 mod 24, ''h''), (secs div 60 mod 60, ''m''), (secs mod 60, ''s'')])"
    by (simp only: long_parts_def)
  have "secs div 3600 mod 24 < 24" "secs div 60 mod 60 < 60" "secs mod 60 < 60" by simp_all
  with parts_value [of secs] f show ?thesis by blast
qed

theorem format_long_duration_witness:
  "sw_format 3661000000000 = ''1h 1m 1s''"
proof -
  have "(60000000000 :: int) \<le> 3661000000000" "nat 3661000000000 div 1000000000 = (3661 :: nat)" by simp_all
  from format_long_duration [OF this(1), unfolded this(2)]
  obtain d h m s where f: "h < 24" "m < 60" "s < 60" "d * 86400 + h * 3600 + m * 60 + s = 3661"
    "sw_format 3661000000000 = spaced (filter (\<lambda>p. fst p \<noteq> 0) [(d, ''d''), (h, ''h''), (m, ''m''), (s, ''s'')])"
    by blast
  from f(1-4) have d: "d = 0" by linarith
  with f(1-4) have h: "h = 1" by linarith
  with d f(1-4) have m: "m = 1" by linarith
  with d h f(4) have "s = 1" by linarith
  note d h m this
  moreover have "show_nat 1 = ''1''" by code_simp
  ultimately show ?thesis unfolding f(5) by simp
qed

end
