(* ===== verification/Log_Buffer.thy ===== *)
theory Log_Buffer
  imports Decimal_Text
begin

section \<open>Logging\<close>

text \<open>
  \<^verbatim>\<open>zen/node/common/log.cpp\<close>, \<^verbatim>\<open>log.hpp\<close> and \<^verbatim>\<open>terminal.hpp\<close>, as one thread sees them. The state holds the settings, the stream to the
  log file, the time zone (a static of the constructor, fixed by the first line that is printed), the name of the thread,
  and what was written so far. The texts of a time stamp and of a time zone come from absl and the padded field from boost:
  they are arguments. The regular expression that recognises colour codes is written as a function; the character class
  does not contain the final \<^verbatim>\<open>m\<close>, so the longest match is the only one.
\<close>

datatype Level = kNone | kCritical | kError | kWarning | kInfo | kDebug | kTrace

fun level_value :: "Level \<Rightarrow> nat" where
  "level_value kNone = 0"
| "level_value kCritical = 1"
| "level_value kError = 2"
| "level_value kWarning = 3"
| "level_value kInfo = 4"
| "level_value kDebug = 5"
| "level_value kTrace = 6"

lemma level_value_inject: "level_value a = level_value b \<Longrightarrow> a = b"
  by (cases a; cases b) simp_all

instantiation Level :: linorder
begin

definition less_eq_Level :: "Level \<Rightarrow> Level \<Rightarrow> bool" where
  "less_eq_Level a b \<longleftrightarrow> level_value a \<le> level_value b"

definition less_Level :: "Level \<Rightarrow> Level \<Rightarrow> bool" where
  "less_Level a b \<longleftrightarrow> level_value a < level_value b"

instance
  by standard (auto simp: less_eq_Level_def less_Level_def intro: level_value_inject)

end

datatype Zone = Local_zone | Utc_zone

record Settings =
  log_std_out :: bool
  log_utc :: bool
  log_nocolor :: bool
  log_threads :: bool
  log_verbosity :: Level
  log_file :: string
  log_thousands_sep :: char

record Log =
  settings :: Settings
  tee :: "(string \<times> bool) option"
  zone_static :: "Zone option"
  thread_name :: string
  thread_id :: u64
  cout_text :: string
  cerr_text :: string
  files :: "string \<Rightarrow> string"
  can_open :: "string \<Rightarrow> bool"

record BufferBase =
  should_print :: bool
  ss :: string
  separator :: "char option"

definition default_Settings :: Settings where
  "default_Settings =
     \<lparr>log_std_out = False, log_utc = False, log_nocolor = False, log_threads = False, log_verbosity = kInfo, log_file = [],
      log_thousands_sep = char_of (39 :: nat)\<rparr>"

subsection \<open>Terminal codes\<close>

definition ESC :: char where
  "ESC = CHR 0x1B"

definition sgr :: "string \<Rightarrow> string" where
  "sgr s = ESC # s"

definition terminal_codes :: "(string \<times> string) list" where
  "terminal_codes =
    [(''kColorReset'', sgr ''[0m''), (''kColorBlack'', sgr ''[30m''), (''kColorCoal'', sgr ''[90m''),
     (''kColorGray'', sgr ''[37m''), (''kColorWhite'', sgr ''[97m''), (''kColorMaroon'', sgr ''[31m''),
     (''kColorRed'', sgr ''[91m''), (''kColorGreen'', sgr ''[32m''), (''kColorLime'', sgr ''[92m''),
     (''kColorOrange'', sgr ''[33m''), (''kColorYellow'', sgr ''[93m''), (''kColorNavy'', sgr ''[34m''),
     (''kColorBlue'', sgr ''[94m''), (''kColorViolet'', sgr ''[35m''), (''kColorPurple'', sgr ''[95m''),
     (''kColorTeal'', sgr ''[36m''), (''kColorCyan'', sgr ''[96m''), (''kColorBlackHigh'', sgr ''[1;30m''),
     (''kColorCoalHigh'', sgr ''[1;90m''), (''kColorGrayHigh'', sgr ''[1;37m''), (''kColorWhiteHigh'', sgr ''[1;97m''),
     (''kColorMaroonHigh'', sgr ''[1;31m''), (''kColorRedHigh'', sgr ''[1;91m''),
     (''kColorGreenHigh'', sgr ''[1;32m''), (''kColorLimeHigh'', sgr ''[1;92m''),
     (''kColorOrangeHigh'', sgr ''[1;33m''), (''kColorYellowHigh'', sgr ''[1;93m''),
     (''kColorNavyHigh'', sgr ''[1;34m''), (''kColorBlueHigh'', sgr ''[1;94m''),
     (''kColorVioletHigh'', sgr ''[1;35m''), (''kColorPurpleHigh'', sgr ''[1;95m''),
     (''kColorTealHigh'', sgr ''[1;36m''), (''kColorCyanHigh'', sgr ''[1;96m''), (''kBackgroundBlack'', sgr ''[40m''),
     (''kBackgroundCoal'', sgr ''[100m''), (''kBackgroundGray'', sgr ''[47m''), (''kBackgroundWhite'', sgr ''[107m''),
     (''kBackgroundMaroon'', sgr ''[41m''), (''kBackgroundRed'', sgr ''[101m''), (''kBackgroundGreen'', sgr ''[42m''),
     (''kBackgroundLime'', sgr ''[102m''), (''kBackgroundOrange'', sgr ''[43m''),
     (''kBackgroundYellow'', sgr ''[103m''), (''kBackgroundNavy'', sgr ''[44m''), (''kBackgroundBlue'', sgr ''[104m''),
     (''kBackgroundViolet'', sgr ''[45m''), (''kBackgroundPurple'', sgr ''[105m''),
     (''kBackgroundTeal'', sgr ''[46m''), (''kBackgroundCyan'', sgr ''[106m''),
     (''kColorBlackUnderline'', sgr ''[4;30m''), (''kColorGrayUnderline'', sgr ''[4;37m''),
     (''kColorMaroonUnderline'', sgr ''[4;31m''), (''kColorGreenUnderline'', sgr ''[4;32m''),
     (''kColorOrangeUnderline'', sgr ''[4;33m''), (''kColorNavyUnderline'', sgr ''[4;34m''),
     (''kColorVioletUnderline'', sgr ''[4;35m''), (''kColorTealUnderline'', sgr ''[4;36m'')]"

definition code_of :: "string \<Rightarrow> string" where
  "code_of name = (case map_of terminal_codes name of None \<Rightarrow> [] | Some c \<Rightarrow> c)"

definition is_code_char :: "char \<Rightarrow> bool" where
  "is_code_char c \<longleftrightarrow> is_digit c \<or> c = CHR '';''"

fun match_color :: "string \<Rightarrow> string option" where
  "match_color (a # b # cs) =
     (if a = ESC \<and> b = CHR ''['' \<and> takeWhile is_code_char cs \<noteq> []
      then (case dropWhile is_code_char cs of [] \<Rightarrow> None | c # r \<Rightarrow> if c = CHR ''m'' then Some r else None)
      else None)"
| "match_color _ = None"

lemma match_color_shorter: "match_color s = Some r \<Longrightarrow> length r < length s"
proof (induction s rule: match_color.induct)
  case (1 a b cs)
  then have "\<exists>c. dropWhile is_code_char cs = c # r" by (auto split: if_splits list.splits)
  with length_dropWhile_le [of is_code_char cs] show ?case by auto
qed auto

text \<open>\<^verbatim>\<open>std::regex_replace\<close> with an empty replacement.\<close>

function strip_colors :: "string \<Rightarrow> string" where
  "strip_colors [] = []"
| "strip_colors (c # cs) =
     (case match_color (c # cs) of Some r \<Rightarrow> strip_colors r | None \<Rightarrow> c # strip_colors cs)"
  by pat_completeness auto
termination
  by (relation "measure length") (auto dest: match_color_shorter)

subsection \<open>Settings\<close>

definition tee_file :: "string \<Rightarrow> Log \<Rightarrow> Log" where
  "tee_file path L =
     (if can_open L path then L\<lparr>tee := Some (path, True)\<rparr>
      else L\<lparr>tee := None, cerr_text := cerr_text L @ ''Could not open log file '' @ path @ [char_of (10 :: nat)]\<rparr>)"

definition log_init :: "Settings \<Rightarrow> Log \<Rightarrow> Log" where
  "log_init s L =
     (let L = L\<lparr>settings := s\<rparr>
      in if log_file s \<noteq> [] then tee_file (log_file s) L else L)"

definition get_verbosity :: "Log \<Rightarrow> Level" where
  "get_verbosity L = log_verbosity (settings L)"

definition set_verbosity :: "Level \<Rightarrow> Log \<Rightarrow> Log" where
  "set_verbosity level L = L\<lparr>settings := (settings L)\<lparr>log_verbosity := level\<rparr>\<rparr>"

definition test_verbosity :: "Log \<Rightarrow> Level \<Rightarrow> bool" where
  "test_verbosity L level \<longleftrightarrow> level \<le> log_verbosity (settings L)"

definition set_thread_name :: "string \<Rightarrow> Log \<Rightarrow> Log" where
  "set_thread_name name L = L\<lparr>thread_name := name\<rparr>"

definition get_thread_id :: "Log \<Rightarrow> u64" where
  "get_thread_id L = of_nat (dec_val (show_nat (unat (thread_id L))))"

definition get_thread_name :: "Log \<Rightarrow> string \<times> Log" where
  "get_thread_name L =
     (let L = (if thread_name L = [] then L\<lparr>thread_name := show_nat (unat (thread_id L))\<rparr> else L)
      in (thread_name L, L))"

fun get_level_settings :: "Level \<Rightarrow> string \<times> string" where
  "get_level_settings kTrace = (''TRACE'', code_of ''kColorCoal'')"
| "get_level_settings kDebug = (''DEBUG'', code_of ''kBackgroundPurple'')"
| "get_level_settings kInfo = ('' INFO'', code_of ''kColorGreen'')"
| "get_level_settings kWarning = ('' WARN'', code_of ''kColorOrangeHigh'')"
| "get_level_settings kError = (''ERROR'', code_of ''kColorRed'')"
| "get_level_settings kCritical = ('' CRIT'', code_of ''kBackgroundRed'')"
| "get_level_settings kNone = (''     '', code_of ''kColorReset'')"

subsection \<open>A log line\<close>

definition line_zone :: "Log \<Rightarrow> Zone" where
  "line_zone L = (case zone_static L of Some z \<Rightarrow> z | None \<Rightarrow> if log_utc (settings L) then Local_zone else Utc_zone)"

definition new_BufferBase ::
  "(Zone \<Rightarrow> 't \<Rightarrow> string) \<Rightarrow> (Zone \<Rightarrow> string) \<Rightarrow> 't \<Rightarrow> Level \<Rightarrow> Log \<Rightarrow> BufferBase \<times> Log" where
  "new_BufferBase format_time zone_name now level L =
     (if \<not> level \<le> log_verbosity (settings L) then (\<lparr>should_print = False, ss = [], separator = None\<rparr>, L)
      else
        let sep = (if log_thousands_sep (settings L) \<noteq> char_of (0 :: nat) then Some (log_thousands_sep (settings L)) else None);
            (prefix, color) = get_level_settings level;
            s = code_of ''kColorReset'' @ '' '' @ color @ prefix @ code_of ''kColorReset'' @ '' '';
            tz = line_zone L;
            L = L\<lparr>zone_static := Some tz\<rparr>;
            s = s @ code_of ''kColorCyan'' @ ''['' @ format_time tz now @ '' '' @ zone_name tz @ ''] '' @ code_of ''kColorReset'';
            (s, L) = (if log_threads (settings L)
                      then let (name, L) = get_thread_name L in (s @ ''['' @ name @ ''] '', L)
                      else (s, L))
        in (\<lparr>should_print = True, ss = s, separator = sep\<rparr>, L))"

fun append_args :: "bool \<Rightarrow> string list \<Rightarrow> string \<Rightarrow> string" where
  "append_args left [] s = s"
| "append_args left (arg # args) s =
     append_args (\<not> left) args
       (s @ (if left then code_of ''kColorGreen'' else code_of ''kColorWhiteHigh'') @ arg @ code_of ''kColorReset'' @
        (if left then ''='' else '' '') @ code_of ''kColorReset'')"

definition new_BufferBase_msg ::
  "(Zone \<Rightarrow> 't \<Rightarrow> string) \<Rightarrow> (Zone \<Rightarrow> string) \<Rightarrow> (nat \<Rightarrow> string \<Rightarrow> string) \<Rightarrow> 't \<Rightarrow> Level \<Rightarrow> string \<Rightarrow> string list \<Rightarrow> Log \<Rightarrow>
   BufferBase \<times> Log" where
  "new_BufferBase_msg format_time zone_name pad_field now level msg args L =
     (let (b, L) = new_BufferBase format_time zone_name now level L
      in if \<not> should_print b then (b, L)
         else (b\<lparr>ss := append_args True args (ss b @ pad_field 35 msg)\<rparr>, L))"

definition append_text :: "string \<Rightarrow> BufferBase \<Rightarrow> BufferBase" where
  "append_text t b = (if should_print b then b\<lparr>ss := ss b @ t\<rparr> else b)"

text \<open>An unsigned number goes through the facet \<^verbatim>\<open>separate_thousands\<close> of the stream.\<close>

function group_digits :: "char \<Rightarrow> string \<Rightarrow> string" where
  "group_digits sep s =
     (if length s \<le> 3 then s
      else group_digits sep (take (length s - 3) s) @ sep # drop (length s - 3) s)"
  by pat_completeness auto
termination by (relation "measure (\<lambda>(sep, s). length s)") auto

declare group_digits.simps [simp del]

definition append_number :: "nat \<Rightarrow> BufferBase \<Rightarrow> BufferBase" where
  "append_number n b =
     append_text (case separator b of None \<Rightarrow> show_nat n | Some sep \<Rightarrow> group_digits sep (show_nat n)) b"

definition put_out :: "string \<Rightarrow> Log \<Rightarrow> Log" where
  "put_out s L =
     (if log_std_out (settings L) then L\<lparr>cout_text := cout_text L @ s\<rparr> else L\<lparr>cerr_text := cerr_text L @ s\<rparr>)"

definition flush :: "BufferBase \<Rightarrow> Log \<Rightarrow> Log" where
  "flush b L =
     (if \<not> should_print b then L
      else
        let colorized = (\<not> log_nocolor (settings L));
            line = (if log_nocolor (settings L) then strip_colors (ss b) else ss b);
            L = put_out (line @ [char_of (10 :: nat)]) L
        in (case tee L of
              None \<Rightarrow> L
            | Some (f, is_open) \<Rightarrow>
                if is_open
                then let line = (if colorized then strip_colors line else line)
                     in L\<lparr>files := (files L)(f := files L f @ line @ [char_of (10 :: nat)])\<rparr>
                else L\<lparr>tee := None\<rparr>))"

text \<open>\<^verbatim>\<open>log::Info(msg, args) << text;\<close> and the like: the buffer is made, appended to, and flushed by its destructor.\<close>

definition log_message ::
  "(Zone \<Rightarrow> 't \<Rightarrow> string) \<Rightarrow> (Zone \<Rightarrow> string) \<Rightarrow> (nat \<Rightarrow> string \<Rightarrow> string) \<Rightarrow> 't \<Rightarrow> Level \<Rightarrow> string \<Rightarrow> string list \<Rightarrow> string list \<Rightarrow>
   Log \<Rightarrow> Log" where
  "log_message format_time zone_name pad_field now level msg args texts L =
     (let (b, L) = new_BufferBase_msg format_time zone_name pad_field now level msg args L
      in flush (fold append_text texts b) L)"

text \<open>The macros test the level before they make the buffer.\<close>

definition ZEN_LOGBUFFER ::
  "(Zone \<Rightarrow> 't \<Rightarrow> string) \<Rightarrow> (Zone \<Rightarrow> string) \<Rightarrow> 't \<Rightarrow> Level \<Rightarrow> string list \<Rightarrow> Log \<Rightarrow> Log" where
  "ZEN_LOGBUFFER format_time zone_name now level texts L =
     (if \<not> test_verbosity L level then L
      else let (b, L) = new_BufferBase format_time zone_name now level L in flush (fold append_text texts b) L)"

subsection \<open>Stripping colours\<close>

definition plain :: "string \<Rightarrow> bool" where
  "plain s \<longleftrightarrow> ESC \<notin> set s"

lemma plain_simps [simp]:
  "plain []" "plain (c # s) \<longleftrightarrow> c \<noteq> ESC \<and> plain s" "plain (s @ t) \<longleftrightarrow> plain s \<and> plain t"
  by (auto simp: plain_def)

lemma strip_plain_append: "plain s \<Longrightarrow> strip_colors (s @ t) = s @ strip_colors t"
proof (induction s)
  case (Cons c s)
  then have "match_color (c # s @ t) = None" by (cases "s @ t") auto
  with Cons show ?case by simp
qed simp

lemma strip_plain: "plain s \<Longrightarrow> strip_colors s = s"
  using strip_plain_append [of s "[]"] by simp

definition is_code :: "string \<Rightarrow> bool" where
  "is_code c \<longleftrightarrow>
     2 < length c \<and> hd c = ESC \<and> c ! 1 = CHR ''['' \<and> last c = CHR ''m'' \<and> butlast (drop 2 c) \<noteq> [] \<and>
     list_all is_code_char (butlast (drop 2 c))"

lemma strip_code:
  assumes "is_code c"
  shows "strip_colors (c @ t) = strip_colors t"
proof -
  from assms obtain b where c: "c = ESC # CHR ''['' # b" "2 < length c"
    by (cases c; cases "tl c") (auto simp: is_code_def)
  then obtain ds where ds: "b = ds @ [CHR ''m'']"
    using assms by (cases b rule: rev_cases) (auto simp: is_code_def)
  have d: "ds \<noteq> []" "\<forall>x\<in>set ds. is_code_char x" using assms c ds by (auto simp: is_code_def list_all_iff)
  have m: "\<not> is_code_char CHR ''m''" by (simp add: is_code_char_def is_digit_def)
  have "takeWhile is_code_char (ds @ CHR ''m'' # t) = ds" "dropWhile is_code_char (ds @ CHR ''m'' # t) = CHR ''m'' # t"
    using d m by (simp_all add: takeWhile_append2 dropWhile_append2)
  then have "match_color (c @ t) = Some t" using c ds d by simp
  then show ?thesis using c by simp
qed

lemma terminal_codes_ok: "list_all (\<lambda>(n, c). is_code c) terminal_codes"
  by code_simp

lemma code_of_ok:
  "is_code (code_of ''kColorReset'')" "is_code (code_of ''kColorCyan'')" "is_code (code_of ''kColorGreen'')"
  "is_code (code_of ''kColorWhiteHigh'')" "is_code (snd (get_level_settings level))" "plain (fst (get_level_settings level))"
  subgoal by code_simp
  subgoal by code_simp
  subgoal by code_simp
  subgoal by code_simp
  subgoal by (induction level; code_simp)
  subgoal by (induction level; code_simp)
  done

lemmas strip_simps = strip_plain_append strip_code code_of_ok

lemma append_args_append: "append_args left args (s @ t) = s @ append_args left args t"
proof (induction args arbitrary: left t)
  case (Cons arg args)
  then show ?case by simp
qed simp

text \<open>The arguments of a message without colours: names and values in turn.\<close>

fun plain_args :: "bool \<Rightarrow> string list \<Rightarrow> string" where
  "plain_args left [] = []"
| "plain_args left (arg # args) = arg @ (if left then ''='' else '' '') @ plain_args (\<not> left) args"

lemma append_args_Cons:
  "append_args left (arg # args) s =
     s @ (if left then code_of ''kColorGreen'' else code_of ''kColorWhiteHigh'') @ arg @ code_of ''kColorReset'' @
        (if left then ''='' else '' '') @ code_of ''kColorReset'' @ append_args (\<not> left) args []"
  using append_args_append [of "\<not> left" args "s @ (if left then code_of ''kColorGreen'' else code_of ''kColorWhiteHigh'') @ arg @
    code_of ''kColorReset'' @ (if left then ''='' else '' '') @ code_of ''kColorReset''" "[]"] by simp


lemma strip_args_append:
  "list_all plain args \<Longrightarrow> plain t \<Longrightarrow> strip_colors (append_args left args [] @ t) = plain_args left args @ t"
proof (induction args arbitrary: left)
  case (Cons arg args)
  have e: "plain (if left then ''='' else '' '')" by (simp add: ESC_def)
  have c: "is_code (if left then code_of ''kColorGreen'' else code_of ''kColorWhiteHigh'')" by (simp add: code_of_ok)
  from Cons e c show ?case
    unfolding append_args_Cons by (simp only: strip_simps append_Nil append_assoc list.pred_inject plain_args.simps)
qed (simp add: strip_plain)

text \<open>
  The line of a message without colours, written down independently of the code: the words of the levels in their order, the
  zone that the first line fixed, which is local time when \<^verbatim>\<open>log_utc\<close> is set and UTC when it is not, and the name of the thread or else its number.
\<close>

definition plain_line ::
  "(Zone \<Rightarrow> 't \<Rightarrow> string) \<Rightarrow> (Zone \<Rightarrow> string) \<Rightarrow> (nat \<Rightarrow> string \<Rightarrow> string) \<Rightarrow> 't \<Rightarrow> Level \<Rightarrow> string \<Rightarrow> string list \<Rightarrow> string list \<Rightarrow>
   Log \<Rightarrow> string" where
  "plain_line format_time zone_name pad_field now level msg args texts L =
     (let word = [''     '', '' CRIT'', ''ERROR'', '' WARN'', '' INFO'', ''DEBUG'', ''TRACE''] ! level_value level;
          tz = (if zone_static L = Some Local_zone \<or> zone_static L = None \<and> log_utc (settings L) then Local_zone else Utc_zone);
          name = (if thread_name L = [] then show_nat (unat (thread_id L)) else thread_name L)
      in '' '' @ word @ '' ['' @ format_time tz now @ '' '' @ zone_name tz @ ''] '' @
         (if log_threads (settings L) then ''['' @ name @ ''] '' else []) @
         pad_field 35 msg @ plain_args True args @ concat texts @ [char_of (10 :: nat)])"

lemma level_word:
  "fst (get_level_settings level) = [''     '', '' CRIT'', ''ERROR'', '' WARN'', '' INFO'', ''DEBUG'', ''TRACE''] ! level_value level"
  by (cases level) simp_all

lemma line_zone_cases:
  "line_zone L = (if zone_static L = Some Local_zone \<or> zone_static L = None \<and> log_utc (settings L) then Local_zone else Utc_zone)"
proof (cases "zone_static L")
  case (Some z)
  then show ?thesis by (cases z) (simp_all add: line_zone_def)
qed (simp add: line_zone_def)

lemma thread_name_shown: "fst (get_thread_name L) = (if thread_name L = [] then show_nat (unat (thread_id L)) else thread_name L)"
  by (simp add: get_thread_name_def Let_def)

lemma plain_line_code:
  "plain_line ft zn pf now level msg args texts L =
     '' '' @ fst (get_level_settings level) @ '' ['' @ ft (line_zone L) now @ '' '' @ zn (line_zone L) @ ''] '' @
     (if log_threads (settings L) then ''['' @ fst (get_thread_name L) @ ''] '' else []) @
     pf 35 msg @ plain_args True args @ concat texts @ [char_of (10 :: nat)]"
  unfolding plain_line_def Let_def level_word line_zone_cases thread_name_shown by (rule refl)

lemma fold_append_text:
  "should_print b \<Longrightarrow> fold append_text ts b = b\<lparr>ss := ss b @ concat ts\<rparr>"
  by (induction ts arbitrary: b) (simp_all add: append_text_def)

lemma fold_append_text_off: "\<not> should_print b \<Longrightarrow> fold append_text ts b = b"
  by (induction ts) (simp_all add: append_text_def)

lemma new_BufferBase_on:
  assumes "level \<le> log_verbosity (settings L)"
  shows "\<exists>L'. new_BufferBase ft zn now level L =
      (\<lparr>should_print = True,
        ss = code_of ''kColorReset'' @ '' '' @ snd (get_level_settings level) @ fst (get_level_settings level) @ code_of ''kColorReset'' @
          '' '' @ code_of ''kColorCyan'' @ ''['' @ ft (line_zone L) now @ '' '' @ zn (line_zone L) @ ''] '' @ code_of ''kColorReset'' @
          (if log_threads (settings L) then ''['' @ fst (get_thread_name L) @ ''] '' else []),
        separator = (if log_thousands_sep (settings L) \<noteq> char_of (0 :: nat) then Some (log_thousands_sep (settings L)) else None)\<rparr>, L')
    \<and> L' = L\<lparr>zone_static := Some (line_zone L), thread_name := thread_name L'\<rparr>"
  using assms
  by (cases "get_level_settings level"; cases "log_threads (settings L)")
    (simp_all add: new_BufferBase_def get_thread_name_def Let_def)

lemma new_BufferBase_msg_on:
  assumes "level \<le> log_verbosity (settings L)" "plain (ft (line_zone L) now)" "plain (zn (line_zone L))"
    "plain (thread_name L)" "plain (pf 35 msg)" "list_all plain args" "list_all plain texts"
  obtains b L' where "new_BufferBase_msg ft zn pf now level msg args L = (b, L')" "should_print b"
    "strip_colors (ss b @ concat texts) @ [char_of (10 :: nat)] = plain_line ft zn pf now level msg args texts L"
    "L' = L\<lparr>zone_static := Some (line_zone L), thread_name := thread_name L'\<rparr>"
proof -
  from new_BufferBase_on [OF assms(1), of ft zn now] obtain b0 L' where
    b0: "new_BufferBase ft zn now level L = (b0, L')" "should_print b0"
    "ss b0 = code_of ''kColorReset'' @ '' '' @ snd (get_level_settings level) @ fst (get_level_settings level) @ code_of ''kColorReset'' @
          '' '' @ code_of ''kColorCyan'' @ ''['' @ ft (line_zone L) now @ '' '' @ zn (line_zone L) @ ''] '' @ code_of ''kColorReset'' @
          (if log_threads (settings L) then ''['' @ fst (get_thread_name L) @ ''] '' else [])"
    and L': "L' = L\<lparr>zone_static := Some (line_zone L), thread_name := thread_name L'\<rparr>"
    by auto
  let ?b = "b0\<lparr>ss := append_args True args (ss b0 @ pf 35 msg)\<rparr>"
  have b: "new_BufferBase_msg ft zn pf now level msg args L = (?b, L')" using b0 by (simp add: new_BufferBase_msg_def)
  have digits: "plain (show_nat n)" for n
    using show_nat_digits [of n] by (auto simp: plain_def list_all_iff is_digit_def ESC_def)
  have name: "plain (if log_threads (settings L) then ''['' @ fst (get_thread_name L) @ ''] '' else [])"
    using assms(4) digits by (simp add: get_thread_name_def Let_def) (simp add: ESC_def)
  have sep: "plain '' ''" "plain ''[''" "plain ''] ''" by (simp_all add: ESC_def)
  have texts: "plain (concat texts)" using assms(7) by (induction texts) auto
  have args: "strip_colors (append_args True args [] @ concat texts) = plain_args True args @ concat texts"
    by (rule strip_args_append [OF assms(6)]) (rule texts)
  have head: "strip_colors (ss b0 @ pf 35 msg @ rest) =
      '' '' @ fst (get_level_settings level) @ '' '' @ ''['' @ ft (line_zone L) now @ '' '' @ zn (line_zone L) @ ''] '' @
      (if log_threads (settings L) then ''['' @ fst (get_thread_name L) @ ''] '' else []) @ pf 35 msg @ strip_colors rest" for rest
    unfolding b0(3) append_assoc by (simp only: strip_simps assms(2,3,5) name sep)
  have "ss ?b = ss b0 @ pf 35 msg @ append_args True args []"
    using append_args_append [of True args "ss b0 @ pf 35 msg" "[]"] by simp
  then have "strip_colors (ss ?b @ concat texts) @ [char_of (10 :: nat)] = plain_line ft zn pf now level msg args texts L"
    using head [of "append_args True args [] @ concat texts"] by (simp add: args plain_line_code)
  with that [OF b _ _ L'] b0(2) show ?thesis by simp
qed


lemma strip_keeps: "set (strip_colors s) \<subseteq> set s"
proof (induction s rule: strip_colors.induct)
  case (2 c cs)
  have "set r \<subseteq> set (c # cs)" if "match_color (c # cs) = Some r" for r
    using that by (cases cs) (auto split: if_splits list.splits dest!: arg_cong [of "dropWhile _ _" _ set] dest: set_dropWhileD)
  with 2 show ?case by (fastforce split: option.splits)
qed simp

lemma group_digits_filter: "list_all is_digit s \<Longrightarrow> \<not> is_digit sep \<Longrightarrow> filter is_digit (group_digits sep s) = s"
proof (induction sep s rule: group_digits.induct)
  case (1 sep s)
  show ?case
  proof (cases "length s \<le> 3")
    case False
    have "list_all is_digit (take (length s - 3) s)" "list_all is_digit (drop (length s - 3) s)"
      using "1.prems"(1) by (auto simp: list_all_iff dest: in_set_takeD in_set_dropD)
    with False 1 show ?thesis by (subst group_digits.simps) (simp add: list_all_iff)
  qed (use 1 in \<open>subst group_digits.simps, simp add: list_all_iff\<close>)
qed

subsection \<open>Properties\<close>

text \<open>
  C17: A message that is printed ends up in the log file as one line without colour codes: the word for its level, the time stamp and
  zone, the name or number of the thread, the padded message and the named values, exactly; the console gets the same line when
  colours are off, and nothing else is written. The zone is not the one the settings describe: a first line with \<^verbatim>\<open>log_utc\<close> set shows local
  time, one without it UTC, and later lines keep the zone of the first.
\<close>

theorem log_line_correct:
  assumes "level \<le> log_verbosity (settings L)" and "tee L = Some (f, True)"
    and "\<forall>tz. plain (format_time tz now) \<and> plain (zone_name tz)" and "plain (thread_name L)"
    and "plain (pad_field 35 msg)" and "list_all plain args" and "list_all plain texts"
    and "line = plain_line format_time zone_name pad_field now level msg args texts L"
    and "L' = log_message format_time zone_name pad_field now level msg args texts L"
  shows "files L' = (files L)(f := files L f @ line)
    \<and> (log_nocolor (settings L) \<longrightarrow>
      cout_text L' = cout_text L @ (if log_std_out (settings L) then line else [])
      \<and> cerr_text L' = cerr_text L @ (if log_std_out (settings L) then [] else line))"
proof -
  obtain b L1 where
    b: "new_BufferBase_msg format_time zone_name pad_field now level msg args L = (b, L1)" "should_print b"
      "strip_colors (ss b @ concat texts) @ [char_of (10 :: nat)] = line"
    and L1: "L1 = L\<lparr>zone_static := Some (line_zone L), thread_name := thread_name L1\<rparr>"
    using new_BufferBase_msg_on [where ft = format_time and zn = zone_name and pf = pad_field and now = now and msg = msg,
        OF assms(1) _ _ assms(4-7)] assms(3,8) by metis
  have same: "settings L1 = settings L" "tee L1 = tee L" "files L1 = files L" "cout_text L1 = cout_text L" "cerr_text L1 = cerr_text L"
    by (subst L1, simp)+
  have "L' = flush (b\<lparr>ss := ss b @ concat texts\<rparr>) L1"
    using assms(9) b(1,2) by (simp add: log_message_def fold_append_text)
  note flush = this flush_def put_out_def Let_def same assms(2) b(2)
  show ?thesis using b(3) by (simp add: flush)
qed

theorem log_line_correct_witness:
  "files (log_message (\<lambda>z t. t) (\<lambda>z. ''UTC'') (\<lambda>k s. s) ''01-02'' kInfo ''Start'' [''n'', ''1''] []
     \<lparr>settings = default_Settings, tee = Some (''l'', True), zone_static = None, thread_name = [], thread_id = 7, cout_text = [],
      cerr_text = [], files = (\<lambda>_. []), can_open = (\<lambda>_. True)\<rparr>) ''l''
   = ''  INFO [01-02 UTC] Startn=1 '' @ [char_of (10 :: nat)]"
  using log_line_correct [where format_time = "\<lambda>z t. t" and zone_name = "\<lambda>z. ''UTC''" and pad_field = "\<lambda>k s. s" and
      now = "''01-02''" and level = kInfo and msg = "''Start''" and args = "[''n'', ''1'']" and texts = "[]" and f = "''l''" and
      L = "\<lparr>settings = default_Settings, tee = Some (''l'', True), zone_static = None, thread_name = [], thread_id = 7, cout_text = [],
        cerr_text = [], files = (\<lambda>_. []), can_open = (\<lambda>_. True)\<rparr>", OF _ _ _ _ _ _ _ refl refl]
  by (simp add: plain_line_def default_Settings_def less_eq_Level_def ESC_def)

text \<open>
  A message above the verbosity has no effect at all, whatever is appended to it, and the macros agree
  with the constructor.
\<close>

theorem log_silent:
  assumes "log_verbosity (settings L) < level"
  shows "log_message format_time zone_name pad_field now level msg args texts L = L
    \<and> ZEN_LOGBUFFER format_time zone_name now level texts L = L"
proof -
  have "\<not> level \<le> log_verbosity (settings L)" using assms by simp
  then show ?thesis
    by (simp add: log_message_def ZEN_LOGBUFFER_def test_verbosity_def new_BufferBase_msg_def new_BufferBase_def
        fold_append_text_off flush_def)
qed

theorem log_silent_witness:
  "log_message (\<lambda>z t. t) (\<lambda>z. ''UTC'') (\<lambda>k s. s) ''01-02'' kDebug ''Start'' [] [''more'']
     \<lparr>settings = default_Settings, tee = Some (''l'', True), zone_static = None, thread_name = [], thread_id = 7, cout_text = [],
      cerr_text = [], files = (\<lambda>_. []), can_open = (\<lambda>_. True)\<rparr>
   = \<lparr>settings = default_Settings, tee = Some (''l'', True), zone_static = None, thread_name = [], thread_id = 7, cout_text = [],
      cerr_text = [], files = (\<lambda>_. []), can_open = (\<lambda>_. True)\<rparr>"
  by (rule log_silent [THEN conjunct1]) (simp add: default_Settings_def less_Level_def)

text \<open>Every code that \<^verbatim>\<open>terminal.hpp\<close> defines is recognised and removed by the colour pattern.\<close>

theorem terminal_codes_stripped:
  "list_all (\<lambda>(name, c). strip_colors (c @ s) = strip_colors s) terminal_codes"
  using terminal_codes_ok by (auto simp: list_all_iff intro: strip_code)

text \<open>
  A number is printed with separators that do not change it: without them it is the decimal text of the number.
\<close>

theorem append_number_digits:
  assumes "should_print b" and "case separator b of None \<Rightarrow> True | Some sep \<Rightarrow> \<not> is_digit sep"
  shows "\<exists>t. ss (append_number n b) = ss b @ t \<and> dec_val (filter is_digit t) = n"
proof -
  have d: "list_all is_digit (show_nat n)" "dec_val (show_nat n) = n" using show_nat_digits [of n] by simp_all
  then have "filter is_digit (show_nat n) = show_nat n" by (simp add: list_all_iff)
  with d assms show ?thesis
    by (cases "separator b") (simp_all add: append_number_def append_text_def group_digits_filter)
qed

theorem append_number_digits_witness:
  "\<exists>t. ss (append_number 1234567 \<lparr>should_print = True, ss = ''n='', separator = Some CHR '',''\<rparr>) = ''n='' @ t
     \<and> dec_val (filter is_digit t) = 1234567"
  using append_number_digits [of "\<lparr>should_print = True, ss = ''n='', separator = Some CHR '',''\<rparr>" 1234567]
  by (simp add: is_digit_def)

text \<open>
  The time zone of the lines is the local one when UTC was asked for, and UTC when it was not; it is decided by the first
  line that is printed, and settings that come later do not change it.
\<close>

theorem log_zone_inverted_and_fixed:
  assumes "level \<le> log_verbosity (settings L)" and "zone_static L = None"
    and "L' = snd (new_BufferBase format_time zone_name now level L)"
  shows "line_zone L' = (if log_utc (settings L) then Local_zone else Utc_zone)
    \<and> line_zone (log_init s L') = line_zone L'"
proof -
  from new_BufferBase_on [OF assms(1), of format_time zone_name now] assms(3)
  have "L' = L\<lparr>zone_static := Some (line_zone L), thread_name := thread_name L'\<rparr>" by auto
  then have z: "zone_static L' = Some (line_zone L)" by (metis Log.ext_inject Log.surjective Log.update_convs(3,4))
  with assms(2) show ?thesis by (simp add: line_zone_def log_init_def tee_file_def Let_def)
qed

theorem log_zone_inverted_and_fixed_witness:
  "line_zone (snd (new_BufferBase (\<lambda>z t. t) (\<lambda>z. ''UTC'') ''01-02'' kInfo
     \<lparr>settings = default_Settings\<lparr>log_utc := True\<rparr>, tee = None, zone_static = None, thread_name = [], thread_id = 7, cout_text = [],
      cerr_text = [], files = (\<lambda>_. []), can_open = (\<lambda>_. True)\<rparr>)) = Local_zone"
  using log_zone_inverted_and_fixed [where level = kInfo and format_time = "\<lambda>z t. t" and zone_name = "\<lambda>z. ''UTC''" and now = "''01-02''"
      and L = "\<lparr>settings = default_Settings\<lparr>log_utc := True\<rparr>, tee = None, zone_static = None, thread_name = [], thread_id = 7, cout_text = [],
      cerr_text = [], files = (\<lambda>_. []), can_open = (\<lambda>_. True)\<rparr>", OF _ _ refl]
  by (simp add: default_Settings_def less_eq_Level_def)

text \<open>
  The pattern is applied once: a code that another code splits in two survives, so a message can still bring colours to an
  output without them. \<open>strip_keeps\<close> says that no character is added.
\<close>

lemma strip_once: "strip_colors (ESC # ''[3'' @ ESC # ''[0m1m'') = ESC # ''[31m''"
  by code_simp

lemma get_thread_id_id: "get_thread_id L = thread_id L"
  using show_nat_digits [of "unat (thread_id L)"] by (simp add: get_thread_id_def)

end
