(* ===== verification/Asio_Timer.thy ===== *)
theory Asio_Timer
  imports Moria_Prelude
begin

section \<open>The periodic timer\<close>

text \<open>
  \<^verbatim>\<open>zen/node/common/asio_timer.hpp\<close>. The deadline timer is boost's: the record \<open>Deadline_ops\<close> over an abstract state \<open>'d\<close>. The locale
  \<open>deadline_timer\<close> states what its documentation promises, in terms of the waits that are pending and of the queue of
  completion handlers that are ready to run (\<open>True\<close>: the time expired, \<open>False\<close>: the wait was aborted): setting a new
  expiry and cancelling abort every pending wait. The callback works on a state \<open>'e\<close>; its result is ignored by the code.
  The handler holds a pointer to the object, so running it after the destructor is undefined.
\<close>

record 'd Deadline_ops =
  expires_from_now :: "u32 \<Rightarrow> 'd \<Rightarrow> 'd"
  async_wait :: "'d \<Rightarrow> 'd"
  cancel_waits :: "'d \<Rightarrow> 'd"
  pop_handler :: "'d \<Rightarrow> 'd"
  time_passes :: "'d \<Rightarrow> 'd"

record ('d, 'e) Timer =
  is_running :: bool
  interval :: u32
  deadline :: 'd
  call_back :: "('e \<Rightarrow> 'e) option"
  call_env :: 'e
  alive :: bool

definition launch :: "'d Deadline_ops \<Rightarrow> ('d, 'e) Timer \<Rightarrow> ('d, 'e) Timer" where
  "launch A t = t\<lparr>deadline := async_wait A (expires_from_now A (interval t) (deadline t))\<rparr>"

definition timer_start :: "'d Deadline_ops \<Rightarrow> ('d, 'e) Timer \<Rightarrow> ('d, 'e) Timer" where
  "timer_start A t = (if \<not> is_running t then launch A (t\<lparr>is_running := True\<rparr>) else t)"

definition timer_stop :: "'d Deadline_ops \<Rightarrow> ('d, 'e) Timer \<Rightarrow> ('d, 'e) Timer" where
  "timer_stop A t = (if is_running t then t\<lparr>is_running := False, deadline := cancel_waits A (deadline t)\<rparr> else t)"

definition timer_reset :: "'d Deadline_ops \<Rightarrow> ('d, 'e) Timer \<Rightarrow> ('d, 'e) Timer" where
  "timer_reset A t = t\<lparr>deadline := cancel_waits A (deadline t)\<rparr>"

definition new_Timer :: "'d Deadline_ops \<Rightarrow> 'd \<Rightarrow> u32 \<Rightarrow> ('e \<Rightarrow> 'e) option \<Rightarrow> bool \<Rightarrow> 'e \<Rightarrow> ('d, 'e) Timer run" where
  "new_Timer A d ms cb auto_start e =
     ZEN_ASSERT (ms > 0)
       (let t = \<lparr>is_running = False, interval = ms, deadline = d, call_back = cb, call_env = e, alive = True\<rparr>
        in Ret (if auto_start then timer_start A t else t))"

definition delete_Timer :: "'d Deadline_ops \<Rightarrow> ('d, 'e) Timer \<Rightarrow> ('d, 'e) Timer" where
  "delete_Timer A t = (timer_stop A t)\<lparr>alive := False\<rparr>"

definition timer_handler :: "'d Deadline_ops \<Rightarrow> bool \<Rightarrow> ('d, 'e) Timer \<Rightarrow> ('d, 'e) Timer run" where
  "timer_handler A expired t =
     (if \<not> alive t then Undef
      else
        let t = (case call_back t of
                   None \<Rightarrow> t
                 | Some f \<Rightarrow> if expired then t\<lparr>call_env := f (call_env t)\<rparr> else t)
        in Ret (if is_running t then launch A t else t))"

subsection \<open>The contract of the deadline timer\<close>

locale deadline_timer =
  fixes A :: "'d Deadline_ops" and pending :: "'d \<Rightarrow> nat" and ready :: "'d \<Rightarrow> bool list"
  assumes expires_law: "pending (expires_from_now A ms d) = 0 \<and> ready (expires_from_now A ms d) = ready d @ replicate (pending d) False"
    and cancel_law: "pending (cancel_waits A d) = 0 \<and> ready (cancel_waits A d) = ready d @ replicate (pending d) False"
    and wait_law: "pending (async_wait A d) = Suc (pending d) \<and> ready (async_wait A d) = ready d"
    and pop_law: "ready d = b # bs \<Longrightarrow> pending (pop_handler A d) = pending d \<and> ready (pop_handler A d) = bs"
    and time_law: "pending (time_passes A d) = 0 \<and> ready (time_passes A d) = ready d @ replicate (pending d) True"

text \<open>
  What can happen to a timer that is used one cycle at a time: it is started only when the handler of an earlier cycle has
  run; it is stopped and reset at any time, on the thread of the io context (boost does not allow a deadline timer to be used by two threads at once); time passes; the io context runs the next handler.
\<close>

inductive timer_step ::
  "'d Deadline_ops \<Rightarrow> ('d \<Rightarrow> nat) \<Rightarrow> ('d \<Rightarrow> bool list) \<Rightarrow> ('d, 'e) Timer \<Rightarrow> ('d, 'e) Timer \<Rightarrow> bool"
  for A :: "'d Deadline_ops" and pending ready where
  step_start: "pending (deadline t) = 0 \<and> ready (deadline t) = [] \<or> is_running t \<Longrightarrow>
    timer_step A pending ready t (timer_start A t)"
| step_stop: "timer_step A pending ready t (timer_stop A t)"
| step_reset: "timer_step A pending ready t (timer_reset A t)"
| step_time: "timer_step A pending ready t (t\<lparr>deadline := time_passes A (deadline t)\<rparr>)"
| step_handler: "ready (deadline t) = b # bs \<Longrightarrow>
    timer_handler A b (t\<lparr>deadline := pop_handler A (deadline t)\<rparr>) = Ret t' \<Longrightarrow> timer_step A pending ready t t'"

definition one_chain :: "('d \<Rightarrow> nat) \<Rightarrow> ('d \<Rightarrow> bool list) \<Rightarrow> ('d, 'e) Timer \<Rightarrow> bool" where
  "one_chain pending ready t \<longleftrightarrow>
     (let n = pending (deadline t) + length (ready (deadline t))
      in alive t \<and> n \<le> 1 \<and> (if is_running t then n = 1 else pending (deadline t) = 0))"

text \<open>What one call of the callback, if there is one, does.\<close>

definition called :: "('e \<Rightarrow> 'e) option \<Rightarrow> 'e \<Rightarrow> 'e" where
  "called cb e = (case cb of None \<Rightarrow> e | Some f \<Rightarrow> f e)"

text \<open>The queue after a stop and a start with no handler run in between, and what one handler makes of it.\<close>

definition chased :: "('d \<Rightarrow> nat) \<Rightarrow> ('d \<Rightarrow> bool list) \<Rightarrow> ('d, 'e) Timer \<Rightarrow> bool" where
  "chased pending ready t \<longleftrightarrow> is_running t \<and> alive t \<and> pending (deadline t) = 1 \<and> ready (deadline t) = [False]"

text \<open>The io context runs one handler after the other.\<close>

fun run_handlers ::
  "'d Deadline_ops \<Rightarrow> ('d \<Rightarrow> bool list) \<Rightarrow> nat \<Rightarrow> ('d, 'e) Timer \<Rightarrow> ('d, 'e) Timer run" where
  "run_handlers A ready 0 t = Ret t"
| "run_handlers A ready (Suc n) t =
     (case ready (deadline t) of
        [] \<Rightarrow> Ret t
      | b # bs \<Rightarrow> run_bind (timer_handler A b (t\<lparr>deadline := pop_handler A (deadline t)\<rparr>)) (run_handlers A ready n))"

context deadline_timer
begin

lemma launch_deadline:
  "pending (deadline (launch A t)) = 1"
  "ready (deadline (launch A t)) = ready (deadline t) @ replicate (pending (deadline t)) False"
  by (simp_all add: launch_def expires_law wait_law)

lemma launch_keeps:
  "is_running (launch A t) = is_running t" "call_env (launch A t) = call_env t" "alive (launch A t) = alive t"
  "call_back (launch A t) = call_back t" "interval (launch A t) = interval t"
  by (simp_all add: launch_def)

text \<open>The handler, on every path: the callback is called for an expired wait, the timer is launched again if it still runs.\<close>

lemma handler_runs:
  assumes "alive t"
  shows "\<exists>t'. timer_handler A b t = Ret t' \<and> alive t' \<and> is_running t' = is_running t \<and> call_back t' = call_back t
    \<and> call_env t' = (if b then called (call_back t) (call_env t) else call_env t)
    \<and> pending (deadline t') = (if is_running t then 1 else pending (deadline t))
    \<and> ready (deadline t') = ready (deadline t) @ (if is_running t then replicate (pending (deadline t)) False else [])"
  using assms
  by (auto simp: timer_handler_def called_def launch_deadline launch_keeps Let_def split: option.split)

lemma step_one_chain:
  "timer_step A pending ready t t' \<Longrightarrow> one_chain pending ready t \<Longrightarrow> one_chain pending ready t' \<and> call_back t' = call_back t"
proof (induction rule: timer_step.induct)
  case (step_start t)
  then show ?case
    using launch_deadline [of "t\<lparr>is_running := True\<rparr>"] launch_keeps [of "t\<lparr>is_running := True\<rparr>"]
    by (auto simp: timer_start_def one_chain_def Let_def)
next
  case (step_handler t b bs t')
  from step_handler.prems have "alive (t\<lparr>deadline := pop_handler A (deadline t)\<rparr>)" by (simp add: one_chain_def Let_def)
  from handler_runs [OF this, of b] step_handler pop_law [OF step_handler(1)] show ?case
    by (auto simp: one_chain_def Let_def split: if_splits)
qed (auto simp: timer_stop_def timer_reset_def one_chain_def Let_def cancel_law time_law split: if_splits)

lemma new_one_chain:
  assumes "pending d = 0" "ready d = []" "new_Timer A d ms cb auto_start e = Ret t"
  shows "one_chain pending ready t \<and> call_back t = cb"
  using assms by (auto simp: new_Timer_def timer_start_def one_chain_def launch_deadline launch_keeps Let_def split: if_splits)

text \<open>With one handler ready and no wait pending, that handler is the last one unless the timer runs.\<close>

lemma last_handler:
  assumes "alive t" "pending (deadline t) = 0" "ready (deadline t) = [b]"
  shows "\<exists>t'. run_handlers A ready 1 t = Ret t' \<and> is_running t' = is_running t \<and> ready (deadline t') = []
    \<and> pending (deadline t') = (if is_running t then 1 else 0)
    \<and> call_env t' = (if b then called (call_back t) (call_env t) else call_env t)"
proof -
  from assms(1) have "alive (t\<lparr>deadline := pop_handler A (deadline t)\<rparr>)" by simp
  from handler_runs [OF this, of b] pop_law [OF assms(3)] assms(2,3) show ?thesis by auto
qed

lemma nothing_left:
  assumes "pending (deadline t) = 0" "ready (deadline t) = []"
  shows "run_handlers A ready n (t\<lparr>deadline := (time_passes A ^^ k) (deadline t)\<rparr>) = Ret (t\<lparr>deadline := (time_passes A ^^ k) (deadline t)\<rparr>)"
proof -
  have "pending ((time_passes A ^^ k) (deadline t)) = 0 \<and> ready ((time_passes A ^^ k) (deadline t)) = []"
    using assms by (induction k) (simp_all add: time_law)
  then show ?thesis by (cases n) simp_all
qed

lemma stop_ends_chain:
  assumes "one_chain pending ready t"
  shows "\<exists>t'. run_handlers A ready 1 (timer_stop A t) = Ret t' \<and> \<not> is_running t' \<and> pending (deadline t') = 0 \<and> ready (deadline t') = []
    \<and> call_env t' = (if ready (deadline t) = [True] then called (call_back t) (call_env t) else call_env t)"
proof -
  let ?s = "timer_stop A t"
  have s: "alive ?s" "\<not> is_running ?s" "pending (deadline ?s) = 0" "call_back ?s = call_back t" "call_env ?s = call_env t"
    using assms by (auto simp: one_chain_def timer_stop_def Let_def cancel_law split: if_splits)
  consider "pending (deadline t) = 0" "ready (deadline t) = []" | "pending (deadline t) = 1" "ready (deadline t) = []"
    | b where "pending (deadline t) = 0" "ready (deadline t) = [b]"
  proof (cases "ready (deadline t)")
    case Nil
    then have "pending (deadline t) = 0 \<or> pending (deadline t) = 1" using assms by (auto simp: one_chain_def Let_def)
    with Nil show thesis using that(1,2) by blast
  next
    case (Cons b bs)
    then have "pending (deadline t) = 0" "bs = []" using assms by (auto simp: one_chain_def Let_def)
    with Cons show thesis using that(3) by blast
  qed
  then show ?thesis
  proof cases
    case 1
    then have "\<not> is_running t" using assms by (cases "is_running t") (simp_all add: one_chain_def)
    then have "?s = t" by (simp add: timer_stop_def)
    with 1 \<open>\<not> is_running t\<close> show ?thesis by simp
  next
    case 2
    then have "ready (deadline ?s) = [False]" using assms by (cases "is_running t") (simp_all add: one_chain_def timer_stop_def cancel_law)
    from last_handler [OF s(1) s(3) this] 2 s show ?thesis by auto
  next
    case (3 b)
    then have "ready (deadline ?s) = [b]" by (simp add: timer_stop_def cancel_law)
    from last_handler [OF s(1) s(3) this] 3 s show ?thesis by (cases b) auto
  qed
qed

lemma cycle_of_chain:
  assumes "one_chain pending ready t" "is_running t" "ready (deadline t) = []"
  shows "\<exists>t'. run_handlers A ready 1 (t\<lparr>deadline := time_passes A (deadline t)\<rparr>) = Ret t' \<and> is_running t'
    \<and> pending (deadline t') = 1 \<and> ready (deadline t') = [] \<and> call_env t' = called (call_back t) (call_env t)"
proof -
  have d: "pending (time_passes A (deadline t)) = 0" "ready (time_passes A (deadline t)) = [True]"
    using assms by (auto simp: one_chain_def Let_def time_law)
  have "alive t" using assms(1) by (simp add: one_chain_def Let_def)
  with last_handler [of "t\<lparr>deadline := time_passes A (deadline t)\<rparr>" True] d assms(2) show ?thesis by auto
qed

lemma restart_chased:
  assumes "is_running t" "alive t" "pending (deadline t) = 1" "ready (deadline t) = []"
  shows "chased pending ready (timer_start A (timer_stop A t)) \<and> call_env (timer_start A (timer_stop A t)) = call_env t"
  using assms by (simp add: chased_def timer_start_def timer_stop_def launch_deadline launch_keeps cancel_law)

lemma chased_again:
  assumes "chased pending ready t"
  shows "\<exists>t'. timer_handler A False (t\<lparr>deadline := pop_handler A (deadline t)\<rparr>) = Ret t' \<and> chased pending ready t' \<and> call_env t' = call_env t"
  using assms pop_law [of "deadline t" False "[]"]
  by (auto simp: chased_def timer_handler_def launch_deadline launch_keeps Let_def split: option.split)

lemma chased_forever:
  "chased pending ready t \<Longrightarrow> \<exists>t'. run_handlers A ready n t = Ret t' \<and> chased pending ready t' \<and> call_env t' = call_env t"
proof (induction n arbitrary: t)
  case (Suc n)
  obtain t1 where t1: "timer_handler A False (t\<lparr>deadline := pop_handler A (deadline t)\<rparr>) = Ret t1" "chased pending ready t1"
    "call_env t1 = call_env t"
    using chased_again [OF Suc.prems] by blast
  have "ready (deadline t) = [False]" using Suc.prems by (simp add: chased_def)
  with t1 Suc.IH [OF t1(2)] show ?case by simp
qed simp

end

text \<open>A timer that only counts.\<close>

definition count_ops :: "(nat \<times> bool list) Deadline_ops" where
  "count_ops =
     \<lparr>expires_from_now = (\<lambda>ms (n, q). (0, q @ replicate n False)), async_wait = (\<lambda>(n, q). (Suc n, q)),
      cancel_waits = (\<lambda>(n, q). (0, q @ replicate n False)), pop_handler = (\<lambda>(n, q). (n, tl q)),
      time_passes = (\<lambda>(n, q). (0, q @ replicate n True))\<rparr>"

interpretation count_timer: deadline_timer count_ops fst snd
  by unfold_locales (auto simp: count_ops_def split: prod.splits)

subsection \<open>Properties\<close>

text \<open>
  C28: A timer that is started again only after the handler of its last cycle has run. It never has more than one wait or
  handler outstanding, and exactly one while it runs: the cycles do not multiply. While it runs, each time the interval expires the callback is called once
  and the next wait is set. A stop ends the cycles: one more handler at most runs, which calls the callback only if its time had expired before the stop;
  after it nothing is pending and, however much time passes, no handler runs again.
\<close>

theorem timer_one_chain:
  assumes "deadline_timer A pending ready" and "pending d = 0" and "ready d = []" and "new_Timer A d ms cb auto_start e = Ret t0"
    and "(timer_step A pending ready)\<^sup>*\<^sup>* t0 t"
  shows "pending (deadline t) + length (ready (deadline t)) \<le> 1
    \<and> (is_running t \<longrightarrow> pending (deadline t) + length (ready (deadline t)) = 1)
    \<and> (is_running t \<and> ready (deadline t) = [] \<longrightarrow>
        (\<exists>t'. run_handlers A ready 1 (t\<lparr>deadline := time_passes A (deadline t)\<rparr>) = Ret t' \<and> is_running t'
          \<and> pending (deadline t') = 1 \<and> ready (deadline t') = [] \<and> call_env t' = called cb (call_env t)))
    \<and> (\<exists>t'. run_handlers A ready 1 (timer_stop A t) = Ret t' \<and> \<not> is_running t' \<and> pending (deadline t') = 0 \<and> ready (deadline t') = []
          \<and> call_env t' = (if ready (deadline t) = [True] then called cb (call_env t) else call_env t)
          \<and> (\<forall>n k. run_handlers A ready n (t'\<lparr>deadline := (time_passes A ^^ k) (deadline t')\<rparr>)
                = Ret (t'\<lparr>deadline := (time_passes A ^^ k) (deadline t')\<rparr>)))"
proof -
  have "one_chain pending ready t \<and> call_back t = cb"
    using assms(5) deadline_timer.new_one_chain [OF assms(1-4)]
    by (induction rule: rtranclp_induct) (auto dest: deadline_timer.step_one_chain [OF assms(1)])
  then have c: "one_chain pending ready t" and cb: "call_back t = cb" by simp_all
  have "pending (deadline t) + length (ready (deadline t)) \<le> 1
      \<and> (is_running t \<longrightarrow> pending (deadline t) + length (ready (deadline t)) = 1)"
    using c by (auto simp: one_chain_def Let_def)
  with deadline_timer.cycle_of_chain [OF assms(1) c] deadline_timer.stop_ends_chain [OF assms(1) c]
    deadline_timer.nothing_left [OF assms(1)] show ?thesis
    unfolding cb by metis
qed

theorem timer_one_chain_witness:
  "\<exists>t0 :: (nat \<times> bool list, nat) Timer. new_Timer count_ops (0, []) 500 (Some Suc) True 0 = Ret t0
     \<and> (\<exists>t'. run_handlers count_ops snd 1 (t0\<lparr>deadline := time_passes count_ops (deadline t0)\<rparr>) = Ret t' \<and> call_env t' = 1)
     \<and> (\<exists>t'. run_handlers count_ops snd 1 (timer_stop count_ops t0) = Ret t' \<and> deadline t' = (0, []))"
proof -
  let ?t0 = "timer_start count_ops \<lparr>is_running = False, interval = 500, deadline = (0, []), call_back = Some Suc, call_env = 0 :: nat, alive = True\<rparr>"
  have t0: "new_Timer count_ops (0, []) 500 (Some Suc) True (0 :: nat) = Ret ?t0" by (simp add: new_Timer_def)
  have r: "is_running ?t0" "snd (deadline ?t0) = []" "call_env ?t0 = 0" by (simp_all add: timer_start_def launch_def count_ops_def)
  from timer_one_chain [OF count_timer.deadline_timer_axioms _ _ t0 rtranclp.rtrancl_refl] r
  have "(\<exists>t'. run_handlers count_ops snd 1 (?t0\<lparr>deadline := time_passes count_ops (deadline ?t0)\<rparr>) = Ret t' \<and> call_env t' = 1)
     \<and> (\<exists>t'. run_handlers count_ops snd 1 (timer_stop count_ops ?t0) = Ret t' \<and> fst (deadline t') = 0 \<and> snd (deadline t') = [])"
    by (fastforce simp: called_def)
  with t0 show ?thesis by (metis prod.collapse)
qed

text \<open>
  Stopping and starting a running timer before the io context runs anything makes two chains of handlers that abort each
  other: however many handlers run, another one is ready at once, the wait is set anew, and the callback is not called.
\<close>

theorem timer_restart_spins:
  assumes "deadline_timer A pending ready" and "is_running t" and "alive t" and "pending (deadline t) = 1"
    and "ready (deadline t) = []"
  shows "\<exists>t'. run_handlers A ready n (timer_start A (timer_stop A t)) = Ret t' \<and> ready (deadline t') = [False]
    \<and> pending (deadline t') = 1 \<and> call_env t' = call_env t"
proof -
  from deadline_timer.restart_chased [OF assms]
  have c: "chased pending ready (timer_start A (timer_stop A t))" "call_env (timer_start A (timer_stop A t)) = call_env t"
    by simp_all
  from deadline_timer.chased_forever [OF assms(1) c(1), of n] c(2) show ?thesis by (auto simp: chased_def)
qed

theorem timer_restart_spins_witness:
  "\<exists>t' :: (nat \<times> bool list, nat) Timer. run_handlers count_ops snd 1000
      (timer_start count_ops (timer_stop count_ops
        \<lparr>is_running = True, interval = 500, deadline = (1, []), call_back = Some Suc, call_env = 0, alive = True\<rparr>)) = Ret t'
     \<and> call_env t' = 0"
  using timer_restart_spins [OF count_timer.deadline_timer_axioms,
      of "\<lparr>is_running = True, interval = 500, deadline = (1, []), call_back = Some Suc, call_env = 0 :: nat, alive = True\<rparr>" 1000]
  by auto

text \<open>
  After \<^verbatim>\<open>stop\<close> a handler whose time had already expired still calls the callback once; and after the destructor
  any handler that is still queued, aborted or not, uses the destroyed object.
\<close>

theorem timer_stop_too_late:
  assumes "deadline_timer A pending ready" and "is_running t" and "alive t" and "call_back t = Some f"
    and "pending (deadline t) = 1" and "ready (deadline t) = []"
  shows "(\<exists>t'. run_handlers A ready 1 (timer_stop A (t\<lparr>deadline := time_passes A (deadline t)\<rparr>)) = Ret t'
        \<and> call_env t' = f (call_env t))
    \<and> run_handlers A ready 1 (delete_Timer A t) = Undef"
proof -
  let ?d = "time_passes A (deadline t)"
  have d: "pending ?d = 0" "ready ?d = [True]"
    using deadline_timer.time_law [OF assms(1), of "deadline t"] assms(5,6) by auto
  have c: "ready (cancel_waits A ?d) = [True]" "ready (cancel_waits A (deadline t)) = [False]"
    using deadline_timer.cancel_law [OF assms(1)] d assms(5,6) by auto
  show ?thesis
    using assms(2-4) c by (simp add: timer_stop_def delete_Timer_def timer_handler_def Let_def)
qed

theorem timer_stop_too_late_witness:
  "run_handlers count_ops snd 1 (delete_Timer count_ops
     \<lparr>is_running = True, interval = 500, deadline = (1, []), call_back = Some Suc, call_env = 0 :: nat, alive = True\<rparr>) = Undef"
  using timer_stop_too_late [OF count_timer.deadline_timer_axioms,
      of "\<lparr>is_running = True, interval = 500, deadline = (1, []), call_back = Some Suc, call_env = 0 :: nat, alive = True\<rparr>" Suc]
  by simp

end
