(* ===== verification/Spec2Isabelle.thy ===== *)
theory Spec2Isabelle
  imports Serialize Capped_Set Hash_Composed Hash_Type Amounts Base64 Human_Bytes Locked_Pages Benchmarks Db_Cursor Db_Env Db_Handles Node_Settings Sync_Stage
    Process_Memory Worker_Thread Stop_Watch Log_Buffer Directories Asio_Timer
begin

text \<open>
  A verification library for the moria node (C++ sources under \<^verbatim>\<open>zen/\<close>).

  \<^bold>\<open>The program.\<close> The repository holds two libraries. \<^verbatim>\<open>zen/core\<close> has what consensus code needs and no threads or files: byte
  order, hexadecimal and base64 text, streams and serialization, hash functions (wrappers of OpenSSL and one built-in SHA-256), HMAC,
  fixed size hashes, amounts, size texts, an object pool, a capped set and locked memory. \<^verbatim>\<open>zen/node\<close> builds on it: a
  database over libmdbx (environments, transactions, pooled cursors, tables, schema version, progress of the stages), the
  base class of the synchronisation stages, operating system signals, stoppable components, a worker thread, a periodic
  timer, a stop watch, directories and logging. The components meet at a few interfaces, each a locale here.

  \<^bold>\<open>The prelude.\<close> \<open>Moria_Prelude\<close> has the types of machine integers and byte strings, the outcome type \<open>run\<close> (a value, a C++
  exception, a failed assertion that aborts, or behaviour the language leaves undefined) with its sequencing and \<^verbatim>\<open>ZEN_ASSERT\<close>, object
  representation of integers and the cutting of messages in blocks. \<open>Decimal_Text\<close> has decimal text. \<open>Common_Base\<close> is
  \<^verbatim>\<open>core/common/base.hpp\<close> and \<^verbatim>\<open>core/encoding/errors.hpp\<close>.

  \<^bold>\<open>Core components.\<close>
  \<^item> \<open>Endian\<close>: \<^verbatim>\<open>endian.hpp\<close>; the functions taken from intx are the locales \<open>be_codec\<close>, \<open>le_codec\<close>, \<open>intx_endian\<close>.
  \<^item> \<open>Hex\<close>: \<^verbatim>\<open>hex.cpp\<close>; the unrolled table-driven decoder equals a digit-by-digit definition, round trips.
  \<^item> \<open>Base64\<close>: \<^verbatim>\<open>base64.cpp\<close> over OpenSSL's filters (locale \<open>base64_bio\<close>) and RFC 4648: round trip, and reads past the end of a view.
  \<^item> \<open>Data_Stream\<close>, \<open>Serialize\<close>: \<^verbatim>\<open>stream.cpp\<close>, \<^verbatim>\<open>serialize.hpp\<close>; reads, writes, compact sizes: round trip, canonical form, wrap-around
    of the read position.
  \<^item> \<open>Object_Pool\<close>, \<open>Capped_Set\<close>: \<^verbatim>\<open>object_pool.hpp\<close>, \<^verbatim>\<open>capped_set.hpp\<close>; contract \<open>pool_contract\<close>; the capped set with
    its hash table's rehashes, what an insertion does while the queued iterators are valid, and when an eviction is undefined.
  \<^item> \<open>Hasher\<close>, \<open>Hash_Classes\<close>, \<open>Sha256_Old\<close>, \<open>Hash_Composed\<close>: \<^verbatim>\<open>core/crypto\<close>. The buffering of the base class is proved to hash the
    concatenation of the pieces for any block function (locale \<open>hash_class\<close>); the built-in SHA-256 is proved equal to FIPS
    180-4; Hash256, Hash160 and HMAC (RFC 2104) are proved over any class that meets the locale.
  \<^item> \<open>Jenkins\<close>, \<open>Hash_Type\<close>: \<^verbatim>\<open>jenkins.cpp\<close>, \<^verbatim>\<open>types/hash.hpp\<close>; the number a hash denotes for each way to make one, order and text of hashes,
    what the table hash ignores.
  \<^item> \<open>Amounts\<close>: \<^verbatim>\<open>types/amounts.cpp\<close>; 64-bit signed arithmetic with overflow as \<open>Undef\<close>, how much of it valid amounts stand, text, fees.
  \<^item> \<open>Human_Bytes\<close>: \<^verbatim>\<open>common/misc.cpp\<close>; size texts (the regular expression as a function, \<^verbatim>\<open>uint64_t\<close> products that wrap) against a table of units of its own, printing
    over abstract floating point numbers (locale \<open>exact_binary\<close>), random text.
  \<^item> \<open>Locked_Pages\<close>: \<^verbatim>\<open>common/memory.hpp\<close>, \<^verbatim>\<open>secure_bytes.hpp\<close>; a counter per page at the width of \<^verbatim>\<open>intptr_t\<close>, wrapping addresses. The locale \<open>page_locker\<close>
    says which pages the system holds, and the counters are proved in step with it: the pages of an allocation are held until it is released.
    \<open>Process_Memory\<close>: \<^verbatim>\<open>common/memory.cpp\<close>; the single page manager, objects locked through it, memory use and page size over the kernel
    calls of the record \<open>Os_memory\<close> (locale \<open>kernel_locks\<close>, which gives \<open>page_locker\<close>).
  \<^item> \<open>Benchmarks\<close>: \<^verbatim>\<open>hasher_benchmark.cpp\<close>, \<^verbatim>\<open>hex_benchmark.cpp\<close>; one loop frame around the hash classes and the hexadecimal codec, with counters
    that are exact up to the range of \<^verbatim>\<open>int\<close>.

  \<^bold>\<open>Node components.\<close>
  \<^item> \<open>Db_Cursor\<close>: the walks and erasures of \<^verbatim>\<open>database/mdbx.cpp\<close> over the locale \<open>mdbx_cursor\<close>, whose laws are a position in a sorted
    list of records, with the gap an erase leaves. They end and visit or remove exactly the documented records, or do not (reverse prefix walks).
  \<^item> \<open>Db_Layer\<close>: \<^verbatim>\<open>mdbx_tables.hpp\<close>, \<^verbatim>\<open>access_layer.cpp\<close>, \<^verbatim>\<open>stages.cpp\<close> over the locale \<open>mdbx_txn\<close>, which promises
    only what is within the limits of libmdbx (the tables of the node, short keys and values).
  \<^item> \<open>File_System\<close>: the part of \<^verbatim>\<open>std::filesystem\<close> the program uses, as a tree of files with POSIX paths; shared by \<open>Db_Open\<close> and \<open>Directories\<close>.
  \<^item> \<open>Db_Open\<close>: \<^verbatim>\<open>open_env\<close> of \<^verbatim>\<open>database/mdbx.cpp\<close> on that file system, with what creating an environment promises as the locale \<open>mdbx_env\<close>: it accepts some
    geometries and numbers of tables and readers, and option values only in their ranges.
  \<^item> \<open>Db_Env\<close>: transaction holders over the locale \<open>mdbx_store\<close>, which extends \<open>mdbx_txn\<close> and allows one write transaction at a time.
  \<^item> \<open>Db_Handles\<close>: the class \<^verbatim>\<open>Cursor\<close> and its thread-local pool over the locale \<open>mdbx_handles\<close>; the ownership of handles as a step relation over all
    that cursor objects can do, what a constructor that throws leaves open, and the end of a thread, which closes the rest.
  \<^item> \<open>Node_Settings\<close>: \<^verbatim>\<open>common/settings.hpp\<close> and \<^verbatim>\<open>core/types/block.hpp\<close>, the two structures.
  \<^item> \<open>Sync_Stage\<close>: \<^verbatim>\<open>stages/stage.cpp\<close>; progress recorded through a holder survives the commit.
  \<^item> \<open>Signals\<close>: \<^verbatim>\<open>concurrency/ossignals.cpp\<close>, \<^verbatim>\<open>stoppable.cpp\<close>. \<open>Worker_Thread\<close>: \<^verbatim>\<open>concurrency/worker.cpp\<close> as step relations of the owner, the thread, the thread
    it replaces and the outside, one access to a shared variable per step (the spawned thread runs before \<^verbatim>\<open>thread_\<close> is assigned, wake-ups may be spurious, signals
    may be withdrawn); invariant by induction over steps, a rank that shows a
    stop request ends the wait, when an answer can be wrong, and reachable failures.
  \<^item> \<open>Stop_Watch\<close>: \<^verbatim>\<open>common/stopwatch.cpp\<close>.
  \<^item> \<open>Asio_Timer\<close>: \<^verbatim>\<open>common/asio_timer.hpp\<close> over the locale \<open>deadline_timer\<close>; one chain of handlers when it is used one cycle at a time, which a stop ends,
    two that chase each other when it is restarted too early.
  \<^item> \<open>Log_Buffer\<close>: \<^verbatim>\<open>common/log.cpp\<close>, \<^verbatim>\<open>terminal.hpp\<close>; a message from its construction to the console and the file against an independent definition of the
    line, colour codes.
  \<^item> \<open>Directories\<close>: \<^verbatim>\<open>common/directories.cpp\<close> over \<open>File_System\<close>: temporary directories, clearing, deployment of the data directory.

  \<^bold>\<open>Across components.\<close> This theory composes the directories with opening the database: the data directory of the settings is deployed and the chain
  database created in it; and a transaction holder, the tables and the schema version: a new database is initialised and committed, once and
  again. Elsewhere \<open>Sync_Stage\<close> composes stages, holders and tables, and \<open>Hash_Composed\<close> the hash classes.

  \<^bold>\<open>Code outside the repository\<close> (OpenSSL, libmdbx, boost, absl, intx, clocks, random numbers, floating point) is a
  parameter: a record of functions on an abstract state. What the code relies on is a locale named after it, and every
  locale is interpreted, on the model's definitions or on a concrete instance of the parameter.

  \<^bold>\<open>Loops.\<close> No fuel is used. Loops are structural recursions, functions with a measure, or \<open>partial_function (option)\<close> where the
  code may run for ever (page ranges, cursor walks); that they return is then part of the theorem. Locking a range that ends in the last page goes round the address
  space until a counter overflows; unlocking one may go on for ever.

  \<^bold>\<open>Memory and threads.\<close> Objects are values, addresses appear only for locked pages. A mutex-protected operation is one step.
  Only \<open>Worker_Thread\<close> interleaves; its memory is sequentially consistent; a condition variable wakes up by a notification, a time-out or spuriously.

  \<^bold>\<open>Not modelled.\<close> Pure interfaces (\<^verbatim>\<open>Serializable\<close>, which no class implements), accessors that return a member, the Windows and macOS
  branches, terminal initialisation and tests. Symbolic links, permissions and other processes are outside the model
  of the file system; the lock of the log is not needed for one thread; capacity (\<^verbatim>\<open>reserve\<close>) and running out of memory are not
  observable in it.
\<close>

section \<open>Properties that span components\<close>

lemma deployed_chaindata:
  assumes "is_absolute (dir_path d)" "locate os (dir_path d) = Some loc" "fs_lookup (tree os) loc = Some (Dir es)"
    "map_of es ''chaindata'' = None" "list_all (\<lambda>n. case map_of es n of None \<Rightarrow> True | Some u \<Rightarrow> is_dir u) [''etl-tmp'', ''nodes'']"
  obtains os1 where "deploy d os = (Ret (), os1)" "fs_extends (tree os) (tree os1)" "current_path os1 = current_path os"
    "locate os1 (path_append (dir_path d) ''chaindata'') = Some (loc @ [''chaindata''])"
    "fs_lookup (tree os1) (loc @ [''chaindata'']) = Some (Dir [])"
proof -
  let ?ns = "[''chaindata'', ''etl-tmp'', ''nodes'']"
  let ?os1 = "os\<lparr>tree := fs_change (\<lambda>_. Dir (add_missing ?ns es)) loc (tree os)\<rparr>"
  have names: "list_all is_name ?ns" by code_simp
  have dep: "deploy d os = (Ret (), ?os1)"
    unfolding deploy_def by (rule deploy_all_makes [OF assms(1-3) names]) (use assms(4,5) in simp)
  have ext: "fs_extends (tree os) (tree ?os1)"
    using fs_extends_change [OF assms(3), of "\<lambda>_. Dir (add_missing ?ns es)"] fs_extends_add_missing [of es ?ns] by simp
  have l: "fs_lookup (tree ?os1) loc = Some (Dir (add_missing ?ns es))" using assms(3) by (simp add: fs_lookup_change)
  have m: "map_of (add_missing ?ns es) ''chaindata'' = Some (Dir [])" using assms(4) by (simp add: map_of_add_missing)
  have p: "locate ?os1 (dir_path d) = Some loc" by (rule locate_extends [OF ext _ assms(2)]) simp
  show ?thesis
    by (rule that [OF dep ext])
      (use locate_child [OF assms(1) p l, of "''chaindata''"] names m fs_lookup_child [OF l] in simp_all)
qed

text \<open>
  C21: The data directory of the node settings can be deployed and the chain database of the settings created in it, provided that libmdbx accepts the geometry, the number of
  tables and of readers of the configuration and the fixed option values: the environment opens with the configured page size and twice the default limit of dirty pages,
  nothing that was in the file system is lost, and creating the database a second time is refused without a change.
\<close>

theorem database_in_data_directory:
  assumes "mdbx_env M accepts ok_value dp_limit dp_default"
    and "is_absolute (dir_path d)" and "locate os (dir_path d) = Some loc" and "fs_lookup (tree os) loc = Some (Dir es)"
    and "map_of es ''chaindata'' = None"
    and "list_all (\<lambda>n. case map_of es n of None \<Rightarrow> True | Some u \<Rightarrow> is_dir u) [''etl-tmp'', ''nodes'']"
    and "data_directory node = Some d" and "config = chaindata_env_config node"
    and "cfg_path config = path_append (dir_path d) ''chaindata''" and "cfg_create config" and "\<not> cfg_shared config"
    and "\<not> cfg_readonly config" and "accepts (env_geometry config 0) (cfg_max_tables config) (cfg_max_readers config)"
    and "values_in_range ok_value dp_default"
  shows "\<exists>os1 e os2. deploy d os = (Ret (), os1) \<and> open_env M F config os1 = (Ret e, os2)
    \<and> get_pagesize M e = cfg_page_size config \<and> dp_limit e = dp_default * 2 \<and> fs_extends (tree os) (tree os2)
    \<and> (\<exists>msg. open_env M F config os2 = (Throw (Runtime_error msg), os2))"
proof -
  obtain os1 where d: "deploy d os = (Ret (), os1)" "fs_extends (tree os) (tree os1)" "current_path os1 = current_path os"
    "locate os1 (cfg_path config) = Some (loc @ [''chaindata''])" "fs_lookup (tree os1) (loc @ [''chaindata'']) = Some (Dir [])"
    using deployed_chaindata [OF assms(2-6)] assms(9) by metis
  have path: "is_absolute (cfg_path config)" using assms(2,9) by (simp add: is_absolute_append)
  from mdbx_env.open_env_creates [OF assms(1) path d(4,5) _ assms(10-14), of F]
  obtain e os2 k where o: "open_env M F config os1 = (Ret e, os2)" "get_pagesize M e = cfg_page_size config" "dp_limit e = dp_default * 2"
    "fs_extends (tree os1) (tree os2)" "current_path os2 = current_path os1" "0 < k" "k < 2 ^ 64"
    "fs_lookup (tree os2) ((loc @ [''chaindata'']) @ [kDbDataFileName]) = Some (File k)" by auto
  obtain es2 where es2: "fs_lookup (tree os2) (loc @ [''chaindata'']) = Some (Dir es2)" using fs_extends_dir [OF o(4) d(5)] by blast
  have "map_of es2 kDbDataFileName = Some (File k)" using o(8) fs_lookup_child [OF es2] by simp
  from open_env_create_twice [OF path locate_extends [OF o(4,5) d(4)] es2 this o(6,7) assms(10), of M F] d o
  show ?thesis by (auto intro: fs_extends_trans)
qed

theorem database_in_data_directory_witness:
  "\<exists>os1 e os2. deploy \<lparr>dir_path = ''/d''\<rparr> \<lparr>tree = Dir [(''d'', Dir [])], current_path = ''/'', environment = (\<lambda>_. []), temp_setting = ''/tmp'', exe_link = None\<rparr> = (Ret (), os1)
    \<and> open_env ref_env_ops exact_floats (default_EnvConfig\<lparr>cfg_path := ''/d/chaindata'', cfg_create := True\<rparr>) os1 = (Ret e, os2)"
proof -
  let ?os = "\<lparr>tree = Dir [(''d'', Dir [])], current_path = ''/'', environment = (\<lambda>_. []), temp_setting = ''/tmp'', exe_link = None\<rparr>"
  let ?config = "default_EnvConfig\<lparr>cfg_path := ''/d/chaindata'', cfg_create := True\<rparr>"
  have "is_absolute (dir_path \<lparr>dir_path = ''/d''\<rparr>)" "locate ?os (dir_path \<lparr>dir_path = ''/d''\<rparr>) = Some [''d'']"
    "fs_lookup (tree ?os) [''d''] = Some (Dir [])" by code_simp+
  from database_in_data_directory [OF ref_env.mdbx_env_axioms this, of "default_NodeSettings\<lparr>data_directory := Some \<lparr>dir_path = ''/d''\<rparr>, chaindata_env_config := ?config\<rparr>" ?config exact_floats] show ?thesis
    by (auto simp: path_append_def is_absolute_def has_filename_def slash_def default_EnvConfig_def values_in_range_def ref_in_range_def)
qed

text \<open>
  C22: A new database is initialised in one write transaction, and initialising it again changes nothing. Starting with no records and no write transaction, the transaction begins, the tables
  are deployed, the required schema version is written and the commit succeeds; all tables exist by then. The transaction the holder has
  after the commit reads that version, and progress 0 for every known stage. The same steps through it succeed
  again, and what is stored stays as it is.
\<close>

theorem fresh_database_initialised:
  assumes "mdbx_store T live view maps S durable busy" and "intx_endian E" and "durable s = (\<lambda>_ _. None)" and "\<not> busy s"
  shows "\<exists>h s0 t1 t2 t3 h' s' t'. RWTxn_env S s = Ret (h, s0) \<and> holder_txn h = Some t1 \<and> deploy_tables T t1 kChainDataTables = Ret t2
    \<and> write_schema_version T E t2 kRequiredSchemaVersion = Ret t3 \<and> list_all (\<lambda>c. has_map T t3 (map_name c)) kChainDataTables
    \<and> holder_commit S True (holder_put t3 h) s0 = (Ret (), h', s') \<and> holder_txn h' = Some t'
    \<and> map_ret fst (read_schema_version T E t') = Ret (Some kRequiredSchemaVersion)
    \<and> (\<forall>stage. is_known_stage stage \<longrightarrow> map_ret fst (read_stage_progress T E t' stage) = Ret 0)
    \<and> (\<exists>t4 t5 h'' s''. deploy_tables T t' kChainDataTables = Ret t4 \<and> write_schema_version T E t4 kRequiredSchemaVersion = Ret t5
        \<and> holder_commit S False (holder_put t5 h') s' = (Ret (), h'', s'') \<and> durable s'' = durable s')"
proof -
  have txn: "mdbx_txn T live view maps" using assms(1) by (rule mdbx_store.axioms(1))
  let ?key = "to_slice kDbSchemaVersionKey" and ?bytes = "schema_bytes E kRequiredSchemaVersion"
  obtain h t1 s0 where h: "RWTxn_env S s = Ret (h, s0)" "external h = None" "holder_txn h = Some t1" "live t1" "view t1 = durable s"
    "busy s0" by (rule mdbx_store.new_holder [OF assms(1,4)])
  obtain t2 where t2: "deploy_tables T t1 kChainDataTables = Ret t2" "live t2" "view t2 = view t1"
    "maps t2 = map_name ` set kChainDataTables \<union> maps t1"
    using mdbx_txn.deploy_each [OF txn h(4) subset_refl] mdbx_txn.live_rw [OF txn h(4)] by (auto simp: deploy_tables_def)
  have "view t2 (map_name kConfig) ?key = None" using t2(3) h(5) assms(3) by simp
  from mdbx_txn.write_schema_first [OF txn t2(2) assms(2) this]
  obtain t3 where t3: "write_schema_version T E t2 kRequiredSchemaVersion = Ret t3" "live t3" "maps t2 \<subseteq> maps t3"
    "view t3 = (view t2)(map_name kConfig := (view t2 (map_name kConfig))(?key \<mapsto> ?bytes))" by metis
  have tables: "list_all (\<lambda>c. has_map T t3 (map_name c)) kChainDataTables"
    using t3(3) t2(4) mdbx_txn.seek_law [OF txn t3(2)] by (auto simp: list_all_iff has_map_def)
  from mdbx_store.commit_managed [OF assms(1), of "holder_put t3 h" t3 s0 True] h t3
  obtain h' s' t' where c: "holder_commit S True (holder_put t3 h) s0 = (Ret (), h', s')" "durable s' = view t3"
    "external h' = None" "holder_txn h' = Some t'" "live t'" "view t' = view t3" "busy s'" by auto
  have stored: "view t' (map_name kConfig) ?key = Some ?bytes" using c(6) t3(4) by simp
  obtain t4 where t4: "deploy_tables T t' kChainDataTables = Ret t4" "live t4" "view t4 = view t'"
    using mdbx_txn.deploy_each [OF txn c(5) subset_refl] mdbx_txn.live_rw [OF txn c(5)] by (auto simp: deploy_tables_def)
  from mdbx_txn.write_schema_again [OF txn t4(2) assms(2), of kRequiredSchemaVersion] stored t4(3)
  obtain t5 where t5: "write_schema_version T E t4 kRequiredSchemaVersion = Ret t5" "live t5" "view t5 = view t4" by metis
  from mdbx_store.commit_managed [OF assms(1), of "holder_put t5 h'" t5 s' False] c t5
  obtain h'' s'' where c2: "holder_commit S False (holder_put t5 h') s' = (Ret (), h'', s'')" "durable s'' = view t5" by auto
  have "map_ret fst (read_schema_version T E t') = Ret (Some kRequiredSchemaVersion)"
    using assms(2) by (simp add: mdbx_txn.read_schema_value [OF txn c(5)] stored schema_read_def schema_bytes_def
        intx_endian.length_store_big32 intx_endian.load_store_big32 del: map_ret_Ret_iff)
  moreover have "map_ret fst (read_stage_progress T E t' stage) = Ret 0" if "is_known_stage stage" for stage
    using mdbx_txn.get_stage_data_live [OF txn c(5) that node_tables(2), of E None] c(6) t3(4) t2(3) h(5) assms(3)
    by (simp add: read_stage_progress_def stored_def kConfig_def kSyncStageProgress_def table_def del: map_ret_Ret_iff)
  moreover have "durable s'' = durable s'" using c2(2) t5(3) t4(3) c(2,6) by simp
  ultimately show ?thesis using h(1,3) t2(1) t3(1) tables c(1,4) t4(1) t5(1) c2(1) by blast
qed

theorem fresh_database_initialised_witness:
  "\<exists>h s0 t1 t2 t3. RWTxn_env ref_store (({}, \<lambda>_ _. None), False) = Ret (h, s0) \<and> holder_txn h = Some t1 \<and> deploy_tables ref_ops t1 kChainDataTables = Ret t2
     \<and> write_schema_version ref_ops reference_endian t2 kRequiredSchemaVersion = Ret t3"
  using fresh_database_initialised [OF ref_store.mdbx_store_axioms ref_endian.intx_endian_axioms, of "(({}, \<lambda>_ _. None), False)"]
  by auto

end
